(* ===== verification/Eckit_Prelude.thy ===== *)
theory Eckit_Prelude
  imports Main "HOL-Library.Word" "HOL-Library.Signed_Division"
begin

text \<open>
  The shared vocabulary of the development: the exceptions of
  \<^verbatim>\<open>src/src/eckit/exception/Exceptions.h\<close> that the modelled code throws, results that are
  either such an exception or a value, C++ integer division, the parts of the C library the
  sources call (\<^verbatim>\<open>atol\<close>, \<^verbatim>\<open>std::to_string\<close>, \<^verbatim>\<open>isspace\<close>), and the lemmas on lists, division
  and decimal text that several components use.
\<close>

section \<open>Exceptions and results\<close>

datatype eckit_error =
    AssertionFailed
  | BadDate
  | BadTime
  | BadValue
  | BadParameter
  | BadCast
  | SeriousBug
  | UserError
  | OutOfRange
  | ReadError
  | WriteError
  | ShortFile
  | NotImplemented
  | BadTag string
  | RemoteException string string
  | InvalidArgument
  | StdOutOfRange
  | OutOfBounds

text \<open>
  \<^const>\<open>OutOfBounds\<close> is not an exception of eckit: it marks a read or a dereference outside an
  object, which C++ leaves undefined. \<^const>\<open>InvalidArgument\<close> and \<^const>\<open>StdOutOfRange\<close> are thrown by the
  conversions of the standard library. The other constructors are exception classes of eckit.
\<close>

type_synonym 'a result = "eckit_error + 'a"

abbreviation ok :: "'a \<Rightarrow> 'a result" where
  "ok \<equiv> Inr"

abbreviation throw :: "eckit_error \<Rightarrow> 'a result" where
  "throw \<equiv> Inl"

definition rbind :: "'a result \<Rightarrow> ('a \<Rightarrow> 'b result) \<Rightarrow> 'b result" where
  "rbind r f = (case r of Inl e \<Rightarrow> Inl e | Inr x \<Rightarrow> f x)"

text \<open>The macro \<^verbatim>\<open>ASSERT\<close> throws \<^verbatim>\<open>AssertionFailed\<close> when its argument is false.\<close>

definition ASSERT :: "bool \<Rightarrow> 'a result \<Rightarrow> 'a result" where
  "ASSERT b r = (if b then r else Inl AssertionFailed)"

text \<open>
  A computation that may also fail to return: \<^const>\<open>None\<close> stands for a loop that runs forever.
  Loops that wait for their input to change are defined by \<^theory_text>\<open>partial_function\<close> over this type.
\<close>

type_synonym 'a comp = "'a result option"

definition cbind :: "'a comp \<Rightarrow> ('a \<Rightarrow> 'b comp) \<Rightarrow> 'b comp" where
  "cbind c f = Option.bind c (\<lambda>r. case r of Inl e \<Rightarrow> Some (Inl e) | Inr x \<Rightarrow> f x)"

section \<open>Memory\<close>

text \<open>
  \<^verbatim>\<open>memcpy\<close> into a block at an offset, and \<^verbatim>\<open>round\<close> of \<^verbatim>\<open>src/eckit/maths/Functions.cc\<close>, by which buffers grow.
\<close>

definition memcpy :: "'a list \<Rightarrow> nat \<Rightarrow> 'a list \<Rightarrow> nat \<Rightarrow> 'a list" where
  "memcpy dst off src n = take off dst @ take n src @ drop (off + n) dst"

definition round_to :: "nat \<Rightarrow> nat \<Rightarrow> nat" where
  "round_to x n = (x + n - 1) div n * n"

section \<open>Text\<close>

definition isspace :: "char \<Rightarrow> bool" where
  "isspace c \<longleftrightarrow> c \<in> {CHR '' '', CHR 0x09, CHR 0x0A, CHR 0x0B, CHR 0x0C, CHR 0x0D}"

definition isdigit :: "char \<Rightarrow> bool" where
  "isdigit c \<longleftrightarrow> (48 :: nat) \<le> of_char c \<and> of_char c \<le> (57 :: nat)"

definition digit_value :: "char \<Rightarrow> int" where
  "digit_value c = int (of_char c) - 48"

fun atol_digits :: "int \<Rightarrow> string \<Rightarrow> int" where
  "atol_digits acc [] = acc"
| "atol_digits acc (c # cs) =
     (if isdigit c then atol_digits (10 * acc + digit_value c) cs else acc)"

text \<open>\<^verbatim>\<open>atol\<close>: leading white space, an optional sign, then digits up to the first other character.\<close>

definition atol :: "string \<Rightarrow> int" where
  "atol s =
     (case dropWhile isspace s of
        [] \<Rightarrow> 0
      | c # cs \<Rightarrow>
          if c = CHR ''-'' then - atol_digits 0 cs
          else if c = CHR ''+'' then atol_digits 0 cs
          else atol_digits 0 (c # cs))"

text \<open>
  \<^verbatim>\<open>std::stol\<close> reads the same prefix as \<^verbatim>\<open>atol\<close>, but throws when there is no digit to read or the number
  does not fit a \<^verbatim>\<open>long\<close>.
\<close>

definition stol :: "string \<Rightarrow> int result" where
  "stol s =
     (let body = dropWhile isspace s;
          digits = (case body of c # cs \<Rightarrow> if c = CHR ''-'' \<or> c = CHR ''+'' then cs else body | [] \<Rightarrow> [])
      in if digits = [] \<or> \<not> isdigit (hd digits) then throw InvalidArgument
         else if atol s < - (2 ^ 63) \<or> atol s \<ge> 2 ^ 63 then throw StdOutOfRange
         else ok (atol s))"

text \<open>
  A signed 64 bit computation whose exact result leaves the range is undefined in C++.
\<close>

definition long_range :: "int \<Rightarrow> int result" where
  "long_range x = (if - (2 ^ 63) \<le> x \<and> x < 2 ^ 63 then ok x else throw OutOfBounds)"

definition digit_char :: "nat \<Rightarrow> char" where
  "digit_char n = char_of (48 + n)"

fun nat_to_string :: "nat \<Rightarrow> string" where
  "nat_to_string n =
     (if n < 10 then [digit_char n] else nat_to_string (n div 10) @ [digit_char (n mod 10)])"

declare nat_to_string.simps [simp del]

definition int_to_string :: "int \<Rightarrow> string" where
  "int_to_string i =
     (if i < 0 then CHR ''-'' # nat_to_string (nat (- i)) else nat_to_string (nat i))"

section \<open>Collections of the development\<close>

named_theorems result_simps \<open>unfolding of the result combinators\<close>

declare rbind_def [result_simps] ASSERT_def [result_simps]

section \<open>Results\<close>

lemma rbind_Inr [simp]: "rbind (Inr x) f = f x"
  by (simp add: rbind_def)

lemma rbind_Inl [simp]: "rbind (Inl e) f = Inl e"
  by (simp add: rbind_def)

lemma rbind_eq_Inr_iff: "rbind r f = Inr y \<longleftrightarrow> (\<exists>x. r = Inr x \<and> f x = Inr y)"
  by (cases r) auto

lemma rbind_InrE:
  assumes "rbind r f = Inr y"
  obtains x where "r = Inr x" and "f x = Inr y"
  using assms by (auto simp: rbind_eq_Inr_iff)

lemma ASSERT_True [simp]: "ASSERT True r = r"
  by (simp add: ASSERT_def)

lemma ASSERT_False [simp]: "ASSERT False r = Inl AssertionFailed"
  by (simp add: ASSERT_def)

lemma ASSERT_eq_Inr_iff: "ASSERT b r = Inr y \<longleftrightarrow> b \<and> r = Inr y"
  by (simp add: ASSERT_def)

lemma cbind_simps [simp]: "cbind (Some (Inr x)) f = f x" "cbind (Some (Inl e)) f = Some (Inl e)" "cbind None f = None"
  by (simp_all add: cbind_def)

lemma cbind_mono [partial_function_mono]:
  assumes "mono_option B" "\<And>y. mono_option (\<lambda>f. C y f)"
  shows "mono_option (\<lambda>f. cbind (B f) (\<lambda>y. C y f))"
  unfolding cbind_def
proof (rule bind_mono [OF assms(1)])
  fix r :: "'c result"
  show "mono_option (\<lambda>f. case r of Inl e \<Rightarrow> Some (Inl e) | Inr x \<Rightarrow> C x f)"
    using assms(2) by (cases r) (simp_all add: option.const_mono)
qed

section \<open>Comparison operators\<close>

text \<open>
  The contract of the comparison operators of a value class: on valid values, less-than and equality are
  those of a key in a linear order.
\<close>

locale keyed_order =
  fixes valid :: "'a \<Rightarrow> bool"
    and key :: "'a \<Rightarrow> 'k :: linorder"
    and less :: "'a \<Rightarrow> 'a \<Rightarrow> bool"
    and eq :: "'a \<Rightarrow> 'a \<Rightarrow> bool"
  assumes less_key: "valid a \<Longrightarrow> valid b \<Longrightarrow> less a b \<longleftrightarrow> key a < key b"
    and eq_key: "valid a \<Longrightarrow> valid b \<Longrightarrow> eq a b \<longleftrightarrow> key a = key b"
begin

lemma not_less_key: "valid a \<Longrightarrow> valid b \<Longrightarrow> \<not> less a b \<longleftrightarrow> key b \<le> key a"
  by (simp add: less_key not_less)

lemma less_trans_valid: "valid a \<Longrightarrow> valid b \<Longrightarrow> valid c \<Longrightarrow> less a b \<Longrightarrow> less b c \<Longrightarrow> less a c"
  by (auto simp: less_key)

lemma trichotomy: "valid a \<Longrightarrow> valid b \<Longrightarrow> less a b \<or> eq a b \<or> less b a"
  by (auto simp: less_key eq_key)

lemma sorted_key: "\<forall>x \<in> set xs. valid x \<Longrightarrow> sorted_wrt (\<lambda>a b. \<not> less b a) xs \<longleftrightarrow> sorted (map key xs)"
  by (induction xs) (auto simp: not_less_key)

end

section \<open>Maps and lists\<close>

lemma map_of_rev_distinct: "distinct (map fst xs) \<Longrightarrow> map_of (rev xs) = map_of xs"
proof
  fix k
  assume d: "distinct (map fst xs)"
  then have d': "distinct (map fst (rev xs))" by (simp add: rev_map [symmetric])
  show "map_of (rev xs) k = map_of xs k"
  proof (cases "map_of xs k")
    case None
    then have "map_of (rev xs) k = None" by (simp add: map_of_eq_None_iff)
    then show ?thesis using None by simp
  next
    case (Some v)
    then have "(k, v) \<in> set (rev xs)" by (simp add: map_of_SomeD)
    then show ?thesis using Some map_of_is_SomeI [OF d'] by simp
  qed
qed

section \<open>Memory blocks\<close>

lemma nth_memcpy:
  assumes "off + n \<le> length dst" "n \<le> length src"
  shows "length (memcpy dst off src n) = length dst"
    "i < length dst \<Longrightarrow> memcpy dst off src n ! i = (if off \<le> i \<and> i < off + n then src ! (i - off) else dst ! i)"
  using assms by (auto simp: memcpy_def nth_append)

lemma round_to_ge: "0 < n \<Longrightarrow> x \<le> round_to x n"
  using div_mult_mod_eq [of "x + n - 1" n] mod_less_divisor [of n "x + n - 1"] unfolding round_to_def by linarith

section \<open>Division\<close>

text \<open>C++ division truncates. On non-negative operands it agrees with \<open>div\<close> and \<open>mod\<close>.\<close>

lemma sdiv_nonneg [simp]: "0 \<le> a \<Longrightarrow> 0 \<le> b \<Longrightarrow> a sdiv b = a div b" for a b :: int
  by (cases "a = 0"; cases "b = 0") (auto simp: signed_divide_int_def)

lemma smod_nonneg [simp]: "0 \<le> a \<Longrightarrow> 0 \<le> b \<Longrightarrow> a smod b = a mod b" for a b :: int
  by (cases "a = 0") (auto simp: signed_modulo_int_def minus_div_mult_eq_mod)

lemma upt_split: "a \<le> b \<Longrightarrow> b \<le> c \<Longrightarrow> [a..<c] = [a..<b] @ [b..<c]"
  by (metis le_Suc_ex upt_add_eq_append)

lemma div_mod_unique:
  fixes x b q r :: int
  assumes "x = b * q + r" and "0 \<le> r" and "r < b"
  shows "x div b = q" and "x mod b = r"
  using assms by (auto simp: div_mult_self4 mod_pos_pos_trivial div_pos_pos_trivial)

section \<open>Decimal text\<close>

lemma isdigit_digit_char [simp]: "n < 10 \<Longrightarrow> isdigit (digit_char n)"
  by (simp add: isdigit_def digit_char_def)

lemma digit_value_digit_char [simp]: "n < 10 \<Longrightarrow> digit_value (digit_char n) = int n"
  by (simp add: digit_value_def digit_char_def)

lemma atol_digits_append:
  "(\<forall>c \<in> set xs. isdigit c) \<Longrightarrow> atol_digits acc (xs @ ys) = atol_digits (atol_digits acc xs) ys"
  by (induction xs arbitrary: acc) auto

lemma nat_to_string_digits: "c \<in> set (nat_to_string n) \<Longrightarrow> isdigit c"
proof (induction n rule: nat_to_string.induct)
  case (1 n)
  then show ?case
    by (subst (asm) (2) nat_to_string.simps) (auto split: if_splits)
qed

lemma nat_to_string_not_Nil [simp]: "nat_to_string n \<noteq> []"
  by (subst nat_to_string.simps) simp

lemma atol_digits_nat_to_string: "atol_digits 0 (nat_to_string n) = int n"
proof (induction n rule: nat_to_string.induct)
  case (1 n)
  show ?case
  proof (cases "n < 10")
    case True
    then show ?thesis by (subst nat_to_string.simps) simp
  next
    case False
    with "1.IH" have "atol_digits 0 (nat_to_string (n div 10)) = int (n div 10)" by simp
    then have "atol_digits 0 (nat_to_string n) = 10 * int (n div 10) + int (n mod 10)"
      using False by (subst nat_to_string.simps)
        (simp add: atol_digits_append nat_to_string_digits)
    then show ?thesis by presburger
  qed
qed

lemma isdigit_not_special:
  "isdigit c \<Longrightarrow> \<not> isspace c \<and> c \<noteq> CHR ''-'' \<and> c \<noteq> CHR ''+''"
  by (auto simp: isdigit_def isspace_def)

lemma atol_nat_to_string [simp]: "atol (nat_to_string n) = int n"
proof (cases "nat_to_string n")
  case (Cons c cs)
  then have "isdigit c" using nat_to_string_digits [of c n] by simp
  with Cons show ?thesis
    using atol_digits_nat_to_string [of n] isdigit_not_special [of c]
    by (simp add: atol_def)
qed simp

theorem atol_int_to_string [simp]: "atol (int_to_string i) = i"
  using atol_digits_nat_to_string [of "nat (- i)"]
  by (auto simp: int_to_string_def atol_def isspace_def atol_nat_to_string [unfolded atol_def])

end
