(* ===== verification/Eckit_RLE.thy ===== *)
theory Eckit_RLE
  imports Eckit_Prelude
begin

text \<open>
  Run-length and difference coding: \<^verbatim>\<open>src/eckit/utils/RLE.cc\<close>.

  The encoder works on iterators; a range is modelled by two positions in a memory \<^verbatim>\<open>mem\<close> that is defined
  beyond the end of the vector as well, because the matching loop dereferences \<^verbatim>\<open>other\<close>, which runs past
  \<^verbatim>\<open>last\<close>.  The steady clock is a function of the number of times it has been read, and that number is threaded
  through the recursion.  \<^verbatim>\<open>maxLoop\<close> and all values are unbounded integers.
\<close>

section \<open>Encoder\<close>

record rle_env =
  mem :: "nat \<Rightarrow> int"
  clock :: "nat \<Rightarrow> nat"
  deadline :: "nat option"
  maxLoop :: int

text \<open>\<^verbatim>\<open>deadline && EncodingClock::now() > deadline.value()\<close>, with the number of clock readings so far.\<close>

definition expired :: "rle_env \<Rightarrow> nat \<Rightarrow> bool \<times> nat" where
  "expired E t = (case deadline E of None \<Rightarrow> (False, t) | Some dl \<Rightarrow> (clock E t > dl, Suc t))"

text \<open>The loop \<^verbatim>\<open>while (from != last && *from == *other)\<close>; the last argument is the distance of \<^verbatim>\<open>from\<close> to \<^verbatim>\<open>last\<close>.\<close>

fun match_len :: "(nat \<Rightarrow> int) \<Rightarrow> nat \<Rightarrow> nat \<Rightarrow> nat \<Rightarrow> nat" where
  "match_len M pos other 0 = 0"
| "match_len M pos other (Suc togo) =
     (if M pos = M other then Suc (match_len M (Suc pos) (Suc other) togo) else 0)"

text \<open>The length, period and offset of the longest match found so far (\<^verbatim>\<open>m\<close>, \<^verbatim>\<open>x\<close> and \<^verbatim>\<open>j\<close>).\<close>

record rle_best =
  best_m :: nat
  best_x :: nat
  best_j :: nat

text \<open>The inner loop over \<^verbatim>\<open>i\<close>; the first component of the result tells whether it left by \<^verbatim>\<open>goto stop\<close>.\<close>

function scan_i ::
    "rle_env \<Rightarrow> nat option \<Rightarrow> nat \<Rightarrow> nat \<Rightarrow> int \<Rightarrow> nat \<Rightarrow> nat \<Rightarrow> rle_best \<Rightarrow> nat \<Rightarrow> bool \<times> rle_best \<times> nat" where
  "scan_i E md first fin enough n i b t =
     (if 0 < n \<and> i < (fin - first) - n then
        (let a = match_len (mem E) (first + i) (first + i + n) (fin - (first + i)) in
         if a > best_m b then
           (let b' = \<lparr>best_m = a, best_x = n, best_j = i\<rparr> in
            if int a > enough \<or> md = Some 0 then (True, b', t)
            else (let (late, t') = expired E t in
                  if late then (True, b', t')
                  else scan_i E md first fin enough n (i + n) b' t'))
         else scan_i E md first fin enough n (i + n) b t)
      else (False, b, t))"
  by pat_completeness auto
termination
  by (relation "measure (\<lambda>(E, md, first, fin, enough, n, i, b, t). (fin - first) - n - i)") auto

declare scan_i.simps [simp del]

function scan_n ::
    "rle_env \<Rightarrow> nat option \<Rightarrow> nat \<Rightarrow> nat \<Rightarrow> int \<Rightarrow> nat \<Rightarrow> rle_best \<Rightarrow> nat \<Rightarrow> rle_best \<times> nat" where
  "scan_n E md first fin enough n b t =
     (if n < (fin - first + 2) div 2 then
        (let (stopped, b', t') = scan_i E md first fin enough n 0 b t in
         if stopped then (b', t')
         else if md = Some 0 then (b', t')
         else (let (late, t'') = expired E t' in
               if late then (b', t'') else scan_n E md first fin enough (Suc n) b' t''))
      else (b, t))"
  by pat_completeness auto
termination
  by (relation "measure (\<lambda>(E, md, first, fin, enough, n, b, t). (fin - first + 2) div 2 - n)") auto

declare scan_n.simps [simp del]

text \<open>How many copies of the block of length \<^verbatim>\<open>x\<close> at \<^verbatim>\<open>pos\<close> follow each other from \<^verbatim>\<open>other\<close> on.\<close>

function count_reps :: "(nat \<Rightarrow> int) \<Rightarrow> nat \<Rightarrow> nat \<Rightarrow> nat \<Rightarrow> nat \<Rightarrow> nat" where
  "count_reps M pos x other fin =
     (if 0 < x \<and> other + x \<le> fin \<and> list_all (\<lambda>d. M (pos + d) = M (other + d)) [0..<x]
      then Suc (count_reps M pos x (other + x) fin) else 0)"
  by pat_completeness auto
termination
  by (relation "measure (\<lambda>(M, pos, x, other, fin). fin - other)") auto

declare count_reps.simps [simp del]

definition best_ok :: "nat \<Rightarrow> rle_best \<Rightarrow> bool" where
  "best_ok sz b \<longleftrightarrow> best_m b > 0 \<longrightarrow> 0 < best_x b \<and> best_x b < (sz + 2) div 2 \<and> best_j b + best_x b < sz"

lemma scan_i_ok:
  "scan_i E md first fin enough n i b t = (s, b', t') \<Longrightarrow> best_ok (fin - first) b \<Longrightarrow>
   n < (fin - first + 2) div 2 \<Longrightarrow> best_ok (fin - first) b'"
proof (induction E md first fin enough n i b t arbitrary: s b' t' rule: scan_i.induct)
  case (1 E md first fin enough n i b t)
  let ?a = "match_len (mem E) (first + i) (first + i + n) (fin - (first + i))"
  show ?case
  proof (cases "0 < n \<and> i < fin - first - n")
    case False
    with 1 show ?thesis by (subst (asm) scan_i.simps) auto
  next
    case True
    show ?thesis
    proof (cases "?a > best_m b")
      case True': True
      let ?b = "\<lparr>best_m = ?a, best_x = n, best_j = i\<rparr>"
      have ok: "best_ok (fin - first) ?b" using True 1(5) by (auto simp: best_ok_def)
      show ?thesis
        using 1(3) 1(1)[OF True refl True' refl] ok True True' 1(5)
        by (subst (asm) scan_i.simps) (auto simp: Let_def split: if_splits prod.splits)
    next
      case False
      then show ?thesis
        using 1(3) 1(2)[OF True refl False] True  1(4,5)
        by (subst (asm) scan_i.simps) (auto simp: Let_def split: if_splits prod.splits)
    qed
  qed
qed



lemma scan_n_ok:
  "scan_n E md first fin enough n b t = (b', t') \<Longrightarrow> best_ok (fin - first) b \<Longrightarrow> best_ok (fin - first) b'"
proof (induction E md first fin enough n b t arbitrary: b' t' rule: scan_n.induct)
  case (1 E md first fin enough n b t)
  obtain s b1 t1 where i: "scan_i E md first fin enough n 0 b t = (s, b1, t1)" by (metis prod_cases3)
  obtain l t2 where e: "expired E t1 = (l, t2)" by fastforce
  show ?case
  proof (cases "n < (fin - first + 2) div 2")
    case True
    then have ok: "best_ok (fin - first) b1" using scan_i_ok [OF i 1(3)] by simp
    show ?thesis
      using 1(2) ok True 1(1)[OF True refl i [symmetric] refl _ _ refl e [symmetric]]
      by (subst (asm) scan_n.simps) (auto simp: i e Let_def split: if_splits)
  next
    case False
    with 1 show ?thesis by (subst (asm) scan_n.simps) auto
  qed
qed

definition scan :: "rle_env \<Rightarrow> nat option \<Rightarrow> nat \<Rightarrow> nat \<Rightarrow> nat \<Rightarrow> rle_best \<times> nat" where
  "scan E md first fin t =
     (let size2 = (fin - first + 2) div 2; enough = min (int size2) (maxLoop E)
      in scan_n E md first fin enough 1 \<lparr>best_m = 0, best_x = 0, best_j = 0\<rparr> t)"

lemma scan_ok: "scan E md first fin t = (b, t') \<Longrightarrow> best_ok (fin - first) b"
  using scan_n_ok [of E md first fin _ 1 "\<lparr>best_m = 0, best_x = 0, best_j = 0\<rparr>" t b t']
  by (simp add: scan_def best_ok_def)

lemma scan_fst_ok:
  assumes "(b, t') = scan E md first fin t" "best_m b \<noteq> 0"
  shows "0 < best_x b" "best_j b + best_x b < fin - first"
  using scan_ok [OF assms(1) [symmetric]] assms(2) by (auto simp: best_ok_def)

lemma count_reps_bound:
  "other \<le> fin \<Longrightarrow> other + count_reps M pos x other fin * x \<le> fin"
proof (induction M pos x other fin rule: count_reps.induct)
  case (1 M pos x other fin)
  then show ?case by (subst count_reps.simps) (auto simp: algebra_simps)
qed

lemma count_reps_pos: "0 < x \<Longrightarrow> pos + x \<le> fin \<Longrightarrow> 0 < count_reps M pos x pos fin"
  by (subst count_reps.simps) (simp add: list_all_iff)

lemma diff_less_reps: "first < fin \<Longrightarrow> 0 < x \<Longrightarrow> 0 < k \<Longrightarrow> fin - (first + j + k * x) < fin - (first :: nat)"
  by (metis add_gr_0 diff_less_mono2 group_cancel.add1 less_add_same_cancel1 nat_0_less_mult_iff)

text \<open>
  The recursion itself: the values written, the count returned and the number of clock readings.  The block is encoded
  twice, first into a \<^verbatim>\<open>dummy_iterator\<close> for its length and then for real.
\<close>

function RLEencode2timeout :: "rle_env \<Rightarrow> nat option \<Rightarrow> nat \<Rightarrow> nat \<Rightarrow> nat \<Rightarrow> int list \<times> nat \<times> nat" where
  "RLEencode2timeout E md first fin t =
     (if fin \<le> first then ([], 0, t)
      else
        (let (b, t0) = scan E md first fin t in
         if best_m b = 0 \<or> md = Some 0 then (map (mem E) [first..<fin], fin - first, t0)
         else
           (let x = best_x b;
                pos = first + best_j b;
                k = count_reps (mem E) pos x pos fin;
                md' = map_option (\<lambda>d. d - 1) md;
                (out1, n1, t1) = RLEencode2timeout E md' first pos t0;
                (marks, t2) =
                  (if k > 1 then
                     (let (_, m, t') = RLEencode2timeout E md' pos (pos + x) t1
                      in (if m > 1 then [- int k, - int m] else [- int k], t'))
                   else ([], t1));
                (out2, n2, t3) = RLEencode2timeout E md' pos (pos + x) t2;
                (out3, n3, t4) = RLEencode2timeout E md' (pos + k * x) fin t3
            in (out1 @ marks @ out2 @ out3, n1 + length marks + n2 + n3, t4))))"
  by pat_completeness auto
termination
proof (relation "measure (\<lambda>(E, md, first, fin, t). fin - first)", goal_cases)
  case 1
  then show ?case by simp
next
  case (2 E md first fin t xp b y)
  then show ?case using scan_fst_ok [of b y E md first fin t] by auto
next
  case (3 E md first fin t xp b y)
  then show ?case using scan_fst_ok [of b y E md first fin t] by auto
next
  case (4 E md first fin t xp b y)
  then show ?case using scan_fst_ok [of b y E md first fin t] by auto
next
  case (5 E md first fin t xp b y)
  then have "0 < best_x b" "0 < count_reps (mem E) (first + best_j b) (best_x b) (first + best_j b) fin"
    using scan_fst_ok [of b y E md first fin t] by (auto intro!: count_reps_pos)
  with 5 show ?case using diff_less_reps by simp
qed
declare RLEencode2timeout.simps [simp del]

text \<open>The cells of a vector, followed by whatever the memory beyond its end holds.\<close>

definition vector_mem :: "int list \<Rightarrow> (nat \<Rightarrow> int) \<Rightarrow> nat \<Rightarrow> int" where
  "vector_mem xs beyond i = (if i < length xs then xs ! i else beyond i)"

definition RLEencode2 :: "int list \<Rightarrow> (nat \<Rightarrow> int) \<Rightarrow> int \<Rightarrow> int list \<times> nat" where
  "RLEencode2 xs beyond loops =
     (let (out, n, _) = RLEencode2timeout
            \<lparr>mem = vector_mem xs beyond, clock = (\<lambda>_. 0), deadline = None, maxLoop = loops\<rparr>
            None 0 (length xs) 0
      in (out, n))"

definition RLEencode2_timed ::
    "int list \<Rightarrow> (nat \<Rightarrow> int) \<Rightarrow> int \<Rightarrow> (nat \<Rightarrow> nat) \<Rightarrow> nat \<Rightarrow> nat \<Rightarrow> int list \<times> nat" where
  "RLEencode2_timed xs beyond loops now timelimit maxDepth =
     (let (out, n, _) = RLEencode2timeout
            \<lparr>mem = vector_mem xs beyond, clock = now, deadline = Some (now 0 + timelimit), maxLoop = loops\<rparr>
            (Some maxDepth) 0 (length xs) 1
      in (out, n))"

section \<open>Decoder and printer\<close>

text \<open>Reading at or beyond the end of the range that is being decoded is the error \<^const>\<open>OutOfBounds\<close>.\<close>

function (sequential) RLEdecode2 :: "int list \<Rightarrow> int list result" where
  "RLEdecode2 [] = ok []"
| "RLEdecode2 [v] = (if v < 0 then throw OutOfBounds else ok [v])"
| "RLEdecode2 (v # w # vs) =
     (if v < 0 then
        if w < 0 then
          (let len = nat (- w) in
           if length vs < len then throw OutOfBounds
           else rbind (RLEdecode2 (take len vs)) (\<lambda>d.
                rbind (RLEdecode2 (drop len vs)) (\<lambda>r.
                ok (concat (replicate (nat (- v)) d) @ r))))
        else rbind (RLEdecode2 vs) (\<lambda>r. ok (replicate (nat (- v)) w @ r))
      else rbind (RLEdecode2 (w # vs)) (\<lambda>r. ok (v # r)))"
  by pat_completeness auto
termination by (relation "measure length") auto

function (sequential) RLEprint :: "int list \<Rightarrow> string result" where
  "RLEprint [] = ok []"
| "RLEprint [v] = (if v < 0 then throw OutOfBounds else ok (int_to_string v))"
| "RLEprint (v # w # vs) =
     (if v < 0 then
        if w < 0 then
          (let len = nat (- w) in
           if length vs < len then throw OutOfBounds
           else rbind (RLEprint (take len vs)) (\<lambda>d.
                rbind (RLEprint (drop len vs)) (\<lambda>r.
                ok (int_to_string (- v) @ ''*('' @ d @ '')'' @ (if drop len vs \<noteq> [] then '','' else []) @ r))))
        else rbind (RLEprint vs) (\<lambda>r.
             ok (int_to_string (- v) @ ''*'' @ int_to_string w @ (if vs \<noteq> [] then '','' else []) @ r))
      else rbind (RLEprint (w # vs)) (\<lambda>r. ok (int_to_string v @ '','' @ r)))"
  by pat_completeness auto
termination by (relation "measure length") auto

section \<open>Differences\<close>

fun DIFFencode_loop :: "int \<Rightarrow> int list \<Rightarrow> bool \<times> int list" where
  "DIFFencode_loop prev [] = (True, [])"
| "DIFFencode_loop prev (x # xs) =
     (if x < prev then (False, [])
      else (let (b, ds) = DIFFencode_loop x xs in (b, (x - prev) # ds)))"

fun DIFFencode :: "int list \<Rightarrow> bool \<times> int list" where
  "DIFFencode [] = (True, [])"
| "DIFFencode (x # xs) = (let (b, ds) = DIFFencode_loop x xs in (b, x # ds))"

fun DIFFdecode_loop :: "int \<Rightarrow> int list \<Rightarrow> int list" where
  "DIFFdecode_loop value [] = []"
| "DIFFdecode_loop value (d # ds) = (let value' = d + value in value' # DIFFdecode_loop value' ds)"

fun DIFFdecode :: "int list \<Rightarrow> int list" where
  "DIFFdecode [] = []"
| "DIFFdecode (d # ds) = d # DIFFdecode_loop d ds"

section \<open>Stream operations\<close>

text \<open>The stream is the sequence of values put on it: a boolean or a whole vector per \<^verbatim>\<open>operator<<\<close>.\<close>

datatype rle_item = Bool bool | Vector "int list"

definition RLEwrite :: "rle_item list \<Rightarrow> int list \<Rightarrow> (nat \<Rightarrow> int) \<Rightarrow> int \<Rightarrow> rle_item list" where
  "RLEwrite s xs beyond loops = (let (tmp, _) = RLEencode2 xs beyond loops in s @ [Vector tmp])"

fun RLEread :: "rle_item list \<Rightarrow> (rle_item list \<times> int list) result" where
  "RLEread (Vector tmp # s) = rbind (RLEdecode2 tmp) (\<lambda>r. ok (s, r))"
| "RLEread _ = throw ReadError"

definition RLEDIFFwrite :: "rle_item list \<Rightarrow> int list \<Rightarrow> (nat \<Rightarrow> int) \<Rightarrow> int \<Rightarrow> rle_item list" where
  "RLEDIFFwrite s xs beyond loops =
     (let (diff, tmp) = DIFFencode xs; s' = s @ [Bool diff] in
      if \<not> diff then s' @ [Vector xs] else RLEwrite s' tmp beyond loops)"

fun RLEDIFFread :: "rle_item list \<Rightarrow> (rle_item list \<times> int list) result" where
  "RLEDIFFread (Bool diff # s) =
     (if diff then rbind (RLEread s) (\<lambda>(s', tmp). ok (s', DIFFdecode tmp))
      else (case s of Vector tmp # s' \<Rightarrow> ok (s', tmp) | _ \<Rightarrow> throw ReadError))"
| "RLEDIFFread _ = throw ReadError"

section \<open>Decoding undoes encoding\<close>

lemma RLEdecode2_cons [simp]: "0 \<le> v \<Longrightarrow> RLEdecode2 (v # vs) = rbind (RLEdecode2 vs) (\<lambda>r. ok (v # r))"
  by (cases vs) simp_all

lemma RLEdecode2_append:
  "RLEdecode2 a = ok x \<Longrightarrow> RLEdecode2 (a @ b) = rbind (RLEdecode2 b) (\<lambda>y. ok (x @ y))"
proof (induction a arbitrary: x rule: RLEdecode2.induct)
  case 1
  then show ?case by (cases "RLEdecode2 b") auto
next
  case (2 v)
  then show ?case by (cases "RLEdecode2 b") (auto split: if_splits)
next
  case (3 v w vs)
  then show ?case
    by (auto simp: Let_def rbind_eq_Inr_iff split: if_splits) (cases "RLEdecode2 b"; simp)+
qed

lemma RLEdecode2_marked:
  assumes "RLEdecode2 out2 = ok block" "RLEdecode2 out3 = ok r" "0 < k"
    and "marks = (if k > 1 then if length out2 > 1 then [- int k, - int (length out2)] else [- int k] else [])"
    and "out2 \<noteq> []"
  shows "RLEdecode2 (marks @ out2 @ out3) = ok (concat (replicate k block) @ r)"
proof (cases "k = 1")
  case True
  then show ?thesis using assms RLEdecode2_append [OF assms(1), of out3] by simp
next
  case k: False
  show ?thesis
  proof (cases "length out2 > 1")
    case True
    then have "out2 \<noteq> []" by auto
    then show ?thesis using assms k True by (simp add: Let_def)
  next
    case False
    with assms(5) obtain v where "out2 = [v]" by (cases out2) auto
    with assms(1) have v: "out2 = [v]" "0 \<le> v" "block = [v]" by (auto split: if_splits)
    have "concat (replicate k [v]) = replicate k v" by (induction k) auto
    then show ?thesis using assms k v by simp
  qed
qed

lemma RLEdecode2_nonneg: "(\<forall>v \<in> set vs. 0 \<le> v) \<Longrightarrow> RLEdecode2 vs = ok vs"
  by (induction vs) auto

lemma count_reps_concat:
  "map M [other..<other + count_reps M pos x other fin * x] =
   concat (replicate (count_reps M pos x other fin) (map M [pos..<pos + x]))"
proof (induction M pos x other fin rule: count_reps.induct)
  case (1 M pos x other fin)
  show ?case
  proof (cases "0 < x \<and> other + x \<le> fin \<and> list_all (\<lambda>d. M (pos + d) = M (other + d)) [0..<x]")
    case True
    let ?k = "count_reps M pos x (other + x) fin"
    have k: "count_reps M pos x other fin = Suc ?k" using True by (subst count_reps.simps) (simp add: list_all_iff)
    have "map M [pos..<pos + x] = map M [other..<other + x]"
      using True by (auto simp: list_all_iff intro: nth_equalityI)
    moreover have "[other..<other + Suc ?k * x] = [other..<other + x] @ [other + x..<other + x + ?k * x]"
      by (metis add.assoc le_add1 mult_Suc upt_add_eq_append)
    ultimately show ?thesis using 1 [OF True] by (simp add: k)
  next
    case False
    then have "count_reps M pos x other fin = 0" by (subst count_reps.simps) auto
    then show ?thesis by simp
  qed
qed

section \<open>Deadlines that are not reached\<close>

text \<open>The environment of an encoder without a deadline, and the environments whose clock never passes it.\<close>

abbreviation untimed :: "rle_env \<Rightarrow> rle_env" where
  "untimed E \<equiv> E\<lparr>deadline := None\<rparr>"

definition punctual :: "rle_env \<Rightarrow> bool" where
  "punctual E \<longleftrightarrow> (\<forall>t. \<not> fst (expired E t))"

lemma punctual_expired: "punctual E \<Longrightarrow> expired E t = (l, t') \<Longrightarrow> \<not> l"
  by (metis fst_conv punctual_def)

lemma expired_untimed [simp]: "expired (untimed E) t = (False, t)"
  by (simp add: expired_def)

lemma scan_i_untimed:
  "punctual E \<Longrightarrow> scan_i E md first fin enough n i b t = (s, b', t') \<Longrightarrow>
   scan_i (untimed E) md first fin enough n i b u = (s, b', u)"
proof (induction E md first fin enough n i b t arbitrary: s b' t' rule: scan_i.induct)
  case (1 E md first fin enough n i b t)
  from 1(4) show ?case
    using 1(1,2,3) punctual_expired [OF 1(3)]
    by (subst scan_i.simps, subst (asm) scan_i.simps) (auto simp: Let_def split: if_splits prod.splits)
qed

lemma scan_n_untimed:
  "punctual E \<Longrightarrow> scan_n E md first fin enough n b t = (b', t') \<Longrightarrow>
   scan_n (untimed E) md first fin enough n b u = (b', u)"
proof (induction E md first fin enough n b t arbitrary: b' t' rule: scan_n.induct)
  case (1 E md first fin enough n b t)
  obtain s b1 t1 where i: "scan_i E md first fin enough n 0 b t = (s, b1, t1)" by (metis prod_cases3)
  note i' = scan_i_untimed [OF 1(2) i, of u]
  obtain t2 where e: "expired E t1 = (False, t2)" using punctual_expired [OF 1(2)] by (metis surj_pair)
  from 1(3) show ?case
    using 1(1) [OF _ refl i [symmetric] refl _ _ refl e [symmetric] _ 1(2)]
    by (subst scan_n.simps, subst (asm) scan_n.simps) (auto simp: i i' e Let_def split: if_splits)
qed

lemma scan_untimed:
  "punctual E \<Longrightarrow> scan E md first fin t = (b, t') \<Longrightarrow> scan (untimed E) md first fin u = (b, u)"
  by (auto simp: scan_def Let_def intro: scan_n_untimed)

section \<open>One round of the encoder\<close>

lemma RLEencode2timeout_repI:
  assumes "first < fin" "scan E md first fin t = (b, t0)" "best_m b \<noteq> 0" "md \<noteq> Some 0"
    and "x = best_x b" "pos = first + best_j b" "k = count_reps (mem E) pos x pos fin" "md' = map_option (\<lambda>d. d - 1) md"
    and "RLEencode2timeout E md' first pos t0 = (out1, n1, t1)"
    and "RLEencode2timeout E md' pos (pos + x) t1 = (outd, m, td)"
    and "marks = (if k > 1 then if m > 1 then [- int k, - int m] else [- int k] else [])"
    and "t2 = (if k > 1 then td else t1)"
    and "RLEencode2timeout E md' pos (pos + x) t2 = (out2, n2, t3)"
    and "RLEencode2timeout E md' (pos + k * x) fin t3 = (out3, n3, t4)"
  shows "RLEencode2timeout E md first fin t = (out1 @ marks @ out2 @ out3, n1 + length marks + n2 + n3, t4)"
  using assms(1,3,4,13,14)
  by (subst RLEencode2timeout.simps, cases "1 < k")
    (simp_all add: assms(2,9-12) assms(5-8) [symmetric, simplified] Let_def)

lemma RLEencode2timeout_cases:
  assumes "RLEencode2timeout E md first fin t = (out, n, t')" "first < fin"
  obtains (raw) b where "scan E md first fin t = (b, t')" "best_m b = 0 \<or> md = Some 0"
      "out = map (mem E) [first..<fin]" "n = fin - first"
  | (rep) b t0 x pos k md' out1 n1 t1 outd m td marks t2 out2 n2 t3 out3 n3 where
      "scan E md first fin t = (b, t0)"
      "0 < x" "first \<le> pos" "pos + x < fin" "k = count_reps (mem E) pos x pos fin" "0 < k" "pos + k * x \<le> fin"
      "RLEencode2timeout E md' first pos t0 = (out1, n1, t1)"
      "RLEencode2timeout E md' pos (pos + x) t1 = (outd, m, td)"
      "marks = (if k > 1 then if m > 1 then [- int k, - int m] else [- int k] else [])"
      "t2 = (if k > 1 then td else t1)"
      "RLEencode2timeout E md' pos (pos + x) t2 = (out2, n2, t3)"
      "RLEencode2timeout E md' (pos + k * x) fin t3 = (out3, n3, t')"
      "out = out1 @ marks @ out2 @ out3" "n = n1 + length marks + n2 + n3"
      "best_m b \<noteq> 0" "md \<noteq> Some 0" "x = best_x b" "pos = first + best_j b" "md' = map_option (\<lambda>d. d - 1) md"
proof -
  obtain b t0 where s: "scan E md first fin t = (b, t0)" by fastforce
  show ?thesis
  proof (cases "best_m b = 0 \<or> md = Some 0")
    case True
    then show ?thesis using assms s by (subst (asm) RLEencode2timeout.simps) (auto intro: raw)
  next
    case False
    define x where "x = best_x b"
    define pos where "pos = first + best_j b"
    define k where "k = count_reps (mem E) pos x pos fin"
    define md' where "md' = map_option (\<lambda>d. d - 1) md"
    obtain out1 n1 t1 where e1: "RLEencode2timeout E md' first pos t0 = (out1, n1, t1)" by (metis prod_cases3)
    obtain outd m td where ed: "RLEencode2timeout E md' pos (pos + x) t1 = (outd, m, td)" by (metis prod_cases3)
    define marks where "marks = (if k > 1 then if m > 1 then [- int k, - int m] else [- int k] else [])"
    define t2 where "t2 = (if k > 1 then td else t1)"
    obtain out2 n2 t3 where e2: "RLEencode2timeout E md' pos (pos + x) t2 = (out2, n2, t3)" by (metis prod_cases3)
    obtain out3 n3 t4 where e3: "RLEencode2timeout E md' (pos + k * x) fin t3 = (out3, n3, t4)" by (metis prod_cases3)
    have x: "0 < x" "first \<le> pos" "pos + x < fin"
      using scan_fst_ok [OF s [symmetric]] False by (auto simp: x_def pos_def)
    have k: "0 < k" "pos + k * x \<le> fin"
      using x count_reps_pos [of x pos fin "mem E"] count_reps_bound [of pos fin "mem E" pos x] by (auto simp: k_def)
    have b: "best_m b \<noteq> 0" "md \<noteq> Some 0" using False by auto
    have "RLEencode2timeout E md first fin t = (out1 @ marks @ out2 @ out3, n1 + length marks + n2 + n3, t4)"
      by (rule RLEencode2timeout_repI [OF assms(2) s b x_def pos_def k_def md'_def e1 ed marks_def t2_def e2 e3])
    with assms(1) e3 show ?thesis
      by (intro rep [OF s x k_def k e1 ed marks_def t2_def e2 _ _ _ b x_def pos_def md'_def]) auto
  qed
qed

lemma RLEencode2timeout_count:
  "RLEencode2timeout E md first fin t = (out, n, t') \<Longrightarrow> n = length out"
proof (induction "fin - first" arbitrary: md first fin t out n t' rule: less_induct)
  case less
  show ?case
  proof (cases "first < fin")
    case True
    from less(2) True show ?thesis
    proof (cases rule: RLEencode2timeout_cases)
      case (rep b t0 x pos k md' out1 n1 t1 outd m td marks t2 out2 n2 t3 out3 n3)
      have "n1 = length out1" using rep(8) by (rule less(1) [rotated]) (use rep in auto)
      moreover have "n2 = length out2" using rep(12) by (rule less(1) [rotated]) (use rep in auto)
      moreover have "n3 = length out3" using rep(13) 
        by (rule less(1) [rotated]) (use rep True diff_less_reps [of first fin x k "pos - first"] in simp)
      ultimately show ?thesis using rep by simp
    qed simp
  next
    case False
    then show ?thesis using less(2) by (subst (asm) RLEencode2timeout.simps) simp
  qed
qed

lemma RLEencode2timeout_untimed:
  "punctual E \<Longrightarrow> RLEencode2timeout E md first fin t = (out, n, t') \<Longrightarrow>
   RLEencode2timeout (untimed E) md first fin u = (out, n, u)"
proof (induction "fin - first" arbitrary: md first fin t out n t' rule: less_induct)
  case less
  show ?case
  proof (cases "first < fin")
    case True
    from less(3) True show ?thesis
    proof (cases rule: RLEencode2timeout_cases)
      case (raw b)
      then show ?thesis using scan_untimed [OF less(2) raw(1), of u] True
        by (subst RLEencode2timeout.simps) auto
    next
      case (rep b t0 x pos k md' out1 n1 t1 outd m td marks t2 out2 n2 t3 out3 n3)
      have lt: "pos - first < fin - first" "pos + x - pos < fin - first"
        "fin - (pos + k * x) < fin - first"
        using rep True diff_less_reps [of first fin x k "pos - first"] by auto
      note IH = less(1) [OF _ less(2)]
      have "k = count_reps (mem (untimed E)) pos x pos fin" "u = (if k > 1 then u else u)" using rep(5) by simp_all
      then show ?thesis unfolding rep(14,15)
        by (rule RLEencode2timeout_repI [OF True scan_untimed [OF less(2) rep(1)] rep(16-19) _ rep(20)
              IH [OF lt(1) rep(8)] IH [OF lt(2) rep(9)] rep(10) _ IH [OF lt(2) rep(12)] IH [OF lt(3) rep(13)]])
    qed
  next
    case False
    then show ?thesis using less(3) by (subst RLEencode2timeout.simps, subst (asm) RLEencode2timeout.simps) simp
  qed
qed

lemma RLEencode2timeout_indep:
  assumes "punctual E" "RLEencode2timeout E md first fin t = (out, n, t')"
    "RLEencode2timeout E md first fin u = (out2, n2, u')"
  shows "n = n2"
  using RLEencode2timeout_untimed [OF assms(1,2), of 0] RLEencode2timeout_untimed [OF assms(1,3), of 0] by simp

lemma RLEencode2timeout_min_length:
  "RLEencode2timeout E md first fin t = (out, n, t') \<Longrightarrow>
   (first < fin \<longrightarrow> out \<noteq> []) \<and> (Suc first < fin \<longrightarrow> 1 < length out)"
proof (induction "fin - first" arbitrary: md first fin t out n t' rule: less_induct)
  case less
  show ?case
  proof (cases "first < fin")
    case True
    from less(2) True show ?thesis
    proof (cases rule: RLEencode2timeout_cases)
      case (rep b t0 x pos k md' out1 n1 t1 outd m td marks t2 out2 n2 t3 out3 n3)
      have lt: "pos + x - pos < fin - first" "fin - (pos + k * x) < fin - first"
        using rep True diff_less_reps [of first fin x k "pos - first"] by auto
      have o2: "out2 \<noteq> []" using less(1) [OF lt(1) rep(12)] rep(2) by simp
      moreover have "marks \<noteq> [] \<or> out3 \<noteq> []"
      proof (cases "k > 1")
        case True
        then show ?thesis using rep(10) by simp
      next
        case False
        then have "k = 1" using rep(6) by simp
        then show ?thesis using less(1) [OF lt(2) rep(13)] rep(4) by simp
      qed
      ultimately show ?thesis using rep(14)
        by (cases marks; cases out2; cases out3) auto
    qed auto
  next
    case False
    then show ?thesis by simp
  qed
qed


lemma RLEencode2timeout_decodes:
  "punctual E \<Longrightarrow> (\<forall>i \<in> {first..<fin}. 0 \<le> mem E i) \<Longrightarrow>
   RLEencode2timeout E md first fin t = (out, n, t') \<Longrightarrow>
   RLEdecode2 out = ok (map (mem E) [first..<fin])"
proof (induction "fin - first" arbitrary: md first fin t out n t' rule: less_induct)
  case less
  show ?case
  proof (cases "first < fin")
    case True
    from less(4) True show ?thesis
    proof (cases rule: RLEencode2timeout_cases)
      case (raw b)
      then show ?thesis using less(3) by (simp add: RLEdecode2_nonneg)
    next
      case (rep b t0 x pos k md' out1 n1 t1 outd m td marks t2 out2 n2 t3 out3 n3)
      let ?block = "map (mem E) [pos..<pos + x]"
      have lt: "pos - first < fin - first" "pos + x - pos < fin - first"
        "fin - (pos + k * x) < fin - first"
        using rep True diff_less_reps [of first fin x k "pos - first"] by auto
      have d1: "RLEdecode2 out1 = ok (map (mem E) [first..<pos])"
        by (rule less(1) [OF lt(1) less(2) _ rep(8)]) (use less(3) rep(2-4) in auto)
      have d2: "RLEdecode2 out2 = ok ?block"
        by (rule less(1) [OF lt(2) less(2) _ rep(12)]) (use less(3) rep(2-4) in auto)
      have d3: "RLEdecode2 out3 = ok (map (mem E) [pos + k * x..<fin])"
        by (rule less(1) [OF lt(3) less(2) _ rep(13)]) (use less(3) rep(2-4) in auto)
      have m: "m = length out2"
        using RLEencode2timeout_indep [OF less(2) rep(9,12)] RLEencode2timeout_count [OF rep(12)] by simp
      have reps: "map (mem E) [pos..<pos + k * x] = concat (replicate k ?block)"
        using count_reps_concat [of "mem E" pos pos x fin] rep(5) by simp
      have "RLEdecode2 (marks @ out2 @ out3) =
              ok (map (mem E) [pos..<pos + k * x] @ map (mem E) [pos + k * x..<fin])"
        unfolding reps by (rule RLEdecode2_marked [OF d2 d3 rep(6)])
           (use RLEencode2timeout_min_length [OF rep(12)] rep(2,10) m in simp_all)
      moreover have "[first..<fin] = [first..<pos] @ [pos..<pos + k * x] @ [pos + k * x..<fin]"
        using rep(3,7) by (metis le_add1 le_trans upt_split)
      ultimately show ?thesis using RLEdecode2_append [OF d1] rep(14) by simp
    qed
  next
    case False
    then show ?thesis using less(4) by (subst (asm) RLEencode2timeout.simps) simp
  qed
qed


lemma map_vector_mem [simp]: "map (vector_mem xs beyond) [0..<length xs] = xs"
  by (rule nth_equalityI) (auto simp: vector_mem_def)

lemma vector_mem_nonneg: "\<forall>v \<in> set xs. 0 \<le> v \<Longrightarrow> i < length xs \<Longrightarrow> 0 \<le> vector_mem xs beyond i"
  by (simp add: vector_mem_def)

lemma RLEencode2_decodes:
  assumes "\<forall>v \<in> set xs. 0 \<le> v" "RLEencode2 xs beyond l = (out, n)"
  shows "RLEdecode2 out = ok xs" "n = length out"
proof -
  let ?E = "\<lparr>mem = vector_mem xs beyond, clock = (\<lambda>_. 0), deadline = None, maxLoop = l\<rparr>"
  from assms(2) obtain t where e: "RLEencode2timeout ?E None 0 (length xs) 0 = (out, n, t)"
    by (auto simp: RLEencode2_def split: prod.splits)
  from RLEencode2timeout_decodes [OF _ _ e] RLEencode2timeout_count [OF e] assms(1)
  show "RLEdecode2 out = ok xs" "n = length out" by (auto simp: vector_mem_nonneg punctual_def expired_def)
qed

lemma DIFFencode_loop_sorted: "fst (DIFFencode_loop p xs) \<longleftrightarrow> sorted (p # xs)"
  by (induction p xs rule: DIFFencode_loop.induct) (auto simp: case_prod_beta)

lemma DIFFencode_loop_nonneg: "v \<in> set (snd (DIFFencode_loop p xs)) \<Longrightarrow> 0 \<le> v"
  by (induction p xs rule: DIFFencode_loop.induct) (auto split: prod.splits if_splits)

lemma DIFFdecode_loop_encode: "fst (DIFFencode_loop p xs) \<Longrightarrow> DIFFdecode_loop p (snd (DIFFencode_loop p xs)) = xs"
  by (induction p xs rule: DIFFencode_loop.induct) (auto simp: Let_def split: prod.splits if_splits)

lemma DIFFencode_sorted: "fst (DIFFencode xs) \<longleftrightarrow> sorted xs"
  by (cases xs) (simp_all add: case_prod_beta DIFFencode_loop_sorted)

lemma DIFFdecode_encode: "fst (DIFFencode xs) \<Longrightarrow> DIFFdecode (snd (DIFFencode xs)) = xs"
  by (cases xs) (simp_all add: case_prod_beta DIFFdecode_loop_encode)

lemma DIFFencode_nonneg:
  "xs = [] \<or> 0 \<le> hd xs \<Longrightarrow> \<forall>v \<in> set (snd (DIFFencode xs)). 0 \<le> v"
  by (cases xs) (auto simp: case_prod_beta dest: DIFFencode_loop_nonneg)

lemma RLEread_RLEwrite:
  "\<forall>v \<in> set xs. 0 \<le> v \<Longrightarrow> RLEread (RLEwrite [] xs beyond l @ s) = ok (s, xs)"
  using RLEencode2_decodes(1) [of xs beyond l] by (auto simp: RLEwrite_def split: prod.splits)

lemma RLEencode2_timed_decodes:
  assumes "\<forall>v \<in> set xs. 0 \<le> v" "\<forall>t. now t \<le> now 0 + limit"
    "RLEencode2_timed xs beyond l now limit depth = (out, n)"
  shows "RLEdecode2 out = ok xs" "n = length out"
proof -
  let ?E = "\<lparr>mem = vector_mem xs beyond, clock = now, deadline = Some (now 0 + limit), maxLoop = l\<rparr>"
  from assms(3) obtain t where e: "RLEencode2timeout ?E (Some depth) 0 (length xs) 1 = (out, n, t)"
    by (auto simp: RLEencode2_timed_def split: prod.splits)
  from RLEencode2timeout_decodes [OF _ _ e] RLEencode2timeout_count [OF e] assms(1,2)
  show "RLEdecode2 out = ok xs" "n = length out" by (auto simp: vector_mem_nonneg punctual_def expired_def not_less)
qed

section \<open>Properties\<close>

text \<open>
  C5. Run-length decoding undoes run-length encoding.  For every vector of non-negative values, every loop limit and
  every content of the memory beyond the end of the vector, the vector that RLEencode2 produces is accepted by
  RLEdecode2 and decodes to the input, and the count it returns is the number of values it wrote.
\<close>

theorem RLE_roundtrip:
  "\<forall>v \<in> set xs. 0 \<le> v \<Longrightarrow>
     (let (out, n) = RLEencode2 xs beyond loops in RLEdecode2 out = ok xs \<and> n = length out)"
  using RLEencode2_decodes by (auto split: prod.splits)

theorem RLE_roundtrip_witness:
  "RLEdecode2 (fst (RLEencode2 [7, 1, 2, 1, 2, 1, 2, 9, 9] (\<lambda>_. 9) 100)) = ok [7, 1, 2, 1, 2, 1, 2, 9, 9]"
  using RLE_roundtrip [of "[7, 1, 2, 1, 2, 1, 2, 9, 9]" "\<lambda>_. 9" 100] by (simp add: case_prod_beta)

text \<open>
  The timed variant with a time limit and a maximal depth still produces a decodable encoding of its input,
  whatever the depth, as long as no reading of the clock is later than the deadline.
\<close>

theorem RLE_timed_roundtrip_before_deadline:
  "\<lbrakk>\<forall>v \<in> set xs. 0 \<le> v; \<forall>t. now t \<le> now 0 + timelimit\<rbrakk> \<Longrightarrow>
     (let (out, n) = RLEencode2_timed xs beyond loops now timelimit maxDepth
      in RLEdecode2 out = ok xs \<and> n = length out)"
  using RLEencode2_timed_decodes by (auto split: prod.splits)

theorem RLE_timed_roundtrip_before_deadline_witness:
  "RLEdecode2 (fst (RLEencode2_timed [5, 5, 5, 6] (\<lambda>_. 0) 100 (\<lambda>t. min t 3) 3 1)) = ok [5, 5, 5, 6]"
  using RLE_timed_roundtrip_before_deadline [of "[5, 5, 5, 6]" "\<lambda>t. min t 3" 3 "\<lambda>_. 0" 100 1]
  by (simp add: case_prod_beta)


text \<open>
  Writing a vector with RLEDIFFwrite and reading it back with RLEDIFFread yields the vector and leaves the rest of
  the stream: for vectors that are not sorted (stored verbatim) and for sorted ones whose first value is not negative
  (stored as run-length coded differences).
\<close>

theorem RLEDIFF_stream_roundtrip:
  "(sorted xs \<longrightarrow> xs = [] \<or> 0 \<le> hd xs) \<Longrightarrow>
     RLEDIFFread (RLEDIFFwrite [] xs beyond loops @ s) = ok (s, xs)"
  using RLEread_RLEwrite [OF DIFFencode_nonneg, of xs beyond loops s] DIFFencode_sorted [of xs] DIFFdecode_encode [of xs]
  by (auto simp: RLEDIFFwrite_def RLEwrite_def Let_def split: prod.splits)

theorem RLEDIFF_stream_roundtrip_witness:
  "RLEDIFFread (RLEDIFFwrite [] [2, 4, 6, 8, 9] (\<lambda>_. 0) 10 @ [Bool True]) = ok ([Bool True], [2, 4, 6, 8, 9])"
  by (rule RLEDIFF_stream_roundtrip) simp

end
