(* ===== verification/Eckit_BitIO.thy ===== *)
theory Eckit_BitIO
  imports Eckit_Prelude "HOL-Library.Word"
begin

text \<open>
  The bit stream \<^verbatim>\<open>src/eckit/io/BitIO.cc\<close>: codes of arbitrary width are packed into, and unpacked from, a 64-bit
  buffer that is exchanged with a data handle byte by byte.  The handle is a list of bytes to read (\<^verbatim>\<open>source\<close>) and a
  list of bytes written (\<^verbatim>\<open>sink\<close>); a write always succeeds and a read returns nothing exactly at the end.  The two
  interfaces the clients use, \<^verbatim>\<open>bit_writer\<close> and \<^verbatim>\<open>bit_reader\<close>, are locales over lists of bits, most significant
  bit first.
\<close>

unbundle bit_operations_syntax

section \<open>State and operations\<close>

record bitio =
  buffer :: "64 word"
  used :: nat
  bits :: nat
  write_flag :: bool
  eof :: bool
  padded :: bool
  opened :: bool
  source :: "8 word list"
  sink :: "8 word list"

definition BitIO :: "8 word list \<Rightarrow> bool \<Rightarrow> bitio" where
  "BitIO input pad =
     \<lparr>buffer = 0, used = 0, bits = 0, write_flag = False, eof = False, padded = pad, opened = False,
      source = input, sink = []\<rparr>"

definition masks :: "64 word list" where
  "masks = [0x00, 0x01, 0x03, 0x07, 0x0F, 0x1F, 0x3F, 0x7F, 0xFF]"

text \<open>The bytes of the buffer, the last one shifted to the left when it is not full.\<close>

function flush_loop :: "64 word \<Rightarrow> nat \<Rightarrow> 8 word list \<Rightarrow> 8 word list" where
  "flush_loop buf nbits out =
     (if nbits = 0 then out
      else
        (let s = min nbits 8;
             c = ucast (drop_bit (nbits - s) buf AND masks ! s) :: 8 word;
             c' = push_bit (8 - s) c
         in flush_loop buf (nbits - s) (out @ [c'])))"
  by pat_completeness auto
termination by (relation "measure (\<lambda>(buf, nbits, out). nbits)") auto

definition flush :: "bitio \<Rightarrow> bitio" where
  "flush b = b\<lparr>sink := flush_loop (buffer b) (used b) (sink b), buffer := 0, used := 0\<rparr>"

text \<open>
  A full buffer is flushed, then up to eight bits of the code are shifted in.  (\<^verbatim>\<open>flush\<close> leaves \<^verbatim>\<open>used_\<close> and
  \<^verbatim>\<open>buffer_\<close> zero, as the two assertions of the source require.)
\<close>

function write_loop :: "64 word \<Rightarrow> nat \<Rightarrow> bitio \<Rightarrow> bitio" where
  "write_loop code nbits b =
     (if nbits = 0 \<or> 64 < used b then b
      else
        (let b1 = (if used b = 64 then flush b else b);
             s = min (min nbits (64 - used b1)) 8
         in write_loop code (nbits - s)
              (b1\<lparr>buffer := push_bit s (buffer b1) OR (drop_bit (nbits - s) code AND masks ! s),
                  used := used b1 + s, bits := bits b1 + s\<rparr>)))"
  by (pat_completeness, elim Pair_inject, hypsubst, rule refl)
termination
proof (relation "measure (\<lambda>(code, nbits, b). nbits)", goal_cases)
  case (2 code nbits b b1 s)
  then have "used b1 < 64" by (cases "used b = 64") (simp_all add: flush_def)
  with 2(1,3) show ?case by simp
qed simp

definition BitIO_write :: "bitio \<Rightarrow> 64 word \<Rightarrow> nat \<Rightarrow> bitio" where
  "BitIO_write b code nbits = write_loop code nbits (b\<lparr>write_flag := True, opened := True\<rparr>)"

text \<open>The loop that reads up to eight bytes into the buffer.\<close>

fun fill :: "nat \<Rightarrow> bitio \<Rightarrow> bitio" where
  "fill 0 b = b"
| "fill (Suc i) b =
     (case source b of
        [] \<Rightarrow> b\<lparr>eof := True\<rparr>
      | c # cs \<Rightarrow> fill i (b\<lparr>source := cs, buffer := push_bit 8 (buffer b) OR ucast c, used := used b + 8, bits := bits b + 8\<rparr>))"

function read_loop :: "nat \<Rightarrow> 64 word \<Rightarrow> nat \<Rightarrow> 64 word \<Rightarrow> nat \<Rightarrow> bitio \<Rightarrow> (64 word \<times> bitio) result" where
  "read_loop asked EOF_MARKER nbits res count b =
     (if nbits = 0 then ok (res, b)
      else
        (let b1 = (if used b = 0 \<and> \<not> eof b then fill 8 (b\<lparr>buffer := 0\<rparr>) else b) in
         if used b1 = 0 then
           if padded b1 \<and> count > 0 then ok (push_bit (asked - count) res, b1\<lparr>padded := False\<rparr>)
           else if EOF_MARKER \<noteq> 0 then ok (EOF_MARKER, b1)
           else throw ReadError
         else
           (let b2 = (if used b = 0 then b1\<lparr>buffer := push_bit (64 - used b1) (buffer b1)\<rparr> else b1);
                s = min (min nbits (used b2)) 8
            in read_loop asked EOF_MARKER (nbits - s)
                 (push_bit s res OR (drop_bit (64 - s) (buffer b2) AND masks ! s)) (count + s)
                 (b2\<lparr>buffer := push_bit s (buffer b2), used := used b2 - s\<rparr>))))"
  by (pat_completeness, elim Pair_inject, hypsubst, rule refl)
termination
proof (relation "measure (\<lambda>(asked, m, nbits, res, count, b). nbits)", goal_cases)
  case (2 asked m nbits res count b b1 b2 s)
  then have "0 < used b2" by (cases "used b = 0") simp_all
  with 2(1,5) show ?case by simp
qed simp

definition BitIO_read :: "bitio \<Rightarrow> nat \<Rightarrow> 64 word \<Rightarrow> (64 word \<times> bitio) result" where
  "BitIO_read b nbits EOF_MARKER = read_loop nbits EOF_MARKER nbits 0 0 (b\<lparr>opened := True\<rparr>)"

definition bitCount :: "bitio \<Rightarrow> nat" where
  "bitCount b = bits b"

definition byteCount :: "bitio \<Rightarrow> nat" where
  "byteCount b = (bits b + 7) div 8"

text \<open>The destructor.\<close>

definition close :: "bitio \<Rightarrow> bitio" where
  "close b = (let b' = (if write_flag b then flush b else b) in b'\<lparr>opened := False\<rparr>)"

declare flush_loop.simps [simp del] write_loop.simps [simp del] read_loop.simps [simp del]

section \<open>Words as lists of bits\<close>

text \<open>
  The low bits of a word, shifting bits into a word, the bits of a sequence of bytes and the zero bits that complete
  the last byte.
\<close>

definition bits_msb :: "nat \<Rightarrow> 'a::len word \<Rightarrow> bool list" where
  "bits_msb n w = map (bit w) (rev [0..<n])"

definition shift_in :: "64 word \<Rightarrow> bool list \<Rightarrow> 64 word" where
  "shift_in w bs = foldl (\<lambda>w b. push_bit 1 w OR of_bool b) w bs"

definition unpack :: "8 word list \<Rightarrow> bool list" where
  "unpack cs = concat (map (bits_msb 8) cs)"

definition padding :: "nat \<Rightarrow> bool list" where
  "padding n = replicate ((8 - n mod 8) mod 8) False"

lemma length_bits_msb [simp]: "length (bits_msb n w) = n" by (simp add: bits_msb_def)

lemma bits_msb_0 [simp]: "bits_msb 0 w = []" by (simp add: bits_msb_def)

lemma bits_msb_eq_Nil [simp]: "bits_msb n w = [] \<longleftrightarrow> n = 0"
  by (metis length_0_conv length_bits_msb)

lemma bits_msb_Suc: "bits_msb (Suc n) w = bit w n # bits_msb n w"
  by (simp add: bits_msb_def)

lemma bits_msb_cong: "(\<And>i. i < n \<Longrightarrow> bit v i = bit w i) \<Longrightarrow> bits_msb n v = bits_msb n w"
  by (simp add: bits_msb_def)

lemma bits_msb_add: "bits_msb (m + n) w = bits_msb m (drop_bit n w) @ bits_msb n w"
  by (induction m) (simp_all add: bits_msb_Suc bit_drop_bit_eq add.commute)

lemma masks_eq: "s \<le> 8 \<Longrightarrow> masks ! s = mask s"
proof -
  assume "s \<le> 8"
  then have "s \<in> {0, 1, 2, 3, 4, 5, 6, 7, 8}" by auto
  then show ?thesis by (auto simp: masks_def mask_eq_exp_minus_1)
qed

lemma shift_in_Nil [simp]: "shift_in w [] = w" by (simp add: shift_in_def)
lemma shift_in_append: "shift_in w (a @ b) = shift_in (shift_in w a) b" by (simp add: shift_in_def)
lemma shift_in_snoc: "shift_in w (a @ [b]) = push_bit 1 (shift_in w a) OR of_bool b" by (simp add: shift_in_def)

lemma bits_msb_Suc_snoc: "bits_msb (Suc n) w = bits_msb n (drop_bit 1 w) @ [bit w 0]"
  using bits_msb_add [of n 1 w] by (simp add: bits_msb_Suc)

lemma bit_shift_in_1: "bit (push_bit 1 (w :: 64 word) OR of_bool b) i \<longleftrightarrow> (if i = 0 then b else i < 64 \<and> bit w (i - 1))"
proof -
  have "bit (push_bit 1 w) i \<longleftrightarrow> i < 64 \<and> 1 \<le> i \<and> bit w (i - 1)"
    by (simp only: bit_push_bit_iff possible_bit_word) auto
  moreover have "bit (of_bool b :: 64 word) i \<longleftrightarrow> b \<and> i = 0" by (auto simp: bit_of_bool_iff)
  ultimately show ?thesis unfolding bit_or_iff by (cases i) auto
qed

lemma shift_in_bits_msb: "shift_in w (bits_msb n v) = push_bit n w OR (v AND mask n)"
proof (induction n arbitrary: v)
  case 0
  then show ?case by simp
next
  case (Suc n)
  show ?case
    unfolding bits_msb_Suc_snoc shift_in_snoc Suc
  proof (rule bit_word_eqI)
    fix i :: nat assume "i < LENGTH(64)"
    then show "bit (push_bit 1 (push_bit n w OR drop_bit 1 v AND mask n) OR of_bool (bit v 0)) i =
       bit (push_bit (Suc n) w OR v AND mask (Suc n)) i"
      unfolding bit_shift_in_1 by (cases i) (auto simp: bit_simps simp del: push_bit_Suc)
  qed
qed


lemma unpack_Nil [simp]: "unpack [] = []" by (simp add: unpack_def)
lemma unpack_Cons [simp]: "unpack (c # cs) = bits_msb 8 c @ unpack cs" by (simp add: unpack_def)
lemma unpack_append [simp]: "unpack (cs @ ds) = unpack cs @ unpack ds" by (simp add: unpack_def)
lemma length_unpack [simp]: "length (unpack cs) = 8 * length cs" by (induction cs) simp_all

lemma bits_msb_ucast: "n \<le> 8 \<Longrightarrow> bits_msb n (ucast (w AND mask s) :: 8 word) = bits_msb n ((w :: 64 word) AND mask s)"
  by (rule bits_msb_cong) (simp add: bit_simps)

lemma bits_msb_mask: "n \<le> s \<Longrightarrow> bits_msb n ((w :: 'a::len word) AND mask s) = bits_msb n w"
  by (rule bits_msb_cong) (auto simp: bit_simps dest: bit_imp_le_length)

lemma bits_msb_push_zero: "n \<le> k \<Longrightarrow> bits_msb n (push_bit k (w :: 'a::len word)) = replicate n False"
  by (induction n) (simp_all add: bits_msb_Suc bit_simps)

lemma bits_msb_drop_push: "n + k \<le> LENGTH('a) \<Longrightarrow> bits_msb n (drop_bit k (push_bit k (w :: 'a::len word))) = bits_msb n w"
  by (rule bits_msb_cong) (simp add: bit_simps)

lemma last_byte:
  assumes "n < 8"
  shows "bits_msb 8 (push_bit (8 - n) (ucast ((w :: 64 word) AND mask n) :: 8 word)) = bits_msb n w @ replicate (8 - n) False"
proof -
  let ?c = "ucast (w AND mask n) :: 8 word"
  have "bits_msb (n + (8 - n)) (push_bit (8 - n) ?c) =
          bits_msb n (drop_bit (8 - n) (push_bit (8 - n) ?c)) @ bits_msb (8 - n) (push_bit (8 - n) ?c)"
    by (rule bits_msb_add)
  then show ?thesis using assms
    by (simp add: bits_msb_drop_push bits_msb_push_zero bits_msb_ucast bits_msb_mask)
qed

lemma unpack_flush_loop:
  "unpack (flush_loop buf n out) = unpack out @ bits_msb n buf @ padding n"
proof (induction buf n out rule: flush_loop.induct)
  case (1 buf n out)
  consider "n = 0" | "0 < n" "n < 8" | "8 \<le> n" by linarith
  then show ?case
  proof cases
    case 1
    then show ?thesis by (simp add: flush_loop.simps padding_def)
  next
    case 2
    then show ?thesis
      by (simp add: flush_loop.simps [of buf n out] flush_loop.simps [of buf 0] Let_def masks_eq last_byte padding_def)
  next
    case 3
    let ?c = "ucast (drop_bit (n - 8) buf AND mask 8) :: 8 word"
    have "bits_msb n buf = bits_msb 8 (drop_bit (n - 8) buf) @ bits_msb (n - 8) buf"
      using bits_msb_add [of 8 "n - 8" buf] 3 by simp
    moreover have "bits_msb 8 ?c = bits_msb 8 (drop_bit (n - 8) buf)"
      by (simp add: bits_msb_ucast bits_msb_mask)
    moreover have "padding (n - 8) = padding n"
      using 3 by (simp add: padding_def le_mod_geq)
    ultimately show ?thesis using 1 3
      by (simp add: flush_loop.simps [of buf n out] Let_def masks_eq)
  qed
qed

section \<open>Writing\<close>

text \<open>Everything written so far: the bytes in the file and the bits still in the buffer.\<close>

definition wbits :: "bitio \<Rightarrow> bool list" where
  "wbits b = unpack (sink b) @ bits_msb (used b) (buffer b)"

lemma flush_simps [simp]:
  "used (flush b) = 0" "buffer (flush b) = 0" "bits (flush b) = bits b" "write_flag (flush b) = write_flag b" "sink (flush b) = flush_loop (buffer b) (used b) (sink b)"
  by (simp_all add: flush_def)

lemma wbits_flush_full: "used b = 64 \<Longrightarrow> wbits (flush b) = wbits b"
  by (simp add: wbits_def unpack_flush_loop padding_def)

lemma bits_msb_shift:
  assumes "u + s \<le> 64"
  shows "bits_msb (u + s) (push_bit s (w :: 64 word) OR (v AND mask s)) = bits_msb u w @ bits_msb s v"
proof -
  let ?x = "push_bit s w OR (v AND mask s)"
  have "bits_msb u (drop_bit s ?x) = bits_msb u w"
    using assms by (intro bits_msb_cong) (simp add: bit_simps)
  moreover have "bits_msb s ?x = bits_msb s v"
    by (rule bits_msb_cong) (auto simp: bit_simps dest: bit_imp_le_length)
  ultimately show ?thesis using bits_msb_add [of u s ?x] by simp
qed

lemma write_loop_bits:
  "used b \<le> 64 \<Longrightarrow>
   used (write_loop code n b) \<le> 64 \<and> wbits (write_loop code n b) = wbits b @ bits_msb n code \<and>
   bits (write_loop code n b) = bits b + n \<and> write_flag (write_loop code n b) = write_flag b"
proof (induction code n b rule: write_loop.induct)
  case (1 code n b)
  show ?case
  proof (cases "n = 0")
    case True
    then show ?thesis using 1(2) by (simp add: write_loop.simps)
  next
    case False
    define b1 where "b1 = (if used b = 64 then flush b else b)"
    define s where "s = min (min n (64 - used b1)) 8"
    define b2 where "b2 = b1\<lparr>buffer := push_bit s (buffer b1) OR (drop_bit (n - s) code AND masks ! s),
                  used := used b1 + s, bits := bits b1 + s\<rparr>"
    have b1: "used b1 < 64" "wbits b1 = wbits b" "bits b1 = bits b" "write_flag b1 = write_flag b"
      using 1(2) by (auto simp: b1_def wbits_flush_full)
    have s: "s \<le> 8" "s \<le> n" "used b1 + s \<le> 64" using b1(1) by (auto simp: s_def)
    have "wbits b2 = wbits b @ bits_msb s (drop_bit (n - s) code)"
      using s b1(2) by (simp add: wbits_def b2_def masks_eq bits_msb_shift)
    moreover have "bits_msb n code = bits_msb s (drop_bit (n - s) code) @ bits_msb (n - s) code"
      using bits_msb_add [of s "n - s" code] s by simp
    moreover have "write_loop code n b = write_loop code (n - s) b2"
      using False 1(2)
      unfolding write_loop.simps [of code n b] Let_def b1_def [symmetric] s_def [symmetric] b2_def [symmetric] by simp
    moreover have b2: "used b2 \<le> 64" "bits b2 = bits b + s" "write_flag b2 = write_flag b" using s b1 by (simp_all add: b2_def)
    moreover have "\<not> (n = 0 \<or> 64 < used b)" using False 1(2) by simp
    note 1(1) [OF this b1_def s_def, folded b2_def, OF b2(1)]
    ultimately show ?thesis using s(2) by (simp only: append_assoc) simp
  qed
qed


lemma close_wbits:
  "write_flag b \<Longrightarrow> unpack (sink (close b)) = wbits b @ padding (used b)"
  by (simp add: close_def Let_def wbits_def unpack_flush_loop)

section \<open>Reading\<close>

text \<open>Everything still to be read: the bits at the top of the buffer and the bytes of the file.\<close>

definition rbits :: "bitio \<Rightarrow> bool list" where
  "rbits b = bits_msb (used b) (drop_bit (64 - used b) (buffer b)) @ unpack (source b)"

definition lbits :: "bitio \<Rightarrow> bool list" where
  "lbits b = bits_msb (used b) (buffer b) @ unpack (source b)"

definition read_inv :: "bitio \<Rightarrow> bool" where
  "read_inv b \<longleftrightarrow> used b \<le> 64 \<and> (eof b \<longrightarrow> source b = [])"

abbreviation bits_total :: "bitio \<Rightarrow> nat" where
  "bits_total b \<equiv> bits b + 8 * length (source b)"

lemma fill_lbits:
  "used b + 8 * i \<le> 64 \<Longrightarrow>
   lbits (fill i b) = lbits b \<and> used (fill i b) \<le> used b + 8 * i \<and> used b \<le> used (fill i b) \<and>
   (0 < i \<and> source b \<noteq> [] \<longrightarrow> used b < used (fill i b)) \<and>
   (eof (fill i b) \<longrightarrow> eof b \<or> source (fill i b) = []) \<and>
   padded (fill i b) = padded b \<and> bits_total (fill i b) = bits_total b"
proof (induction i b rule: fill.induct)
  case (2 i b)
  show ?case
  proof (cases "source b")
    case Nil
    then show ?thesis by (simp add: lbits_def)
  next
    case (Cons c cs)
    let ?b = "b\<lparr>source := cs, buffer := push_bit 8 (buffer b) OR ucast c, used := used b + 8, bits := bits b + 8\<rparr>"
    have "(ucast c :: 64 word) = ucast c AND mask 8" by (rule bit_word_eqI) (auto simp: bit_simps dest: bit_imp_le_length)
    moreover have "bits_msb 8 (ucast c :: 64 word) = bits_msb 8 c" by (rule bits_msb_cong) (simp add: bit_simps)
    ultimately have "lbits ?b = lbits b"
      using bits_msb_shift [of "used b" 8 "buffer b" "ucast c"] 2(2) Cons by (simp add: lbits_def)
    then show ?thesis using 2(1) [OF Cons] 2(2) Cons by auto
  qed
qed simp

definition refill :: "bitio \<Rightarrow> bitio" where
  "refill b = (let b1 = (if used b = 0 \<and> \<not> eof b then fill 8 (b\<lparr>buffer := 0\<rparr>) else b)
               in if used b = 0 \<and> used b1 \<noteq> 0 then b1\<lparr>buffer := push_bit (64 - used b1) (buffer b1)\<rparr> else b1)"

lemma bits_msb_drop_top: "u \<le> 64 \<Longrightarrow> bits_msb u (drop_bit (64 - u) (push_bit (64 - u) (w :: 64 word))) = bits_msb u w"
  by (rule bits_msb_drop_push) simp

lemma refill_props:
  assumes "read_inv b"
  shows "rbits (refill b) = rbits b" "read_inv (refill b)" "padded (refill b) = padded b" "bits_total (refill b) = bits_total b"
    "used (refill b) = 0 \<longleftrightarrow> rbits b = []"
proof -
  let ?f = "fill 8 (b\<lparr>buffer := 0\<rparr>)"
  note f = fill_lbits [of "b\<lparr>buffer := 0\<rparr>" 8]
  have "rbits (refill b) = rbits b \<and> read_inv (refill b) \<and> padded (refill b) = padded b \<and> bits_total (refill b) = bits_total b \<and>
    (used (refill b) = 0 \<longleftrightarrow> rbits b = [])"
  proof (cases "used b = 0 \<and> \<not> eof b")
    case True
    then have r: "refill b = (if used ?f = 0 then ?f else ?f\<lparr>buffer := push_bit (64 - used ?f) (buffer ?f)\<rparr>)"
      by (simp add: refill_def Let_def)
    have "used ?f \<le> 64" using f True by simp
    then have "rbits (refill b) = lbits ?f" by (simp add: r rbits_def lbits_def bits_msb_drop_top)
    moreover have l: "lbits ?f = rbits b" using f True by (simp add: lbits_def rbits_def)
    moreover have "used ?f = 0 \<longleftrightarrow> rbits b = []"
      using f True l by (cases "source b") (auto simp: rbits_def lbits_def)
    ultimately show ?thesis using f True by (simp add: r read_inv_def)
  next
    case False
    then show ?thesis using assms by (auto simp: refill_def read_inv_def rbits_def Let_def)
  qed
  then show "rbits (refill b) = rbits b" "read_inv (refill b)" "padded (refill b) = padded b" "bits_total (refill b) = bits_total b"
    "used (refill b) = 0 \<longleftrightarrow> rbits b = []" by auto
qed

text \<open>Reading on the abstract level.\<close>

definition bits_read :: "nat \<Rightarrow> 64 word \<Rightarrow> nat \<Rightarrow> 64 word \<Rightarrow> nat \<Rightarrow> bool list \<Rightarrow> bool \<Rightarrow> (64 word \<times> bool list \<times> bool) result" where
  "bits_read asked eof_marker n res count bs pad =
     (if n \<le> length bs then ok (shift_in res (take n bs), drop n bs, pad)
      else if pad \<and> count + length bs > 0 then
        ok (push_bit (asked - (count + length bs)) (shift_in res bs), [], False)
      else if eof_marker \<noteq> 0 then ok (eof_marker, [], pad)
      else throw ReadError)"

lemma read_loop_unfold:
  "read_loop asked m n res count b =
     (if n = 0 then ok (res, b)
      else
        (let b2 = refill b; s = min (min n (used b2)) 8 in
         if used b2 = 0 then
           if padded b2 \<and> count > 0 then ok (push_bit (asked - count) res, b2\<lparr>padded := False\<rparr>)
           else if m \<noteq> 0 then ok (m, b2)
           else throw ReadError
         else
           read_loop asked m (n - s)
                 (push_bit s res OR (drop_bit (64 - s) (buffer b2) AND masks ! s)) (count + s)
                 (b2\<lparr>buffer := push_bit s (buffer b2), used := used b2 - s\<rparr>)))"
proof -
  define b1 where "b1 = (if used b = 0 \<and> \<not> eof b then fill 8 (b\<lparr>buffer := 0\<rparr>) else b)"
  have r: "refill b = (if used b = 0 \<and> used b1 \<noteq> 0 then b1\<lparr>buffer := push_bit (64 - used b1) (buffer b1)\<rparr> else b1)"
    unfolding refill_def Let_def b1_def [symmetric] ..
  show ?thesis
    unfolding read_loop.simps [of asked m n res count b] Let_def b1_def [symmetric] r
    by (cases "used b = 0"; cases "used b1 = 0") simp_all
qed

lemma take_bits_msb: "s \<le> n \<Longrightarrow> take s (bits_msb n w) = bits_msb s (drop_bit (n - s) w)"
  using bits_msb_add [of s "n - s" w] by simp

lemma drop_bits_msb: "s \<le> n \<Longrightarrow> drop s (bits_msb n w) = bits_msb (n - s) w"
  using bits_msb_add [of s "n - s" w] by simp

lemma chunk_out:
  assumes "s \<le> used b" "used b \<le> 64" "s \<le> 8"
  defines "b' \<equiv> b\<lparr>buffer := push_bit s (buffer b), used := used b - s\<rparr>"
  shows "rbits b = bits_msb s (drop_bit (64 - s) (buffer b)) @ rbits b'"
proof -
  have "bits_msb (used b) (drop_bit (64 - used b) (buffer b)) =
    bits_msb s (drop_bit (used b - s) (drop_bit (64 - used b) (buffer b))) @ bits_msb (used b - s) (drop_bit (64 - used b) (buffer b))"
    by (metis assms(1) bits_msb_add le_add_diff_inverse)
  moreover have "drop_bit (used b - s) (drop_bit (64 - used b) (buffer b)) = drop_bit (64 - s) (buffer b)"
    using assms by (simp add: drop_bit_drop_bit)
  moreover have "bits_msb (used b - s) (drop_bit (64 - (used b - s)) (push_bit s (buffer b))) =
    bits_msb (used b - s) (drop_bit (64 - used b) (buffer b))"
    using assms by (intro bits_msb_cong) (auto simp: bit_simps)
  ultimately show ?thesis by (simp add: rbits_def b'_def)
qed

definition read_result :: "(64 word \<times> bitio) result \<Rightarrow> (64 word \<times> bool list \<times> bool) result" where
  "read_result r = rbind r (\<lambda>(v, b). ok (v, rbits b, padded b))"

lemma bits_read_step:
  assumes "bs = c @ bs'" "length c \<le> n" "0 < length c"
  shows "bits_read asked m n res count bs pad = bits_read asked m (n - length c) (shift_in res c) (count + length c) bs' pad"
proof -
  have "n \<le> length bs \<longleftrightarrow> n - length c \<le> length bs'" using assms by auto
  moreover have "count + length bs = count + length c + length bs'" using assms by simp
  moreover have "take n bs = c @ take (n - length c) bs'" "drop n bs = drop (n - length c) bs'" using assms by simp_all
  ultimately show ?thesis using assms(1,3) by (simp add: bits_read_def shift_in_append add.assoc)
qed

lemma read_loop_refines:
  "read_inv b \<Longrightarrow>
   read_result (read_loop asked m n res count b) = bits_read asked m n res count (rbits b) (padded b) \<and>
   (\<forall>v b'. read_loop asked m n res count b = ok (v, b') \<longrightarrow> read_inv b' \<and> bits_total b' = bits_total b)"
proof (induction n arbitrary: res count b rule: less_induct)
  case (less n)
  define b2 where "b2 = refill b"
  define s where "s = min (min n (used b2)) 8"
  note r = refill_props [OF less(2), folded b2_def]
  consider "n = 0" | "n \<noteq> 0" "used b2 = 0" | "n \<noteq> 0" "used b2 \<noteq> 0" by blast
  then show ?case
  proof cases
    case 1
    then show ?thesis using less(2) by (simp add: read_loop.simps read_result_def bits_read_def)
  next
    case 2
    have "rbits b = []" using r(5) 2(2) by simp
    moreover have "read_loop asked m n res count b = (if padded b \<and> count > 0 then ok (push_bit (asked - count) res, b2\<lparr>padded := False\<rparr>)
           else if m \<noteq> 0 then ok (m, b2) else throw ReadError)"
      using 2 r(3) by (subst read_loop_unfold) (simp add: Let_def b2_def)
    moreover have "rbits (b2\<lparr>padded := False\<rparr>) = rbits b2" "read_inv (b2\<lparr>padded := False\<rparr>) = read_inv b2"
      by (simp_all add: rbits_def read_inv_def)
    ultimately show ?thesis using r 2 by (auto simp: read_result_def bits_read_def)
  next
    case 3
    let ?b = "b2\<lparr>buffer := push_bit s (buffer b2), used := used b2 - s\<rparr>"
    let ?c = "bits_msb s (drop_bit (64 - s) (buffer b2))"
    have u: "used b2 \<le> 64" using r(2) by (simp add: read_inv_def)
    have s: "0 < s" "s \<le> n" "s \<le> used b2" "s \<le> 8" using 3 by (auto simp: s_def)
    have eq: "read_loop asked m n res count b = read_loop asked m (n - s) (shift_in res ?c) (count + s) ?b"
      using 3 s by (subst read_loop_unfold) (simp add: Let_def b2_def [symmetric] s_def [symmetric] masks_eq shift_in_bits_msb)
    have "bits_read asked m n res count (rbits b) (padded b) =
          bits_read asked m (n - s) (shift_in res ?c) (count + s) (rbits ?b) (padded ?b)"
      using bits_read_step [OF chunk_out [OF s(3) u s(4)], of n asked m res count "padded b"] s r by simp
    moreover have "read_inv ?b" "bits_total ?b = bits_total b" using r u by (simp_all add: read_inv_def)
    ultimately show ?thesis using less(1) [of "n - s" ?b] s unfolding eq by simp
  qed
qed


section \<open>Interfaces\<close>

definition write_inv :: "bitio \<Rightarrow> bool" where
  "write_inv b \<longleftrightarrow> used b \<le> 64 \<and> bits b mod 8 = used b mod 8 \<and> bits b = length (wbits b)"

lemma BitIO_write_wbits:
  assumes "write_inv b"
  shows "write_inv (BitIO_write b code n)" "wbits (BitIO_write b code n) = wbits b @ bits_msb n code"
    "bitCount (BitIO_write b code n) = bitCount b + n" "write_flag (BitIO_write b code n)"
proof -
  let ?b = "b\<lparr>write_flag := True, opened := True\<rparr>"
  have "wbits ?b = wbits b" by (simp add: wbits_def)
  then show w: "wbits (BitIO_write b code n) = wbits b @ bits_msb n code"
    and c: "bitCount (BitIO_write b code n) = bitCount b + n"
    and "write_flag (BitIO_write b code n)"
    using write_loop_bits [of ?b code n] assms
    by (simp_all add: BitIO_write_def write_inv_def bitCount_def)
  have u: "used (BitIO_write b code n) \<le> 64"
    using write_loop_bits [of ?b code n] assms by (simp add: BitIO_write_def write_inv_def)
  have l: "bits (BitIO_write b code n) = length (wbits (BitIO_write b code n))"
    using w c assms by (simp add: write_inv_def bitCount_def)
  moreover have "length (wbits (BitIO_write b code n)) mod 8 = used (BitIO_write b code n) mod 8"
    by (simp add: wbits_def)
  ultimately show "write_inv (BitIO_write b code n)" using u by (simp add: write_inv_def)
qed

lemma BitIO_read_refines:
  assumes "read_inv b"
  shows "rbind (BitIO_read b n m) (\<lambda>(v, b'). ok (v, rbits b', padded b')) = bits_read n m n 0 0 (rbits b) (padded b)"
    "BitIO_read b n m = ok (v, b') \<Longrightarrow> read_inv b' \<and> bits_total b' = bits_total b"
proof -
  have "read_inv (b\<lparr>opened := True\<rparr>)" "rbits (b\<lparr>opened := True\<rparr>) = rbits b"
    using assms by (simp_all add: read_inv_def rbits_def)
  then show "rbind (BitIO_read b n m) (\<lambda>(v, b'). ok (v, rbits b', padded b')) = bits_read n m n 0 0 (rbits b) (padded b)"
    "BitIO_read b n m = ok (v, b') \<Longrightarrow> read_inv b' \<and> bits_total b' = bits_total b"
    using read_loop_refines [of "b\<lparr>opened := True\<rparr>" n m n 0 0] by (auto simp: BitIO_read_def read_result_def)
qed

locale bit_writer =
  fixes put :: "'w \<Rightarrow> 64 word \<Rightarrow> nat \<Rightarrow> 'w"
    and written :: "'w \<Rightarrow> bool list"
    and wok :: "'w \<Rightarrow> bool"
  assumes put_inv: "wok w \<Longrightarrow> wok (put w c n)"
    and put_written: "wok w \<Longrightarrow> written (put w c n) = written w @ bits_msb n c"
begin

lemma put_all_inv: "wok w \<Longrightarrow> wok (foldl (\<lambda>w (c, n). put w c n) w cs)"
  by (induction cs arbitrary: w) (auto simp: put_inv)

lemma put_all_written:
  "wok w \<Longrightarrow> written (foldl (\<lambda>w (c, n). put w c n) w cs) = written w @ concat (map (\<lambda>(c, n). bits_msb n c) cs)"
  by (induction cs arbitrary: w) (auto simp: put_inv put_written)

end

interpretation bw: bit_writer BitIO_write wbits write_inv
  by unfold_locales (simp_all add: BitIO_write_wbits)

lemma mask_less:
  assumes "unat (c :: 'a::len word) < 2 ^ n"
  shows "c AND mask n = c"
proof -
  have "unat (take_bit n c) = unat c" using assms by (simp add: unsigned_take_bit_eq take_bit_nat_eq_self)
  then show ?thesis by (simp add: take_bit_eq_mask word_unat_eq_iff)
qed

locale bit_reader =
  fixes get :: "'r \<Rightarrow> nat \<Rightarrow> 64 word \<Rightarrow> (64 word \<times> 'r) result"
    and remaining :: "'r \<Rightarrow> bool list"
    and pad :: "'r \<Rightarrow> bool"
    and rok :: "'r \<Rightarrow> bool"
  assumes get_inv: "rok r \<Longrightarrow> get r n m = ok (v, r') \<Longrightarrow> rok r'"
    and get_refines: "rok r \<Longrightarrow>
          rbind (get r n m) (\<lambda>(v, r'). ok (v, remaining r', pad r')) = bits_read n m n 0 0 (remaining r) (pad r)"
begin

lemma get_full:
  assumes "rok r" "n \<le> length (remaining r)"
  obtains r' where "get r n m = ok (shift_in 0 (take n (remaining r)), r')" "remaining r' = drop n (remaining r)"
    "rok r'" "pad r' = pad r"
  using get_refines [OF assms(1), of n m] get_inv [OF assms(1), of n m] assms(2)
  by (cases "get r n m") (auto simp: bits_read_def)

lemma get_code:
  assumes "rok r" "remaining r = bits_msb n c @ rest" "c AND mask n = c"
  obtains r' where "get r n m = ok (c, r')" "remaining r' = rest" "rok r'" "pad r' = pad r"
  using get_full [OF assms(1), of n m] assms(2,3) by (auto simp: shift_in_bits_msb)

lemma get_eof:
  assumes "rok r" "length (remaining r) < n" "m \<noteq> 0" "\<not> pad r \<or> remaining r = []"
  obtains r' where "get r n m = ok (m, r')" "remaining r' = []" "rok r'" "pad r' = pad r"
  using get_refines [OF assms(1), of n m] get_inv [OF assms(1), of n m] assms(2-)
  by (cases "get r n m") (auto simp: bits_read_def)

lemma get_padded:
  assumes "rok r" "length (remaining r) < n" "pad r" "remaining r \<noteq> []"
  obtains r' where "get r n m = ok (push_bit (n - length (remaining r)) (shift_in 0 (remaining r)), r')"
    "remaining r' = []" "rok r'" "\<not> pad r'"
  using get_refines [OF assms(1), of n m] get_inv [OF assms(1), of n m] assms(2-)
  by (cases "get r n m") (auto simp: bits_read_def)

end

interpretation br: bit_reader BitIO_read rbits padded read_inv
  using BitIO_read_refines by unfold_locales auto

definition write_all :: "bitio \<Rightarrow> (64 word \<times> nat) list \<Rightarrow> bitio" where
  "write_all b cs = foldl (\<lambda>b (c, n). BitIO_write b c n) b cs"

fun read_all :: "bitio \<Rightarrow> nat list \<Rightarrow> 64 word \<Rightarrow> 64 word list result" where
  "read_all b [] m = ok []"
| "read_all b (n # ns) m = rbind (BitIO_read b n m) (\<lambda>(c, b'). rbind (read_all b' ns m) (\<lambda>cs. ok (c # cs)))"

lemma BitIO_fresh [simp]:
  "write_inv (BitIO input pad)" "read_inv (BitIO input pad)" "wbits (BitIO input pad) = []"
  "rbits (BitIO input pad) = unpack input" "padded (BitIO input pad) = pad" "write_flag (BitIO input pad) = False"
  by (simp_all add: BitIO_def write_inv_def read_inv_def wbits_def rbits_def)

lemma read_all_bits:
  "read_inv b \<Longrightarrow> rbits b = concat (map (\<lambda>(c, n). bits_msb n c) cs) @ rest \<Longrightarrow>
   \<forall>(c, n) \<in> set cs. c AND mask n = c \<Longrightarrow> read_all b (map snd cs) m = ok (map fst cs)"
proof (induction cs arbitrary: b)
  case (Cons x cs)
  obtain c n where x: "x = (c, n)" by fastforce
  from Cons.prems obtain b' where "BitIO_read b n m = ok (c, b')" "rbits b' = concat (map (\<lambda>(c, n). bits_msb n c) cs) @ rest" "read_inv b'"
    using br.get_code [of b n c "concat (map (\<lambda>(c, n). bits_msb n c) cs) @ rest" m] by (auto simp: x)
  with Cons show ?case by (simp add: x)
qed simp


lemma close_unpack:
  assumes "write_inv b" "write_flag b \<or> wbits b = []"
  shows "unpack (sink (close b)) = wbits b @ padding (length (wbits b))"
proof (cases "write_flag b")
  case True
  have "padding (used b) = padding (length (wbits b))" by (simp add: padding_def wbits_def)
  then show ?thesis using close_wbits [OF True] by simp
next
  case False
  with assms(2) have "sink b = []" by (cases "sink b") (simp_all add: wbits_def)
  then show ?thesis using False assms(2) by (simp add: close_def padding_def)
qed

lemma write_all_flag: "write_flag b \<Longrightarrow> write_inv b \<Longrightarrow> write_flag (write_all b cs)"
  unfolding write_all_def by (induction cs arbitrary: b) (auto simp: BitIO_write_wbits)

lemma write_all_close:
  "unpack (sink (close (write_all (BitIO [] p) cs))) =
     (let bs = concat (map (\<lambda>(c, n). bits_msb n c) cs) in bs @ padding (length bs))"
proof -
  let ?b = "write_all (BitIO [] p) cs"
  have w: "write_inv ?b" "wbits ?b = concat (map (\<lambda>(c, n). bits_msb n c) cs)"
    using bw.put_all_inv bw.put_all_written by (simp_all add: write_all_def)
  have "write_flag ?b \<or> wbits ?b = []"
  proof (cases cs)
    case Nil
    then show ?thesis by (simp add: write_all_def)
  next
    case (Cons x cs')
    then show ?thesis
      using write_all_flag [of "BitIO_write (BitIO [] p) (fst x) (snd x)" cs'] BitIO_write_wbits [of "BitIO [] p"]
      by (simp add: write_all_def case_prod_beta)
  qed
  from close_unpack [OF w(1) this] w(2) show ?thesis by (simp add: Let_def)
qed

section \<open>Progress of the reader\<close>

text \<open>What strictly decreases with every read that does not report the end of the file.\<close>

definition progress :: "bitio \<Rightarrow> nat" where
  "progress b = 2 * (used b + 8 * length (source b)) + of_bool (padded b)"

lemma fill_progress:
  "used (fill i b) + 8 * length (source (fill i b)) = used b + 8 * length (source b) \<and> padded (fill i b) = padded b"
  by (induction i b rule: fill.induct) (auto split: list.splits)

lemma refill_progress: "progress (refill b) = progress b"
  using fill_progress [of 8 "b\<lparr>buffer := 0\<rparr>"] by (simp add: refill_def progress_def Let_def)

lemma read_loop_progress:
  "read_loop asked m n res count b = ok (v, b') \<Longrightarrow>
   progress b' \<le> progress b \<and> (n \<noteq> 0 \<and> v \<noteq> m \<longrightarrow> progress b' < progress b)"
proof (induction n arbitrary: res count b rule: less_induct)
  case (less n res count b)
  let ?b2 = "refill b"
  let ?s = "min (min n (used ?b2)) 8"
  let ?b3 = "?b2\<lparr>buffer := push_bit ?s (buffer ?b2), used := used ?b2 - ?s\<rparr>"
  have r: "progress ?b2 = progress b" by (rule refill_progress)
  note step = less(2) [unfolded read_loop_unfold [of asked m n res count b] Let_def]
  consider "n = 0" | "n \<noteq> 0" "used ?b2 = 0" | "n \<noteq> 0" "used ?b2 \<noteq> 0" by blast
  then show ?case
  proof cases
    case 1
    then show ?thesis using step by simp
  next
    case 2
    have "progress (?b2\<lparr>padded := False\<rparr>) < progress b" if "padded ?b2"
      using that unfolding r [symmetric] by (simp add: progress_def)
    then show ?thesis using 2 step r by (auto split: if_splits)
  next
    case 3
    have "progress ?b3 < progress b"
      using 3 unfolding r [symmetric] by (auto simp: progress_def)
    moreover have "n - ?s < n" using 3 by auto
    note less(1) [OF this step [unfolded if_not_P [OF 3(1)] if_not_P [OF 3(2)]]]
    ultimately show ?thesis by linarith
  qed
qed

lemma BitIO_read_progress:
  "BitIO_read b n m = ok (v, b') \<Longrightarrow> n \<noteq> 0 \<Longrightarrow> v \<noteq> m \<Longrightarrow> progress b' < progress b"
  using read_loop_progress [of n m n 0 0 "b\<lparr>opened := True\<rparr>" v b'] by (simp add: BitIO_read_def progress_def)

lemma BitIO_read_progress_le: "BitIO_read b n m = ok (v, b') \<Longrightarrow> progress b' \<le> progress b"
  using read_loop_progress [of n m n 0 0 "b\<lparr>opened := True\<rparr>" v b'] by (simp add: BitIO_read_def progress_def)

section \<open>Bytes\<close>

lemma bit_shift_in_0: "bit (shift_in 0 bs) i \<Longrightarrow> i < length bs"
proof (induction bs arbitrary: i rule: rev_induct)
  case (snoc b bs)
  then show ?case unfolding shift_in_snoc bit_shift_in_1 by (cases i) auto
qed simp

lemma bits_msb_ucast8 [simp]: "n \<le> 8 \<Longrightarrow> bits_msb n (ucast (c :: 8 word) :: 64 word) = bits_msb n c"
  by (rule bits_msb_cong) (simp add: bit_simps)

lemma push_shift_in: "push_bit k (shift_in 0 bs) = shift_in 0 (bs @ replicate k False)"
proof (induction k)
  case (Suc k)
  have "shift_in 0 (bs @ replicate (Suc k) False) = push_bit 1 (shift_in 0 (bs @ replicate k False))"
    unfolding replicate_append_same [symmetric] replicate_Suc append_assoc [symmetric] shift_in_snoc by simp
  then show ?case unfolding Suc [symmetric] by (simp add: push_bit_push_bit)
qed simp

lemma bit8_less: "bit (a :: 8 word) n \<Longrightarrow> n < 8"
  by (drule bit_imp_le_length) simp

lemma bit8_ge: "8 \<le> n \<Longrightarrow> \<not> bit (a :: 8 word) n"
  using bit8_less by (meson not_less)

lemma bits_msb_shift_in: "length bs \<le> 64 \<Longrightarrow> bits_msb (length bs) (shift_in 0 bs) = bs"
proof (induction bs rule: rev_induct)
  case (snoc b bs)
  have "bits_msb (length bs) (drop_bit 1 (shift_in 0 (bs @ [b]))) = bits_msb (length bs) (shift_in 0 bs)"
    unfolding shift_in_snoc using snoc.prems
    by (intro bits_msb_cong) (simp only: bit_drop_bit_eq bit_shift_in_1 comp_def, simp)
  moreover have "bit (shift_in 0 (bs @ [b])) 0 = b" unfolding shift_in_snoc bit_shift_in_1 by simp
  ultimately show ?case using snoc by (simp add: bits_msb_Suc_snoc)
qed simp

lemma bits_msb_inj: "bits_msb n v = bits_msb n w \<Longrightarrow> i < n \<Longrightarrow> bit v i = bit w i"
  by (induction n) (auto simp: bits_msb_Suc less_Suc_eq)

lemma unpack_inj: "unpack cs = unpack ds \<Longrightarrow> cs = ds"
proof (induction cs arbitrary: ds)
  case Nil
  then show ?case by (metis length_0_conv length_unpack list.size(3) mult_eq_0_iff zero_neq_numeral)
next
  case (Cons c cs)
  then obtain d ds' where ds: "ds = d # ds'" by (cases ds) auto
  with Cons.prems have "bits_msb 8 c = bits_msb 8 d" "unpack cs = unpack ds'" by auto
  moreover from this(1) have "c = d" by (intro bit_word_eqI) (auto dest: bits_msb_inj)
  ultimately show ?case using Cons.IH ds by simp
qed

lemma close_bytes:
  assumes "write_inv b" "write_flag b \<or> wbits b = []" "wbits b = unpack cs"
  shows "sink (close b) = cs" "byteCount b = length cs"
proof -
  have "unpack (sink (close b)) = unpack cs"
    using close_unpack [OF assms(1,2)] assms(3) by (simp add: padding_def)
  then show "sink (close b) = cs" by (rule unpack_inj)
  show "byteCount b = length cs" using assms by (simp add: byteCount_def write_inv_def)
qed

lemma total_BitIO [simp]: "bits (BitIO xs p) = 0" "source (BitIO xs p) = xs"
  by (simp_all add: BitIO_def)

section \<open>Properties\<close>

text \<open>
  C10. The bit reader returns what the bit writer was given: after writing any sequence of codes with any widths (each
  code fitting into its width) and closing the file, reading the same widths from the bytes of the file returns the
  codes.  The widths need not be multiples of eight, and codes may straddle bytes and the 64-bit buffer.
\<close>

theorem BitIO_roundtrip:
  assumes "\<forall>(c, n) \<in> set cs. unat c < 2 ^ n"
  shows "read_all (BitIO (sink (close (write_all (BitIO [] False) cs))) False) (map snd cs) m = ok (map fst cs)"
  by (rule read_all_bits [of _ _ "padding (length (concat (map (\<lambda>(c, n). bits_msb n c) cs)))"])
    (use assms in \<open>auto simp: write_all_close Let_def mask_less\<close>)

theorem BitIO_roundtrip_witness:
  "read_all (BitIO (sink (close (write_all (BitIO [] False) [(5, 3), (1023, 10), (0, 1), (2 ^ 62 + 3, 63)]))) False)
     [3, 10, 1, 63] 0 = ok [5, 1023, 0, 2 ^ 62 + 3]"
  using BitIO_roundtrip [of "[(5, 3), (1023, 10), (0, 1), (2 ^ 62 + 3, 63)]" 0] by simp

end
