(* ===== verification/Eckit_Base64.thy ===== *)
theory Eckit_Base64
  imports Eckit_BitIO
begin

text \<open>
  The two Base64 coders: the one on bit streams, \<^verbatim>\<open>src/eckit/io/Base64.cc\<close>, with the standard and the URL alphabet,
  and the table-driven one on memory, \<^verbatim>\<open>src/eckit/codec/detail/Base64.cc\<close>.  Both encoders are shown to compute the
  same function, the groups of six bits of the input (\<^verbatim>\<open>sextets\<close>), and each decoder to undo its encoder.
\<close>

section \<open>Base64 on bit streams\<close>

text \<open>The two arrays of the class; what the constructor does not set keeps the content of the memory.\<close>

record base64 =
  encode_arr :: "nat \<Rightarrow> 8 word"
  decode_arr :: "nat \<Rightarrow> 8 word"

definition codes_b64 :: string where
  "codes_b64 = ''ABCDEFGHIJKLMNOPQRSTUVWXYZ'' @ ''abcdefghijklmnopqrstuvwxyz'' @ ''0123456789+/''"

definition codes_url :: string where
  "codes_url = ''ABCDEFGHIJKLMNOPQRSTUVWXYZ'' @ ''abcdefghijklmnopqrstuvwxyz'' @ ''0123456789-_''"

fun fill_codes :: "string \<Rightarrow> nat \<Rightarrow> base64 \<Rightarrow> base64" where
  "fill_codes [] i B = B"
| "fill_codes (p # ps) i B =
     (let j = of_char p :: nat in
      fill_codes ps (i + 1)
        (B\<lparr>encode_arr := (encode_arr B)(i := of_char p), decode_arr := (decode_arr B)(j := of_nat i)\<rparr>))"

definition Base64 :: "bool \<Rightarrow> base64 \<Rightarrow> base64" where
  "Base64 url memory = fill_codes (if url then codes_url else codes_b64) 0 memory"

abbreviation EOI_MARKER :: "64 word" where
  "EOI_MARKER \<equiv> 256"

abbreviation equals_sign :: "64 word" where
  "equals_sign \<equiv> of_char CHR ''=''"

text \<open>Groups of six bits become characters, the last group padded with zero bits by the reader.\<close>

function encode_loop :: "base64 \<Rightarrow> bitio \<Rightarrow> bitio \<Rightarrow> (bitio \<times> bitio) result" where
  "encode_loop B bin bout =
     (case BitIO_read bin 6 EOI_MARKER of
        Inl e \<Rightarrow> Inl e
      | Inr (c, bin') \<Rightarrow>
          if c = EOI_MARKER then ok (bin', bout)
          else encode_loop B bin' (BitIO_write bout (ucast (encode_arr B (unat c))) 8))"
  by pat_completeness auto
termination
  by (relation "measure (\<lambda>(B, bin, bout). progress bin)") (auto dest: BitIO_read_progress)

definition Base64_encode :: "base64 \<Rightarrow> 8 word list \<Rightarrow> (8 word list \<times> nat) result" where
  "Base64_encode B input =
     rbind (encode_loop B (BitIO input True) (BitIO [] False)) (\<lambda>(bin, bout).
     rbind (case bitCount bin mod 6 of
              0 \<Rightarrow> ok bout
            | Suc (Suc 0) \<Rightarrow> ok (BitIO_write (BitIO_write bout equals_sign 8) equals_sign 8)
            | Suc (Suc (Suc (Suc 0))) \<Rightarrow> ok (BitIO_write bout equals_sign 8)
            | _ \<Rightarrow> throw SeriousBug) (\<lambda>bout.
     ok (sink (close bout), byteCount bout)))"

definition put_prev :: "base64 \<Rightarrow> 64 word \<Rightarrow> bitio \<Rightarrow> bitio" where
  "put_prev B prev bout = (if prev \<noteq> EOI_MARKER then BitIO_write bout (ucast (decode_arr B (unat prev))) 6 else bout)"

text \<open>
  Undefined behaviour of the source is the error \<^const>\<open>OutOfBounds\<close>: reading \<^verbatim>\<open>decode_[256]\<close> when the text starts with
  \<^verbatim>\<open>=\<close>, and the shift by \<^verbatim>\<open>6 - left\<close> when \<^verbatim>\<open>left\<close> is larger than six.
\<close>

function decode_loop :: "base64 \<Rightarrow> 64 word \<Rightarrow> 64 word \<Rightarrow> bitio \<Rightarrow> bitio \<Rightarrow> (64 word \<times> bitio) result" where
  "decode_loop B c prev bin bout =
     (if c \<noteq> EOI_MARKER then
        if c = equals_sign then
          (let left = 8 - bitCount bout mod 8 in
           if prev = EOI_MARKER \<or> left > 6 then throw OutOfBounds
           else ok (EOI_MARKER, BitIO_write bout (ucast (drop_bit (6 - left) (decode_arr B (unat prev)))) left))
        else
          (let bout' = put_prev B prev bout in
           case BitIO_read bin 8 EOI_MARKER of
             Inl e \<Rightarrow> Inl e
           | Inr (c', bin') \<Rightarrow> decode_loop B c' c bin' bout')
      else ok (prev, bout))"
  by pat_completeness auto
termination
proof (relation "measure (\<lambda>(B, c, prev, bin, bout). progress bin + of_bool (c \<noteq> EOI_MARKER))", goal_cases)
  case (2 B c prev bin bout bout' r c' bin')
  then show ?case
    using BitIO_read_progress [of bin 8 EOI_MARKER c' bin'] BitIO_read_progress_le [of bin 8 EOI_MARKER c' bin']
    by (cases "c' = EOI_MARKER") simp_all
qed simp

definition Base64_decode :: "base64 \<Rightarrow> 8 word list \<Rightarrow> (8 word list \<times> nat) result" where
  "Base64_decode B input =
     rbind (BitIO_read (BitIO input False) 8 EOI_MARKER) (\<lambda>(c, bin).
     rbind (decode_loop B c EOI_MARKER bin (BitIO [] False)) (\<lambda>(prev, bout).
     let bout' = put_prev B prev bout
     in ok (sink (close bout'), byteCount bout')))"

section \<open>Base64 of the codec\<close>

definition b64_decode_table :: "32 word list" where
  "b64_decode_table = [
    64, 64, 64, 64, 64, 64, 64, 64, 64, 64, 64, 64, 64, 64, 64, 64, 64, 64, 64, 64, 64, 64, 64, 64, 64, 64, 64, 64, 64, 64, 64, 64,
    64, 64, 64, 64, 64, 64, 64, 64, 64, 64, 64, 62, 64, 64, 64, 63, 52, 53, 54, 55, 56, 57, 58, 59, 60, 61, 64, 64, 64, 64, 64, 64,
    64, 0, 1, 2, 3, 4, 5, 6, 7, 8, 9, 10, 11, 12, 13, 14, 15, 16, 17, 18, 19, 20, 21, 22, 23, 24, 25, 64, 64, 64, 64, 64,
    64, 26, 27, 28, 29, 30, 31, 32, 33, 34, 35, 36, 37, 38, 39, 40, 41, 42, 43, 44, 45, 46, 47, 48, 49, 50, 51, 64, 64, 64, 64, 64,
    64, 64, 64, 64, 64, 64, 64, 64, 64, 64, 64, 64, 64, 64, 64, 64, 64, 64, 64, 64, 64, 64, 64, 64, 64, 64, 64, 64, 64, 64, 64, 64,
    64, 64, 64, 64, 64, 64, 64, 64, 64, 64, 64, 64, 64, 64, 64, 64, 64, 64, 64, 64, 64, 64, 64, 64, 64, 64, 64, 64, 64, 64, 64, 64,
    64, 64, 64, 64, 64, 64, 64, 64, 64, 64, 64, 64, 64, 64, 64, 64, 64, 64, 64, 64, 64, 64, 64, 64, 64, 64, 64, 64, 64, 64, 64, 64,
    64, 64, 64, 64, 64, 64, 64, 64, 64, 64, 64, 64, 64, 64, 64, 64, 64, 64, 64, 64, 64, 64, 64, 64, 64, 64, 64, 64, 64, 64, 64, 64]"

definition b64_encode_table :: "8 word list" where
  "b64_encode_table =
     map of_char (''ABCDEFGHIJKLMNOPQRSTUV'' @ ''WXYZabcdefghijklmnopqr'' @ ''stuvwxyz0123456789+/'') @ replicate 192 0"


fun codec_encode_loop :: "8 word list \<Rightarrow> 8 word list" where
  "codec_encode_loop (a # b # c # rest) =
     (let table = (\<lambda>i :: 32 word. b64_encode_table ! unat i); in0 = ucast a; in1 = ucast b; in2 = ucast c in
      [table (drop_bit 2 in0),
       table (push_bit 4 (in0 AND 0x03) OR drop_bit 4 in1),
       table (push_bit 2 (in1 AND 0x0f) OR drop_bit 6 in2),
       table (in2 AND 0x3f)] @ codec_encode_loop rest)"
| "codec_encode_loop [a] =
     (let table = (\<lambda>i :: 32 word. b64_encode_table ! unat i); in0 = ucast a in
      [table (drop_bit 2 in0), table (push_bit 4 (in0 AND 0x03)), of_char CHR ''='', of_char CHR ''=''])"
| "codec_encode_loop [a, b] =
     (let table = (\<lambda>i :: 32 word. b64_encode_table ! unat i); in0 = ucast a; in1 = ucast b in
      [table (drop_bit 2 in0), table (push_bit 4 (in0 AND 0x03) OR drop_bit 4 in1),
       table (push_bit 2 (in1 AND 0x0f)), of_char CHR ''=''])"
| "codec_encode_loop [] = []"

text \<open>The size computation wraps at 64 bits and the source checks for it.\<close>

definition codec_encode :: "8 word list \<Rightarrow> 8 word list" where
  "codec_encode data =
     (let len = length data; out_len = 4 * ((len + 2) mod 2 ^ 64 div 3) mod 2 ^ 64 in
      if out_len < len then [] else codec_encode_loop data)"

definition quad :: "8 word \<Rightarrow> 8 word \<Rightarrow> 8 word \<Rightarrow> 8 word \<Rightarrow> 8 word list" where
  "quad p0 p1 p2 p3 =
     (let table = (\<lambda>c :: 8 word. b64_decode_table ! unat c);
          n = push_bit 18 (table p0) OR push_bit 12 (table p1) OR push_bit 6 (table p2) OR table p3
      in [ucast (drop_bit 16 n), ucast (drop_bit 8 n AND 0xFF), ucast (n AND 0xFF)])"

fun quads :: "nat \<Rightarrow> 8 word list \<Rightarrow> 8 word list" where
  "quads (Suc k) (p0 # p1 # p2 # p3 # p) = quad p0 p1 p2 p3 @ quads k p"
| "quads _ _ = []"

text \<open>
  The four-character blocks, then the last block when the length is no multiple of four or the text ends in \<^verbatim>\<open>=\<close>.
  The last block is read without checking that it has two characters (\<^const>\<open>OutOfBounds\<close> otherwise).
\<close>

definition codec_decode :: "8 word list \<Rightarrow> 8 word list result" where
  "codec_decode p =
     (let len = length p;
          pad = (len > 0 \<and> (len mod 4 \<noteq> 0 \<or> p ! (len - 1) = of_char CHR ''=''));
          L = ((len + 3) div 4 - of_bool pad) * 4;
          str = quads (L div 4) p;
          table = (\<lambda>c :: 8 word. b64_decode_table ! unat c)
      in if \<not> pad then ok str
         else
           (case drop L p of
              p0 # p1 # rest \<Rightarrow>
                (let n = push_bit 18 (table p0) OR push_bit 12 (table p1); first = ucast (drop_bit 16 n) in
                 case rest of
                   p2 # _ \<Rightarrow>
                     if p2 \<noteq> of_char CHR ''='' then
                       (let n = n OR push_bit 6 (table p2) in ok (str @ [first, ucast (drop_bit 8 n AND 0xFF)]))
                     else ok (str @ [first])
                 | [] \<Rightarrow> ok (str @ [first]))
            | _ \<Rightarrow> throw OutOfBounds))"

declare encode_loop.simps [simp del] decode_loop.simps [simp del]

section \<open>Specification\<close>

text \<open>Groups of six bits, the last one filled up with zeros; the number of padding characters; the bits of a text.\<close>

fun sextets :: "bool list \<Rightarrow> 64 word list" where
  "sextets (a # b # c # d # e # f # bs) = shift_in 0 [a, b, c, d, e, f] # sextets bs"
| "sextets [] = []"
| "sextets bs = [push_bit (6 - length bs) (shift_in 0 bs)]"

definition pads :: "nat \<Rightarrow> nat" where
  "pads n = (3 - n mod 3) mod 3"

definition prev_bits :: "base64 \<Rightarrow> 64 word \<Rightarrow> bool list" where
  "prev_bits B prev = (if prev = EOI_MARKER then [] else bits_msb 6 (decode_arr B (unat prev)))"

definition char_bits :: "base64 \<Rightarrow> 8 word list \<Rightarrow> bool list" where
  "char_bits B cs = concat (map (\<lambda>c. bits_msb 6 (decode_arr B (unat c))) cs)"

definition next_char :: "8 word list \<Rightarrow> 64 word" where
  "next_char cs = (case cs of [] \<Rightarrow> EOI_MARKER | c # _ \<Rightarrow> ucast c)"

section \<open>Encoding\<close>

lemma sextets_take:
  "bs \<noteq> [] \<Longrightarrow> sextets bs = push_bit (6 - length (take 6 bs)) (shift_in 0 (take 6 bs)) # sextets (drop 6 bs)"
  by (cases bs rule: sextets.cases) simp_all

lemma encode_loop_spec:
  "read_inv bin \<Longrightarrow> padded bin \<or> rbits bin = [] \<Longrightarrow> write_inv bout \<Longrightarrow>
   \<exists>bin' bout'. encode_loop B bin bout = ok (bin', bout') \<and> write_inv bout' \<and>
     wbits bout' = wbits bout @ unpack (map (\<lambda>c. encode_arr B (unat c)) (sextets (rbits bin))) \<and>
     bitCount bin' = bits_total bin \<and> (write_flag bout \<or> rbits bin \<noteq> [] \<longrightarrow> write_flag bout')"
proof (induction B bin bout rule: encode_loop.induct)
  case (1 B bin bout)
  note eq = encode_loop.simps [of B bin bout]
  show ?case
  proof (cases "rbits bin = []")
    case True
    obtain bin' where r: "BitIO_read bin 6 EOI_MARKER = ok (EOI_MARKER, bin')" "rbits bin' = []"
      using br.get_eof [of bin 6 EOI_MARKER] 1(2) True by auto
    moreover have "bits_total bin' = bits_total bin" using BitIO_read_refines(2) [OF 1(2) r(1)] by simp
    moreover have "source bin' = []" using r(2) by (cases "source bin'") (simp_all add: rbits_def)
    ultimately show ?thesis using 1(4) True by (simp add: eq bitCount_def)
  next
    case False
    let ?c = "push_bit (6 - length (take 6 (rbits bin))) (shift_in 0 (take 6 (rbits bin)))"
    let ?bout = "BitIO_write bout (ucast (encode_arr B (unat ?c))) 8"
    have "\<exists>bin'. BitIO_read bin 6 EOI_MARKER = ok (?c, bin') \<and> rbits bin' = drop 6 (rbits bin) \<and> read_inv bin' \<and>
        (padded bin' \<or> rbits bin' = [])"
    proof (cases "6 \<le> length (rbits bin)")
      case True
      then show ?thesis using br.get_full [of bin 6 EOI_MARKER] 1(2,3) False by (auto simp: min_def)
    next
      case small: False
      then show ?thesis using br.get_padded [of bin 6 EOI_MARKER] 1(2,3) False by (auto simp: min_def)
    qed
    then obtain bin' where r: "BitIO_read bin 6 EOI_MARKER = ok (?c, bin')" "rbits bin' = drop 6 (rbits bin)"
      "read_inv bin'" "padded bin' \<or> rbits bin' = []" by blast
    have "\<not> bit ?c 8" by (auto simp: bit_simps dest!: bit_shift_in_0)
    moreover have "bit EOI_MARKER 8" by simp
    ultimately have c: "?c \<noteq> EOI_MARKER" by metis
    note w = BitIO_write_wbits [OF 1(4)]
    have t: "bits_total bin' = bits_total bin" using BitIO_read_refines(2) [OF 1(2) r(1)] by simp
    from 1(1) [OF r(1) refl c r(3,4) w(1)] obtain bin2 bout2 where
      "encode_loop B bin' ?bout = ok (bin2, bout2)" "write_inv bout2" "write_flag bout2" "bitCount bin2 = bits_total bin'"
      "wbits bout2 = wbits ?bout @ unpack (map (\<lambda>c. encode_arr B (unat c)) (sextets (rbits bin')))"
      using w(4) by blast
    then show ?thesis using r c w(2) t by (simp add: eq sextets_take [OF False])
  qed
qed


lemma bits_mod_6: "8 * n mod 6 = 2 * (n mod 3)" for n :: nat
  by presburger

lemma Base64_encode_eq:
  defines "out \<equiv> \<lambda>B xs. map (\<lambda>c. encode_arr B (unat c)) (sextets (unpack xs)) @ replicate (pads (length xs)) (of_char CHR ''='')"
  shows "Base64_encode B xs = ok (out B xs, length (out B xs))"
proof -
  obtain bin bout where e: "encode_loop B (BitIO xs True) (BitIO [] False) = ok (bin, bout)" "write_inv bout"
    "wbits bout = unpack (map (\<lambda>c. encode_arr B (unat c)) (sextets (unpack xs)))"
    "bitCount bin = 8 * length xs" "xs \<noteq> [] \<longrightarrow> write_flag bout"
    using encode_loop_spec [of "BitIO xs True" "BitIO [] False" B] by (cases xs) auto
  note w = BitIO_write_wbits
  have eq: "bits_msb 8 (61 :: 64 word) = bits_msb 8 (61 :: 8 word)"
    by code_simp
  consider "length xs mod 3 = 0" | "length xs mod 3 = 1" | "length xs mod 3 = 2" by linarith
  then show ?thesis
  proof cases
    case 1
    then have "8 * length xs mod 6 = 0" "pads (length xs) = 0" by (simp_all add: pads_def bits_mod_6)
    moreover have "write_flag bout \<or> wbits bout = []" using e(3,5) by (cases xs) auto
    ultimately show ?thesis using close_bytes [OF e(2) _ e(3)] by (simp add: Base64_encode_def e(1,4) out_def)
  next
    case 2
    then have "8 * length xs mod 6 = Suc (Suc 0)" "pads (length xs) = 2" by (simp_all add: pads_def bits_mod_6 numeral_2_eq_2)
    then show ?thesis
      using close_bytes [of "BitIO_write (BitIO_write bout equals_sign 8) equals_sign 8" "out B xs"] w [OF e(2)] w [OF w(1) [OF e(2)]]
      by (simp add: Base64_encode_def e(1,3,4) out_def eq numeral_2_eq_2)
  next
    case 3
    then have "8 * length xs mod 6 = Suc (Suc (Suc (Suc 0)))" "pads (length xs) = 1" by (simp_all add: pads_def bits_mod_6)
    then show ?thesis
      using close_bytes [of "BitIO_write bout equals_sign 8" "out B xs"] w [OF e(2)]
      by (simp add: Base64_encode_def e(1,3,4) out_def eq)
  qed
qed

lemma encode_arr_fill:
  "encode_arr (fill_codes ps k B) i = (if k \<le> i \<and> i < k + length ps then of_char (ps ! (i - k)) else encode_arr B i)"
  by (induction ps k B rule: fill_codes.induct) (auto simp: Let_def nth_Cons')

lemma decode_arr_fill:
  "distinct ps \<Longrightarrow> i < length ps \<Longrightarrow> decode_arr (fill_codes ps k B) (of_char (ps ! i)) = of_nat (k + i)"
proof -
  have other: "decode_arr (fill_codes ps k B) j = decode_arr B j" if "j \<notin> of_char ` set ps" for ps k B j
    using that by (induction ps k B rule: fill_codes.induct) (auto simp: Let_def)
  have inj: "of_char c = (of_char d :: nat) \<Longrightarrow> c = d" for c d :: char by (simp add: of_char_eq_iff)
  show "distinct ps \<Longrightarrow> i < length ps \<Longrightarrow> ?thesis"
  proof (induction ps k B arbitrary: i rule: fill_codes.induct)
    case (2 p ps k B)
    show ?case
    proof (cases i)
      case 0
      have "of_char p \<notin> (of_char ` set ps :: nat set)" using 2(2) inj by auto
      then show ?thesis using 0 other by (simp add: Let_def)
    next
      case (Suc j)
      then show ?thesis using 2 by (simp add: Let_def)
    qed
  qed simp
qed


lemma codes_length [simp]: "length codes_b64 = 64" "length codes_url = 64"
  by (simp_all add: codes_b64_def codes_url_def)

lemma encode_table_eq: "i < 64 \<Longrightarrow> encode_arr (Base64 False memory) i = b64_encode_table ! i"
proof -
  assume i: "i < 64"
  have "''ABCDEFGHIJKLMNOPQRSTUV'' @ ''WXYZabcdefghijklmnopqr'' @ ''stuvwxyz0123456789+/'' = codes_b64"
    by (simp add: codes_b64_def)
  then have "b64_encode_table ! i = (map of_char codes_b64 @ replicate 192 0) ! i" by (simp only: b64_encode_table_def)
  also have "\<dots> = of_char (codes_b64 ! i)" using i by (simp only: nth_append length_map codes_length nth_map if_True)
  finally have "b64_encode_table ! i = of_char (codes_b64 ! i)" .
  then show ?thesis using i by (simp add: Base64_def encode_arr_fill)
qed

lemma bits_msb_8: "bits_msb 8 (w :: 'a::len word) = [bit w 7, bit w 6, bit w 5, bit w 4, bit w 3, bit w 2, bit w 1, bit w 0]"
  by (simp add: bits_msb_def eval_nat_numeral)

lemma bits_msb_6: "bits_msb 6 (w :: 'a::len word) = [bit w 5, bit w 4, bit w 3, bit w 2, bit w 1, bit w 0]"
  by (simp add: bits_msb_def eval_nat_numeral)

lemma sextet_index:
  assumes "bits_msb 6 (w :: 32 word) = bs" "w AND mask 6 = w"
  shows "unat (shift_in 0 bs) = unat w"
proof -
  have "bits_msb 6 (ucast w :: 64 word) = bs" unfolding assms(1) [symmetric] by (rule bits_msb_cong) (simp add: bit_simps)
  then have "shift_in 0 bs = (ucast w :: 64 word) AND mask 6" using shift_in_bits_msb [of 0 6 "ucast w"] by simp
  also have "\<dots> = ucast (w AND mask 6)" by (rule bit_word_eqI) (auto simp: bit_simps)
  finally have "shift_in 0 bs = ucast w" using assms(2) by simp
  moreover have "unat w < 2 ^ 64" using unsigned_less [of w] by (rule less_trans) simp
  ultimately show ?thesis by (simp add: unsigned_ucast_eq take_bit_nat_eq_self)
qed

lemmas mask_consts = mask_eq_exp_minus_1 [where 'a = "32 word", of 2, simplified, symmetric]
  mask_eq_exp_minus_1 [where 'a = "32 word", of 4, simplified, symmetric]
  mask_eq_exp_minus_1 [where 'a = "32 word", of 6, simplified, symmetric]

lemma sextet_1: "unat (shift_in 0 [bit a 7, bit a 6, bit a 5, bit a 4, bit a 3, bit a 2]) = unat (drop_bit 2 (ucast (a :: 8 word) :: 32 word))"
  by (rule sextet_index) (auto simp: bits_msb_6 bit_simps intro!: bit_word_eqI dest!: bit8_less)

lemma sextet_2: "unat (shift_in 0 [bit a 1, bit a 0, bit b 7, bit b 6, bit b 5, bit b 4]) =
   unat (push_bit 4 (ucast (a :: 8 word) AND 0x03) OR drop_bit 4 (ucast (b :: 8 word) :: 32 word))"
  unfolding mask_consts
  by (rule sextet_index) (auto simp: bits_msb_6 bit_simps bit8_ge intro!: bit_word_eqI dest!: bit8_less)

lemma sextet_3: "unat (shift_in 0 [bit b 3, bit b 2, bit b 1, bit b 0, bit c 7, bit c 6]) =
   unat (push_bit 2 (ucast (b :: 8 word) AND 0x0f) OR drop_bit 6 (ucast (c :: 8 word) :: 32 word))"
  unfolding mask_consts
  by (rule sextet_index) (auto simp: bits_msb_6 bit_simps bit8_ge intro!: bit_word_eqI dest!: bit8_less)

lemma sextet_4: "unat (shift_in 0 [bit c 5, bit c 4, bit c 3, bit c 2, bit c 1, bit c 0]) =
   unat (ucast (c :: 8 word) AND 0x3f :: 32 word)"
  unfolding mask_consts
  by (rule sextet_index) (auto simp: bits_msb_6 bit_simps intro!: bit_word_eqI dest: bit8_less)

lemma sextet_2_last: "unat (shift_in 0 [bit a 1, bit a 0, False, False, False, False]) =
   unat (push_bit 4 (ucast (a :: 8 word) AND 0x03 :: 32 word))"
  unfolding mask_consts
  by (rule sextet_index) (auto simp: bits_msb_6 bit_simps intro!: bit_word_eqI dest: bit8_less)

lemma sextet_3_last: "unat (shift_in 0 [bit b 3, bit b 2, bit b 1, bit b 0, False, False]) =
   unat (push_bit 2 (ucast (b :: 8 word) AND 0x0f :: 32 word))"
  unfolding mask_consts
  by (rule sextet_index) (auto simp: bits_msb_6 bit_simps intro!: bit_word_eqI dest: bit8_less)

lemmas sextet_simps = sextet_1 sextet_2 sextet_3 sextet_4 sextet_2_last sextet_3_last

lemma unat_less_64:
  assumes "\<And>i. bit (w :: 64 word) i \<Longrightarrow> i < 6"
  shows "unat w < 64"
proof -
  have "w = w AND mask 6" using assms by (intro bit_word_eqI) (auto simp: bit_simps)
  then have "w = take_bit 6 w" by (simp add: take_bit_eq_mask)
  moreover have "unat (take_bit 6 w) < 2 ^ 6" unfolding unsigned_take_bit_eq by (rule take_bit_nat_less_exp)
  ultimately show ?thesis by simp
qed

lemma sextets_less: "c \<in> set (sextets bs) \<Longrightarrow> unat c < 64"
proof (induction bs rule: measure_induct_rule [where f = length])
  case (less bs)
  show ?case
  proof (cases "bs = []")
    case False
    let ?c = "push_bit (6 - length (take 6 bs)) (shift_in 0 (take 6 bs))"
    have "unat ?c < 64" by (rule unat_less_64) (auto simp: bit_simps dest!: bit_shift_in_0)
    then show ?thesis using less(1) [of "drop 6 bs"] less(2) False by (auto simp: sextets_take [OF False])
  qed (use less(2) in simp)
qed

lemma pads_simps [simp]: "pads (Suc (Suc (Suc n))) = pads n" "pads 0 = 0" "pads (Suc 0) = 2" "pads (Suc (Suc 0)) = 1"
  by (simp_all add: pads_def)

lemma codec_encode_loop_eq:
  "codec_encode_loop xs = map (\<lambda>c. b64_encode_table ! unat c) (sextets (unpack xs)) @ replicate (pads (length xs)) (of_char CHR ''='')"
proof (induction xs rule: codec_encode_loop.induct)
  case (1 a b c rest)
  show ?case
    unfolding codec_encode_loop.simps Let_def unpack_Cons bits_msb_8 append.simps sextets.simps list.map sextet_simps
    by (simp only: 1 list.size pads_simps add_0_right add_Suc_right append.simps)
next
  case (2 a)
  have "unat (push_bit 4 (shift_in 0 [bit a 1, bit a 0])) = unat (push_bit 4 (ucast (a :: 8 word) AND 0x03 :: 32 word))"
    using sextet_2_last [of a] push_shift_in [of 4 "[bit a 1, bit a 0]"] by (simp add: eval_nat_numeral)
  then show ?case
    unfolding codec_encode_loop.simps Let_def unpack_Cons unpack_Nil bits_msb_8 append.simps sextets.simps list.map sextet_simps
    by (simp add: numeral_2_eq_2)
next
  case (3 a b)
  have "unat (push_bit 2 (shift_in 0 [bit b 3, bit b 2, bit b 1, bit b 0])) = unat (push_bit 2 (ucast (b :: 8 word) AND 0x0f :: 32 word))"
    using sextet_3_last [of b] push_shift_in [of 2 "[bit b 3, bit b 2, bit b 1, bit b 0]"] by (simp add: eval_nat_numeral)
  then show ?case
    unfolding codec_encode_loop.simps Let_def unpack_Cons unpack_Nil bits_msb_8 append.simps sextets.simps list.map sextet_simps
    by (simp add: numeral_2_eq_2)
qed simp


section \<open>Decoding\<close>

lemma unat_ucast_8 [simp]: "unat (ucast (c :: 8 word) :: 64 word) = unat c"
proof -
  have "unat c < 2 ^ 64" using unsigned_less [of c] by (rule less_trans) simp
  then show ?thesis by (simp add: unsigned_ucast_eq take_bit_nat_eq_self)
qed

lemma ucast_8_neq_256 [simp]: "(ucast (c :: 8 word) :: 64 word) \<noteq> EOI_MARKER"
proof
  assume "(ucast c :: 64 word) = EOI_MARKER"
  then have "unat c = unat EOI_MARKER" by (metis unat_ucast_8)
  then show False using unsigned_less [of c, where 'a = nat] by simp
qed

lemma ucast_8_eq_61 [simp]: "(ucast (c :: 8 word) :: 64 word) = 61 \<longleftrightarrow> c = 61"
proof
  assume "(ucast c :: 64 word) = 61"
  then have "unat c = unat (61 :: 64 word)" by (metis unat_ucast_8)
  then show "c = 61" by (simp add: word_unat_eq_iff)
qed simp

lemma read_char:
  assumes "read_inv bin" "\<not> padded bin" "rbits bin = unpack cs"
  obtains bin' where "BitIO_read bin 8 EOI_MARKER = ok (next_char cs, bin')" "read_inv bin'" "\<not> padded bin'"
    "rbits bin' = unpack (tl cs)"
proof (cases cs)
  case Nil
  with assms(3) have "length (rbits bin) < 8" "rbits bin = []" by simp_all
  then obtain bin' where "BitIO_read bin 8 EOI_MARKER = ok (EOI_MARKER, bin')" "rbits bin' = []" "read_inv bin'"
    "padded bin' = padded bin"
    using br.get_eof [OF assms(1), of 8 EOI_MARKER] by auto
  with Nil assms(2) show ?thesis by (intro that [of bin']) (simp_all add: next_char_def)
next
  case (Cons c ds)
  have "(ucast c :: 64 word) AND mask 8 = ucast c"
    by (rule bit_word_eqI) (auto simp: bit_simps dest: bit8_less)
  moreover have "rbits bin = bits_msb 8 (ucast c :: 64 word) @ unpack ds" using assms(3) Cons by simp
  ultimately obtain bin' where "BitIO_read bin 8 EOI_MARKER = ok (ucast c, bin')" "rbits bin' = unpack ds" "read_inv bin'"
    "padded bin' = padded bin"
    using br.get_code [OF assms(1), of 8 "ucast c" "unpack ds" EOI_MARKER] by metis
  with Cons assms(2) show ?thesis by (intro that [of bin']) (simp_all add: next_char_def)
qed

abbreviation flag_ok :: "bitio \<Rightarrow> bool" where
  "flag_ok b \<equiv> write_flag b \<or> wbits b = []"

lemma put_prev_wbits:
  assumes "write_inv bout"
  shows "write_inv (put_prev B prev bout)" "wbits (put_prev B prev bout) = wbits bout @ prev_bits B prev"
    "flag_ok bout \<Longrightarrow> flag_ok (put_prev B prev bout)"
  using BitIO_write_wbits [OF assms(1)] assms(1) by (simp_all add: put_prev_def prev_bits_def)

lemma decode_loop_run:
  assumes "read_inv bin" "\<not> padded bin" "rbits bin = unpack (cs @ tail)" "write_inv bout" "flag_ok bout"
    "61 \<notin> set (c # cs)"
  shows "\<exists>bin' bout'. decode_loop B (ucast c) prev bin bout =
            decode_loop B (next_char tail) (ucast (last (c # cs))) bin' bout' \<and>
          write_inv bout' \<and> flag_ok bout' \<and> wbits bout' = wbits bout @ prev_bits B prev @ char_bits B (butlast (c # cs))"
  using assms
proof (induction cs arbitrary: c prev bin bout)
  case Nil
  obtain bin' where r: "BitIO_read bin 8 EOI_MARKER = ok (next_char tail, bin')"
    using read_char [OF Nil(1-3)] by auto
  have "decode_loop B (ucast c) prev bin bout = decode_loop B (next_char tail) (ucast c) bin' (put_prev B prev bout)"
    using r Nil(6) by (subst decode_loop.simps) (simp add: Let_def)
  then show ?case using put_prev_wbits [OF Nil(4), of B prev] Nil(5)
    by (intro exI [of _ bin'] exI [of _ "put_prev B prev bout"]) (simp add: char_bits_def)
next
  case (Cons d cs)
  obtain bin' where r: "BitIO_read bin 8 EOI_MARKER = ok (ucast d, bin')" "read_inv bin'" "\<not> padded bin'"
    "rbits bin' = unpack (cs @ tail)"
    using read_char [OF Cons(2-4)] by (auto simp: next_char_def)
  note w = put_prev_wbits [OF Cons(5), of B prev]
  have "decode_loop B (ucast c) prev bin bout = decode_loop B (ucast d) (ucast c) bin' (put_prev B prev bout)"
    using r(1) Cons(7) by (subst decode_loop.simps) (simp add: Let_def)
  moreover have "61 \<notin> set (d # cs)" using Cons(7) by simp
  ultimately show ?case using Cons(1) [OF r(2-4) w(1) w(3) [OF Cons(6)], of d "ucast c"] w(2)
    by (simp add: char_bits_def prev_bits_def)
qed

lemma decode_run:
  assumes "61 \<notin> set cs" "cs \<noteq> []"
  obtains bin' bout where
    "Base64_decode B (cs @ tail) = rbind (decode_loop B (next_char tail) (ucast (last cs)) bin' bout) (\<lambda>(prev, bout).
       let bout' = put_prev B prev bout in ok (sink (close bout'), byteCount bout'))"
    "write_inv bout" "flag_ok bout" "wbits bout = char_bits B (butlast cs)"
proof -
  from assms obtain c ds where cs: "cs = c # ds" by (cases cs) auto
  obtain bin where r: "BitIO_read (BitIO (cs @ tail) False) 8 EOI_MARKER = ok (ucast c, bin)" "read_inv bin" "\<not> padded bin"
    "rbits bin = unpack (ds @ tail)"
    using read_char [of "BitIO (cs @ tail) False" "cs @ tail"] by (auto simp: next_char_def cs)
  from decode_loop_run [OF r(2-4), of "BitIO [] False" c B EOI_MARKER] assms(1)
  obtain bin' bout where "decode_loop B (ucast c) EOI_MARKER bin (BitIO [] False) =
            decode_loop B (next_char tail) (ucast (last cs)) bin' bout" "write_inv bout" "flag_ok bout"
     "wbits bout = char_bits B (butlast cs)"
    by (auto simp: cs prev_bits_def simp del: last.simps butlast.simps)
  with r(1) show ?thesis by (intro that [of bin' bout]) (simp_all add: Base64_decode_def)
qed

lemma char_bits_butlast: "cs \<noteq> [] \<Longrightarrow> char_bits B cs = char_bits B (butlast cs) @ bits_msb 6 (decode_arr B (unat (last cs)))"
  by (induction cs) (auto simp: char_bits_def)

lemma Base64_decode_full:
  assumes "61 \<notin> set cs" "char_bits B cs = unpack xs"
  shows "Base64_decode B cs = ok (xs, length xs)"
proof (cases "cs = []")
  case True
  then have "xs = []" using assms(2) by (cases xs) (auto simp: char_bits_def)
  obtain bin where "BitIO_read (BitIO [] False) 8 EOI_MARKER = ok (EOI_MARKER, bin)"
    using read_char [of "BitIO [] False" "[]"] by (auto simp: next_char_def)
  then show ?thesis using True \<open>xs = []\<close> close_bytes [of "BitIO [] False" "[]"]
    by (simp add: Base64_decode_def decode_loop.simps put_prev_def)
next
  case False
  obtain bin' bout where d: "Base64_decode B cs = rbind (decode_loop B EOI_MARKER (ucast (last cs)) bin' bout) (\<lambda>(prev, bout).
       let bout' = put_prev B prev bout in ok (sink (close bout'), byteCount bout'))"
    "write_inv bout" "flag_ok bout" "wbits bout = char_bits B (butlast cs)"
    using decode_run [OF assms(1) False, of B "[]"] by (auto simp: next_char_def)
  note w = put_prev_wbits [OF d(2), of B "ucast (last cs)"]
  have "wbits (put_prev B (ucast (last cs)) bout) = unpack xs"
    using w(2) d(4) char_bits_butlast [OF False, of B] assms(2) by (simp add: prev_bits_def)
  then show ?thesis using close_bytes [OF w(1) w(3) [OF d(3)]] d(1) by (simp add: decode_loop.simps)
qed

lemma left_over:
  fixes m :: nat
  assumes "6 * Suc m mod 8 \<noteq> 6"
  shows "8 - 6 * m mod 8 \<le> 6" "6 * m + (8 - 6 * m mod 8) = 8 * (6 * Suc m div 8)"
  using assms by presburger+

lemma Base64_decode_padded:
  assumes "61 \<notin> set cs" "cs \<noteq> []" "6 * length cs mod 8 \<noteq> 6" "take (8 * (6 * length cs div 8)) (char_bits B cs) = unpack xs"
  shows "Base64_decode B (cs @ 61 # tail) = ok (xs, length xs)"
proof -
  obtain bin' bout where d: "Base64_decode B (cs @ 61 # tail) = rbind (decode_loop B 61 (ucast (last cs)) bin' bout) (\<lambda>(prev, bout).
       let bout' = put_prev B prev bout in ok (sink (close bout'), byteCount bout'))"
    "write_inv bout" "flag_ok bout" "wbits bout = char_bits B (butlast cs)"
    using decode_run [OF assms(1,2), of B "61 # tail"] by (auto simp: next_char_def)
  let ?d = "decode_arr B (unat (last cs))"
  define left where "left = 8 - bitCount bout mod 8"
  have bc: "bitCount bout = 6 * (length cs - 1)"
    using d(2,4) by (simp add: write_inv_def bitCount_def char_bits_def length_concat comp_def sum_list_triv)
  obtain m where "length cs = Suc m" using assms(2) by (cases cs) auto
  then have left: "left \<le> 6" "6 * (length cs - 1) + left = 8 * (6 * length cs div 8)"
    using left_over [of m] assms(3) by (simp_all add: left_def bc)
  let ?bout = "BitIO_write bout (ucast (drop_bit (6 - left) ?d)) left"
  note w = BitIO_write_wbits [OF d(2)]
  have "wbits ?bout = char_bits B (butlast cs) @ take left (bits_msb 6 ?d)"
    using w(2) d(4) left(1) by (simp add: take_bits_msb)
  also have "\<dots> = take (8 * (6 * length cs div 8)) (char_bits B cs)"
    unfolding left(2) [symmetric] char_bits_butlast [OF assms(2)]
    by (simp add: char_bits_def length_concat comp_def sum_list_triv)
  finally have "wbits ?bout = unpack xs" using assms(4) by simp
  then show ?thesis using close_bytes [OF w(1) _, of _ left xs] w(4) d(1) left(1)
    by (simp add: decode_loop.simps [of B 61] left_def [symmetric] put_prev_def [of B EOI_MARKER])
qed


lemma sextets_bits:
  "\<exists>k < 6. concat (map (bits_msb 6) (sextets bs)) = bs @ replicate k False"
proof (induction bs rule: measure_induct_rule [where f = length])
  case (less bs)
  show ?case
  proof (cases "bs = []")
    case False
    let ?t = "take 6 bs"
    have "bits_msb 6 (push_bit (6 - length ?t) (shift_in 0 ?t)) = ?t @ replicate (6 - length ?t) False"
      unfolding push_shift_in using bits_msb_shift_in [of "?t @ replicate (6 - length ?t) False"] by simp
    moreover obtain k where "k < 6" and "concat (map (bits_msb 6) (sextets (drop 6 bs))) = drop 6 bs @ replicate k False"
      using less [of "drop 6 bs"] False by auto
    moreover have "bs = take 6 bs @ drop 6 bs" by simp
    ultimately show ?thesis
    proof (cases "6 \<le> length bs")
      case True
      with \<open>k < 6\<close> \<open>concat _ = _\<close> \<open>bits_msb 6 _ = _\<close> show ?thesis
        by (intro exI [of _ k]) (simp add: sextets_take [OF False])
    next
      case small: False
      with \<open>bits_msb 6 _ = _\<close> False show ?thesis
        by (intro exI [of _ "6 - length bs"]) (simp add: sextets_take [OF False])
    qed
  qed simp
qed

lemma length_sextets: "length (sextets bs) = (length bs + 5) div 6"
proof -
  obtain k where k: "k < 6" "concat (map (bits_msb 6) (sextets bs)) = bs @ replicate k False"
    using sextets_bits by blast
  have "6 * length (sextets bs) = length (concat (map (bits_msb 6) (sextets bs)))"
    by (simp add: length_concat comp_def sum_list_triv)
  with k show ?thesis by simp
qed

abbreviation codes :: "bool \<Rightarrow> string" where
  "codes url \<equiv> if url then codes_url else codes_b64"

lemma codes_distinct: "distinct (codes url)" and codes_equals: "CHR ''='' \<notin> set (codes url)"
  by (simp_all add: codes_b64_def codes_url_def)

lemma unat_of_char: "unat (of_char c :: 8 word) = of_char c"
proof -
  have "of_char c = (of_nat (of_char c) :: 8 word)" by (simp add: of_nat_of_char)
  moreover have "of_char c < (256 :: nat)" by (rule nat_of_char_less_256)
  ultimately show ?thesis by (simp add: unsigned_of_nat take_bit_nat_eq_self)
qed

lemma decode_encode_char:
  assumes "i < 64"
  shows "encode_arr (Base64 url mem) i = of_char (codes url ! i)"
    and "decode_arr (Base64 url mem) (unat (encode_arr (Base64 url mem) i)) = of_nat i"
proof -
  show e: "encode_arr (Base64 url mem) i = of_char (codes url ! i)"
    using assms by (simp add: Base64_def encode_arr_fill)
  have "unat (of_char (codes url ! i) :: 8 word) = of_char (codes url ! i)" by (rule unat_of_char)
  then show "decode_arr (Base64 url mem) (unat (encode_arr (Base64 url mem) i)) = of_nat i"
    using decode_arr_fill [OF codes_distinct [of url], of i 0 mem] assms unfolding e by (simp add: Base64_def)
qed

lemma encoded_not_equals: "i < 64 \<Longrightarrow> encode_arr (Base64 url mem) i \<noteq> 61"
proof
  assume i: "i < 64" and "encode_arr (Base64 url mem) i = 61"
  then have "(of_char (codes url ! i) :: 8 word) = of_char CHR ''=''" by (simp add: decode_encode_char(1))
  then have "of_char (codes url ! i) = (of_char CHR ''='' :: nat)" by (metis unat_of_char)
  then have "codes url ! i = CHR ''=''" by (simp only: of_char_eq_iff)
  moreover have "codes url ! i \<in> set (codes url)" using i by (intro nth_mem) simp
  ultimately show False using codes_equals [of url] by simp
qed


lemma char_bits_encoded:
  fixes ss :: "64 word list"
  assumes "\<forall>c \<in> set ss. unat c < 64"
  shows "char_bits (Base64 url mem) (map (\<lambda>c. encode_arr (Base64 url mem) (unat c)) ss) = concat (map (bits_msb 6) ss)"
proof -
  have "bits_msb 6 (of_nat (unat c) :: 8 word) = bits_msb 6 c" for c :: "64 word"
    by (rule bits_msb_cong) (simp add: bit_simps)
  then show ?thesis using assms by (induction ss) (simp_all add: char_bits_def decode_encode_char(2))
qed

lemma Base64_decode_encode:
  "Base64_decode (Base64 url mem)
     (map (\<lambda>c. encode_arr (Base64 url mem) (unat c)) (sextets (unpack xs)) @ replicate (pads (length xs)) 61) = ok (xs, length xs)"
proof -
  let ?B = "Base64 url mem"
  let ?ss = "sextets (unpack xs)"
  let ?cs = "map (\<lambda>c. encode_arr ?B (unat c)) ?ss"
  obtain k where k: "k < 6" "concat (map (bits_msb 6) ?ss) = unpack xs @ replicate k False" using sextets_bits by blast
  have b: "char_bits ?B ?cs = unpack xs @ replicate k False" using char_bits_encoded sextets_less k(2) by metis
  have ne: "61 \<notin> set ?cs" using encoded_not_equals sextets_less by fastforce
  have l: "length ?cs = (8 * length xs + 5) div 6" by (simp add: length_sextets)
  have len: "length (char_bits ?B ?cs) = 6 * length ?cs" by (simp add: char_bits_def length_concat comp_def sum_list_triv)
  show ?thesis
  proof (cases "pads (length xs) = 0")
    case True
    then have "length xs mod 3 = 0" by (simp add: pads_def) presburger
    then have "6 * length ?cs = 8 * length xs" unfolding l by presburger
    then have "k = 0" using b len by simp
    then show ?thesis using Base64_decode_full [OF ne] b True by simp
  next
    case False
    then obtain j where j: "replicate (pads (length xs)) (61 :: 8 word) = 61 # replicate j 61" by (metis not0_implies_Suc replicate_Suc)
    have "length xs mod 3 \<noteq> 0" using False unfolding pads_def by presburger
    then have "6 * length ?cs mod 8 \<noteq> 6" "8 * (6 * length ?cs div 8) = 8 * length xs" "?cs \<noteq> []"
      unfolding l by (presburger, presburger, auto simp flip: length_0_conv simp: length_sextets)
    then show ?thesis using Base64_decode_padded [OF ne, of ?B xs] b unfolding j by simp
  qed
qed

lemma b64_tables: "i < 64 \<Longrightarrow> b64_decode_table ! unat (b64_encode_table ! i) = of_nat i"
proof -
  have "list_all (\<lambda>i. b64_decode_table ! unat (b64_encode_table ! i) = of_nat i) [0..<64]"
    by code_simp
  moreover assume "i < 64"
  ultimately show ?thesis by (simp add: list_all_iff)
qed


lemma codec_decode_Cons:
  assumes "e \<noteq> []"
  shows "codec_decode (w # x # y # z # e) = rbind (codec_decode e) (\<lambda>r. ok (quad w x y z @ r))"
proof -
  define pad where "pad = (length e mod 4 \<noteq> 0 \<or> e ! (length e - 1) = 61)"
  define k where "k = (length e + 3) div 4 - of_bool pad"
  have pad: "(0 < length (w # x # y # z # e) \<and> (length (w # x # y # z # e) mod 4 \<noteq> 0 \<or>
      (w # x # y # z # e) ! (length (w # x # y # z # e) - 1) = of_char CHR ''='')) = pad"
    using assms by (simp add: pad_def nth_Cons')
  have "0 < (length e + 3) div 4" using assms by (cases e) simp_all
  moreover have "(length (w # x # y # z # e) + 3) div 4 = Suc ((length e + 3) div 4)"
    using div_add_self2 [of 4 "length e + 3"] by (simp add: add.commute)
  ultimately have k: "(length (w # x # y # z # e) + 3) div 4 - of_bool pad = Suc k" by (simp add: k_def)
  have pad0: "(0 < length e \<and> (length e mod 4 \<noteq> 0 \<or> e ! (length e - 1) = of_char CHR ''='')) = pad"
    using assms by (simp add: pad_def)
  have "drop (Suc k * 4) (w # x # y # z # e) = drop (k * 4) e" by (simp add: eval_nat_numeral)
  then show ?thesis
    unfolding codec_decode_def Let_def pad k pad0 k_def [symmetric]
    by (auto split: list.splits)
qed

lemma quad_encoded:
  assumes "unat (w :: 32 word) < 64" "unat (x :: 32 word) < 64" "unat (y :: 32 word) < 64" "unat (z :: 32 word) < 64"
  shows "quad (b64_encode_table ! unat w) (b64_encode_table ! unat x) (b64_encode_table ! unat y) (b64_encode_table ! unat z) =
    (let n = push_bit 18 w OR push_bit 12 x OR push_bit 6 y OR z
      in [ucast (drop_bit 16 n), ucast (drop_bit 8 n AND 0xFF), ucast (n AND 0xFF)])"
  using assms by (simp add: quad_def b64_tables)


lemmas byte_bits = bit_simps bit8_ge

lemma bytes_of_sextets:
  fixes a b c :: "8 word"
  defines "n \<equiv> push_bit 18 (drop_bit 2 (ucast a :: 32 word)) OR push_bit 12 (push_bit 4 (ucast a AND 0x03) OR drop_bit 4 (ucast b)) OR
     push_bit 6 (push_bit 2 (ucast b AND 0x0f) OR drop_bit 6 (ucast c)) OR (ucast c AND 0x3f)"
  shows "(ucast (drop_bit 16 n) :: 8 word) = a" "(ucast (drop_bit 8 n AND 0xFF) :: 8 word) = b" "(ucast (n AND 0xFF) :: 8 word) = c"
proof -
  have f: "(0xFF :: 32 word) = mask 8" by (simp add: mask_eq_exp_minus_1)
  have "list_all (\<lambda>i. bit n i = (if i < 8 then bit c i else if i < 16 then bit b (i - 8) else bit a (i - 16))) [0..<24]"
    unfolding n_def mask_consts by (simp add: upt_rec bit_simps bit8_ge, simp add: eval_nat_numeral)
  then have low: "bit n i = (if i < 8 then bit c i else if i < 16 then bit b (i - 8) else bit a (i - 16))" if "i < 24" for i
    using that by (simp add: list_all_iff)
  show "(ucast (drop_bit 16 n) :: 8 word) = a" "(ucast (drop_bit 8 n AND 0xFF) :: 8 word) = b" "(ucast (n AND 0xFF) :: 8 word) = c"
    unfolding f by (rule bit_word_eqI; simp add: bit_simps low)+
qed

lemma sextet_bounds:
  fixes a b c :: "8 word"
  shows "unat (drop_bit 2 (ucast a :: 32 word)) < 64"
    "unat (push_bit 4 (ucast a AND 0x03) OR drop_bit 4 (ucast b) :: 32 word) < 64"
    "unat (push_bit 2 (ucast b AND 0x0f) OR drop_bit 6 (ucast c) :: 32 word) < 64"
    "unat (ucast c AND 0x3f :: 32 word) < 64"
    "unat (push_bit 4 (ucast a AND 0x03 :: 32 word)) < 64"
    "unat (push_bit 2 (ucast b AND 0x0f :: 32 word)) < 64"
  unfolding sextet_simps [symmetric]
  by (rule unat_less_64; fastforce dest: bit_shift_in_0)+


lemma bytes_of_sextets_last:
  fixes a b :: "8 word"
  defines "n \<equiv> push_bit 18 (drop_bit 2 (ucast a :: 32 word)) OR push_bit 12 (push_bit 4 (ucast a AND 0x03) OR drop_bit 4 (ucast b))"
  shows "(ucast (drop_bit 16 n) :: 8 word) = a"
    "(ucast (drop_bit 8 (n OR push_bit 6 (push_bit 2 (ucast b AND 0x0f))) AND 0xFF) :: 8 word) = b"
proof -
  define n' where "n' = n OR push_bit 6 (push_bit 2 (ucast b AND 0x0f))"
  have f: "(0xFF :: 32 word) = mask 8" by (simp add: mask_eq_exp_minus_1)
  have "list_all (\<lambda>i. bit n (16 + i) = bit a i) [0..<8]" "list_all (\<lambda>i. bit n' (8 + i) = bit b i) [0..<8]"
    unfolding n'_def n_def mask_consts by (simp_all add: upt_rec bit_simps bit8_ge, simp_all add: eval_nat_numeral)
  then have "i < 8 \<Longrightarrow> bit n (16 + i) = bit a i" "i < 8 \<Longrightarrow> bit n' (8 + i) = bit b i" for i by (simp_all add: list_all_iff)
  then show "(ucast (drop_bit 16 n) :: 8 word) = a"
    "(ucast (drop_bit 8 (n OR push_bit 6 (push_bit 2 (ucast b AND 0x0f))) AND 0xFF) :: 8 word) = b"
    unfolding f n'_def [symmetric] by (auto intro!: bit_word_eqI simp: bit_simps)
qed

lemma b64_no_equals: "i < 64 \<Longrightarrow> b64_encode_table ! i \<noteq> 61"
proof -
  have "list_all (\<lambda>i. b64_encode_table ! i \<noteq> 61) [0..<64]" by code_simp
  moreover assume "i < 64"
  ultimately show ?thesis by (simp add: list_all_iff)
qed

lemma b64_table_word: "unat (w :: 32 word) < 64 \<Longrightarrow> b64_decode_table ! unat (b64_encode_table ! unat w) = w"
  by (simp add: b64_tables)

lemma codec_encode_loop_nonempty: "xs \<noteq> [] \<Longrightarrow> codec_encode_loop xs \<noteq> []"
  by (cases xs rule: codec_encode_loop.cases) (simp_all add: Let_def)

lemma codec_decode_last:
  "p3 \<noteq> 61 \<Longrightarrow> codec_decode [p0, p1, p2, p3] = ok (quad p0 p1 p2 p3)"
  "codec_decode [p0, p1, 61, 61] =
     ok [ucast (drop_bit 16 (push_bit 18 (b64_decode_table ! unat p0) OR push_bit 12 (b64_decode_table ! unat p1)))]"
  "p2 \<noteq> 61 \<Longrightarrow> codec_decode [p0, p1, p2, 61] =
     (let n = push_bit 18 (b64_decode_table ! unat p0) OR push_bit 12 (b64_decode_table ! unat p1) in
      ok [ucast (drop_bit 16 n), ucast (drop_bit 8 (n OR push_bit 6 (b64_decode_table ! unat p2)) AND 0xFF)])"
  by (simp_all add: codec_decode_def)

lemma codec_decode_encode_loop: "codec_decode (codec_encode_loop xs) = ok xs"
proof (induction xs rule: codec_encode_loop.induct)
  case (1 a b c rest)
  let ?t = "\<lambda>i :: 32 word. b64_encode_table ! unat i"
  define w where "w = drop_bit 2 (ucast a :: 32 word)"
  define x where "x = (push_bit 4 (ucast a AND 0x03) OR drop_bit 4 (ucast b) :: 32 word)"
  define y where "y = (push_bit 2 (ucast b AND 0x0f) OR drop_bit 6 (ucast c) :: 32 word)"
  define z where "z = (ucast c AND 0x3f :: 32 word)"
  have z: "unat z < 64" unfolding z_def by (rule sextet_bounds(4))
  have q: "quad (?t w) (?t x) (?t y) (?t z) = [a, b, c]"
    unfolding w_def x_def y_def z_def quad_encoded [OF sextet_bounds(1-4)] Let_def bytes_of_sextets ..
  have e: "codec_encode_loop (a # b # c # rest) = ?t w # ?t x # ?t y # ?t z # codec_encode_loop rest"
    by (simp only: codec_encode_loop.simps Let_def w_def x_def y_def z_def append.simps)
  show ?case
  proof (cases "rest = []")
    case True
    show ?thesis unfolding e
      unfolding True codec_encode_loop.simps(4) codec_decode_last(1) [OF b64_no_equals [OF z]] q ..
  next
    case False
    then show ?thesis unfolding e using 1 codec_decode_Cons [OF codec_encode_loop_nonempty [OF False]] q by simp
  qed
next
  case (2 a)
  let ?t = "\<lambda>i :: 32 word. b64_encode_table ! unat i"
  define w where "w = drop_bit 2 (ucast a :: 32 word)"
  define x where "x = (push_bit 4 (ucast a AND 0x03) :: 32 word)"
  have b: "unat w < 64" "unat x < 64" unfolding w_def x_def by (rule sextet_bounds)+
  have "(ucast (drop_bit 16 (push_bit 18 w OR push_bit 12 x)) :: 8 word) = a"
    using bytes_of_sextets_last(1) [of a 0] by (simp only: w_def x_def) simp
  moreover have "codec_encode_loop [a] = [?t w, ?t x, 61, 61]"
    by (simp only: codec_encode_loop.simps Let_def w_def x_def) simp
  ultimately show ?case
    by (simp only: codec_decode_last(2) b64_table_word [OF b(1)] b64_table_word [OF b(2)])
next
  case (3 a b)
  let ?t = "\<lambda>i :: 32 word. b64_encode_table ! unat i"
  define w where "w = drop_bit 2 (ucast a :: 32 word)"
  define x where "x = (push_bit 4 (ucast a AND 0x03) OR drop_bit 4 (ucast b) :: 32 word)"
  define y where "y = (push_bit 2 (ucast b AND 0x0f) :: 32 word)"
  have bd: "unat w < 64" "unat x < 64" "unat y < 64" unfolding w_def x_def y_def by (rule sextet_bounds)+
  have "(ucast (drop_bit 16 (push_bit 18 w OR push_bit 12 x)) :: 8 word) = a"
    "(ucast (drop_bit 8 ((push_bit 18 w OR push_bit 12 x) OR push_bit 6 y) AND 0xFF) :: 8 word) = b"
    unfolding w_def x_def y_def by (rule bytes_of_sextets_last)+
  moreover have "codec_encode_loop [a, b] = [?t w, ?t x, ?t y, 61]"
    by (simp only: codec_encode_loop.simps Let_def w_def x_def y_def) simp
  ultimately show ?case
    by (simp only: codec_decode_last(3) [OF b64_no_equals [OF bd(3)]] b64_table_word [OF bd(1)] b64_table_word [OF bd(2)]
      b64_table_word [OF bd(3)] Let_def)
next
  case 4
  then show ?case by (simp add: codec_decode_def)
qed

lemma codec_encode_eq: "length xs < 2 ^ 62 \<Longrightarrow> codec_encode xs = codec_encode_loop xs"
proof -
  assume l: "length xs < 2 ^ 62"
  then have "(length xs + 2) mod 2 ^ 64 = length xs + 2" by simp
  moreover have "4 * ((length xs + 2) div 3) < 2 ^ 64" using l by simp
  moreover have "length xs \<le> 4 * ((length xs + 2) div 3)" by presburger
  ultimately show ?thesis by (simp add: codec_encode_def)
qed

section \<open>Properties\<close>

text \<open>
  C23. The two Base64 encoders of the library agree: on every sequence of bytes the bit-stream encoder with the
  standard alphabet produces the text of the table-driven encoder, and returns its length.
\<close>

theorem Base64_encoders_agree:
  "length xs < 2 ^ 62 \<Longrightarrow>
     Base64_encode (Base64 False memory) xs = ok (codec_encode xs, length (codec_encode xs))"
proof -
  have "map (\<lambda>c. encode_arr (Base64 False memory) (unat c)) (sextets (unpack xs)) =
        map (\<lambda>c. b64_encode_table ! unat c) (sextets (unpack xs))"
    using encode_table_eq sextets_less by fastforce
  then show "length xs < 2 ^ 62 \<Longrightarrow> ?thesis"
    using codec_encode_eq [of xs] codec_encode_loop_eq [of xs] Base64_encode_eq [of "Base64 False memory" xs] by simp
qed

theorem Base64_encoders_agree_witness:
  "Base64_encode (Base64 False \<lparr>encode_arr = (\<lambda>_. 0), decode_arr = (\<lambda>_. 0)\<rparr>) [77, 97] =
     ok (codec_encode [77, 97], length (codec_encode [77, 97]))"
  by (rule Base64_encoders_agree) simp

text \<open>
  C24. Base64 on bit streams round-trips, for the standard and the URL alphabet and whatever the arrays held before
  construction: encoding never fails, decoding the text returns the bytes, and both return the number of bytes they
  wrote.
\<close>

theorem Base64_stream_roundtrip:
  "\<exists>out. Base64_encode (Base64 url memory) xs = ok (out, length out) \<and>
     Base64_decode (Base64 url memory) out = ok (xs, length xs)"
  using Base64_encode_eq [of "Base64 url memory" xs] Base64_decode_encode [of url memory xs] by simp

text \<open>
  Base64 of the codec round-trips: decoding the text of any sequence of bytes returns the bytes.
\<close>

theorem codec_Base64_roundtrip:
  "length xs < 2 ^ 62 \<Longrightarrow> codec_decode (codec_encode xs) = ok xs"
  by (simp add: codec_encode_eq codec_decode_encode_loop)

theorem codec_Base64_roundtrip_witness:
  "codec_decode (codec_encode [0, 255, 16, 131]) = ok [0, 255, 16, 131]"
  by (rule codec_Base64_roundtrip) simp


end
