(* ===== verification/Eckit_Compress.thy ===== *)
theory Eckit_Compress
  imports Eckit_BitIO
begin

text \<open>
  The dictionary coder \<^verbatim>\<open>src/eckit/io/Compress.cc\<close> (LZW with codes of growing width) over the bit streams of
  \<open>Eckit_BitIO\<close>. The set of entries of the encoder, ordered by their characters, is a map from characters to
  entries; the table of the decoder is a map from codes to entries. The handles are lists of bytes, as
  in \<open>Eckit_BitIO\<close>. \<^verbatim>\<open>MAX_CODE\<close> shifts an \<^verbatim>\<open>int\<close>, which is defined up to 30 bits.

  The abstract side is the encoder without its streams, \<open>lz_step\<close>, which says which codes are emitted with which
  width for each byte; the decoder is proved to follow it in lockstep.
\<close>

section \<open>Entries\<close>

definition MAX_CODE :: "nat \<Rightarrow> nat" where
  "MAX_CODE nbits = 2 ^ nbits - 1"

abbreviation RESET_TABLE :: nat where "RESET_TABLE \<equiv> 256"
abbreviation END_MARKER :: nat where "END_MARKER \<equiv> 257"
abbreviation FIRST_CODE :: nat where "FIRST_CODE \<equiv> 258"
abbreviation MIN_BITS :: nat where "MIN_BITS \<equiv> 9"

record entry =
  chars :: "8 word list"
  code :: nat

definition Entry :: "nat \<Rightarrow> entry" where
  "Entry c = \<lparr>chars = (if c < 256 then [of_nat c] else []), code = c\<rparr>"

definition entry_plus :: "entry \<Rightarrow> 8 word \<Rightarrow> entry" where
  "entry_plus e c = e\<lparr>chars := chars e @ [c]\<rparr>"

definition entry_assign :: "8 word \<Rightarrow> entry" where
  "entry_assign c = \<lparr>chars = [c], code = unat c\<rparr>"

definition firstChar :: "entry \<Rightarrow> 8 word result" where
  "firstChar e = ASSERT (chars e \<noteq> []) (ok (chars e ! 0))"

definition entry_empty :: "entry \<Rightarrow> bool" where
  "entry_empty e \<longleftrightarrow> chars e = []"

fun output_chars :: "8 word list \<Rightarrow> bitio \<Rightarrow> bitio" where
  "output_chars [] out = out"
| "output_chars (c # cs) out = output_chars cs (BitIO_write out (ucast c) 8)"

definition entry_output :: "entry \<Rightarrow> bitio \<Rightarrow> bitio" where
  "entry_output e out = output_chars (chars e) out"

definition entry_output_code :: "entry \<Rightarrow> bitio \<Rightarrow> nat \<Rightarrow> bitio result" where
  "entry_output_code e out nbits = ASSERT (code e \<le> MAX_CODE nbits) (ok (BitIO_write out (of_nat (code e)) nbits))"

definition next_byte :: "bitio \<Rightarrow> (nat \<times> bitio) result" where
  "next_byte b = rbind (BitIO_read b 8 (of_nat END_MARKER)) (\<lambda>(v, b). ok (unat v, b))"

section \<open>Encoder\<close>

type_synonym code_set = "8 word list \<rightharpoonup> entry"

text \<open>\<^verbatim>\<open>std::set::insert\<close> keeps an entry with the same characters.\<close>

definition set_insert :: "entry \<Rightarrow> code_set \<Rightarrow> code_set" where
  "set_insert e t = (case t (chars e) of Some _ \<Rightarrow> t | None \<Rightarrow> t(chars e \<mapsto> e))"

definition init_set :: code_set where
  "init_set = fold (\<lambda>c. set_insert (Entry c)) [0..<256] Map.empty"

record lzw_encoder =
  code_table :: code_set
  enbits :: nat
  enext :: nat
  emax :: nat
  ew :: entry
  ebin :: bitio
  ebout :: bitio

text \<open>The body of the loop of \<^verbatim>\<open>Compress::encode\<close> once the byte \<open>k\<close> has been read.\<close>

definition encode_step :: "nat \<Rightarrow> 8 word \<Rightarrow> lzw_encoder \<Rightarrow> lzw_encoder result" where
  "encode_step maxBits k st =
     (let wk = entry_plus (ew st) k in
      case code_table st (chars wk) of
        Some j \<Rightarrow> ok (st\<lparr>ew := j\<rparr>)
      | None \<Rightarrow>
          rbind (entry_output_code (ew st) (ebout st) (enbits st)) (\<lambda>out.
            let wk = wk\<lparr>code := enext st\<rparr>;
                st = st\<lparr>ebout := out, enext := enext st + 1, code_table := set_insert wk (code_table st), ew := entry_assign k\<rparr>
            in if enext st \<ge> emax st then
                 if enbits st = maxBits then
                   rbind (entry_output_code (Entry RESET_TABLE) (ebout st) (enbits st)) (\<lambda>out.
                     ok (st\<lparr>ebout := out, enbits := MIN_BITS, emax := MAX_CODE MIN_BITS, enext := FIRST_CODE,
                            code_table := init_set\<rparr>))
                 else ok (st\<lparr>enbits := enbits st + 1, emax := MAX_CODE (enbits st + 1)\<rparr>)
               else ok st))"

lemma rbind_cong [fundef_cong]:
  "r = r' \<Longrightarrow> (\<And>x. r' = Inr x \<Longrightarrow> f x = g x) \<Longrightarrow> rbind r f = rbind r' g"
  by (auto simp: rbind_def split: sum.splits)

lemma encode_step_bin: "encode_step maxBits k st = ok st' \<Longrightarrow> ebin st' = ebin st"
  by (auto simp: encode_step_def Let_def rbind_eq_Inr_iff split: option.splits if_splits)

lemma next_byte_progress: "next_byte b = ok (k, b') \<Longrightarrow> k \<noteq> END_MARKER \<Longrightarrow> progress b' < progress b"
  by (auto simp: next_byte_def rbind_eq_Inr_iff intro!: BitIO_read_progress)

function lzw_encode_loop :: "nat \<Rightarrow> lzw_encoder \<Rightarrow> lzw_encoder result" where
  "lzw_encode_loop maxBits st =
     rbind (next_byte (ebin st)) (\<lambda>kb.
       if fst kb = END_MARKER then ok (st\<lparr>ebin := snd kb\<rparr>)
       else rbind (encode_step maxBits (of_nat (fst kb)) (st\<lparr>ebin := snd kb\<rparr>)) (\<lambda>st'. lzw_encode_loop maxBits st'))"
  by pat_completeness auto
termination
  by (relation "measure (\<lambda>(maxBits, st). progress (ebin st))")
    (auto dest!: encode_step_bin dest: next_byte_progress)

declare lzw_encode_loop.simps [simp del]

text \<open>The value is the byte count and the bytes written when the destructor of the output stream has flushed it.\<close>

definition Compress_encode :: "nat \<Rightarrow> 8 word list \<Rightarrow> (nat \<times> 8 word list) result" where
  "Compress_encode maxBits input =
     rbind (entry_output_code (Entry RESET_TABLE) (BitIO [] False) MIN_BITS) (\<lambda>out.
     rbind (lzw_encode_loop maxBits
              \<lparr>code_table = init_set, enbits = MIN_BITS, enext = FIRST_CODE, emax = MAX_CODE MIN_BITS,
               ew = Entry END_MARKER, ebin = BitIO input False, ebout = out\<rparr>) (\<lambda>st.
     rbind (if \<not> entry_empty (ew st) then entry_output_code (ew st) (ebout st) (enbits st) else ok (ebout st)) (\<lambda>out.
     rbind (entry_output_code (Entry END_MARKER) out (enbits st)) (\<lambda>out.
       ok (byteCount out, sink (close out))))))"

section \<open>Decoder\<close>

definition init_map :: "nat \<rightharpoonup> entry" where
  "init_map = fold (\<lambda>i t. t(i \<mapsto> Entry i)) [0..<256] Map.empty"

record lzw_decoder =
  dtable :: "nat \<rightharpoonup> entry"
  dnbits :: nat
  dnext :: nat
  dmax :: nat
  dw :: entry
  dbin :: bitio
  dbout :: bitio

definition read_code :: "bitio \<Rightarrow> nat \<Rightarrow> (nat \<times> bitio) result" where
  "read_code b nbits = rbind (BitIO_read b nbits (of_nat END_MARKER)) (\<lambda>(v, b). ok (unat v, b))"

definition widen :: "nat \<Rightarrow> lzw_decoder \<Rightarrow> lzw_decoder" where
  "widen maxBits st =
     (if dnext st \<ge> dmax st
      then st\<lparr>dnbits := min maxBits (dnbits st + 1), dmax := MAX_CODE (min maxBits (dnbits st + 1)) - 1\<rparr> else st)"

definition find_entry :: "nat \<Rightarrow> lzw_decoder \<Rightarrow> entry result" where
  "find_entry k st =
     (case dtable st k of
        Some e \<Rightarrow> ok e
      | None \<Rightarrow> ASSERT (k = dnext st) (rbind (firstChar (dw st)) (\<lambda>c. ok (entry_plus (dw st) c))))"

definition decode_code :: "nat \<Rightarrow> lzw_decoder \<Rightarrow> lzw_decoder result" where
  "decode_code k st =
     rbind (find_entry k st) (\<lambda>e.
     rbind (firstChar e) (\<lambda>c.
       let out = entry_output e (dbout st);
           n = (entry_plus (dw st) c)\<lparr>code := dnext st\<rparr>
       in ok (st\<lparr>dbout := out, dtable := (dtable st)(dnext st \<mapsto> n), dnext := dnext st + 1, dw := e\<rparr>)))"

text \<open>One turn of the loop of \<^verbatim>\<open>Compress::decode\<close>: the flag tells whether the loop goes on.\<close>

definition decode_step :: "nat \<Rightarrow> lzw_decoder \<Rightarrow> (bool \<times> lzw_decoder) result" where
  "decode_step maxBits st =
     (let st = widen maxBits st in
      rbind (read_code (dbin st) (dnbits st)) (\<lambda>(k, b).
        let st = st\<lparr>dbin := b\<rparr> in
        if k = END_MARKER then ok (False, st)
        else if k = RESET_TABLE then
          let st = st\<lparr>dnbits := MIN_BITS, dmax := MAX_CODE MIN_BITS - 1, dnext := FIRST_CODE, dtable := init_map\<rparr> in
          rbind (read_code (dbin st) (dnbits st)) (\<lambda>(k, b).
            let st = st\<lparr>dbin := b\<rparr> in
            if k = END_MARKER then ok (False, st)
            else
              let w = entry_assign (of_nat k)
              in ok (True, st\<lparr>dw := w, dbout := entry_output w (dbout st)\<rparr>))
        else rbind (decode_code k st) (\<lambda>st. ok (True, st))))"

partial_function (option) lzw_decode_loop :: "nat \<Rightarrow> lzw_decoder \<Rightarrow> lzw_decoder comp" where
  "lzw_decode_loop maxBits st =
     cbind (Some (decode_step maxBits st)) (\<lambda>(continue, st). if continue then lzw_decode_loop maxBits st else Some (ok st))"

definition decoder_init :: "8 word list \<Rightarrow> lzw_decoder" where
  "decoder_init input =
     \<lparr>dtable = init_map, dnbits = MIN_BITS, dnext = FIRST_CODE, dmax = MAX_CODE MIN_BITS - 1,
      dw = Entry END_MARKER, dbin = BitIO input False, dbout = BitIO [] False\<rparr>"

definition Compress_decode :: "nat \<Rightarrow> 8 word list \<Rightarrow> (nat \<times> 8 word list) comp" where
  "Compress_decode maxBits input =
     cbind (lzw_decode_loop maxBits (decoder_init input)) (\<lambda>st. Some (ok (byteCount (dbout st), sink (close (dbout st)))))"

section \<open>The encoder without its streams\<close>

record lz =
  tab :: "8 word list \<rightharpoonup> nat"
  nb :: nat
  nx :: nat
  cur :: "8 word list"

definition lz_table :: "8 word list \<rightharpoonup> nat" where
  "lz_table s = (case s of [b] \<Rightarrow> Some (unat b) | _ \<Rightarrow> None)"

definition lz_init :: lz where
  "lz_init = \<lparr>tab = lz_table, nb = MIN_BITS, nx = FIRST_CODE, cur = []\<rparr>"

definition lz_step :: "nat \<Rightarrow> 8 word \<Rightarrow> lz \<Rightarrow> (nat \<times> nat) list \<times> lz" where
  "lz_step maxBits x s =
     (case tab s (cur s @ [x]) of
        Some _ \<Rightarrow> ([], s\<lparr>cur := cur s @ [x]\<rparr>)
      | None \<Rightarrow>
          let out = (the (tab s (cur s)), nb s);
              s' = s\<lparr>tab := (tab s)(cur s @ [x] \<mapsto> nx s), nx := nx s + 1, cur := [x]\<rparr>
          in if nx s + 1 \<ge> 2 ^ nb s - 1 then
               if nb s = maxBits then ([out, (RESET_TABLE, nb s)], lz_init\<lparr>cur := [x]\<rparr>)
               else ([out], s'\<lparr>nb := nb s + 1\<rparr>)
             else ([out], s'))"

fun lz_run :: "nat \<Rightarrow> lz \<Rightarrow> 8 word list \<Rightarrow> (nat \<times> nat) list \<times> lz" where
  "lz_run maxBits s [] = ([], s)"
| "lz_run maxBits s (x # xs) =
     (let (cs, s') = lz_step maxBits x s; (ds, s'') = lz_run maxBits s' xs in (cs @ ds, s''))"

definition lz_final :: "lz \<Rightarrow> (nat \<times> nat) list" where
  "lz_final s = (if cur s = [] then [] else [(the (tab s (cur s)), nb s)]) @ [(END_MARKER, nb s)]"

definition lz_codes :: "nat \<Rightarrow> 8 word list \<Rightarrow> (nat \<times> nat) list" where
  "lz_codes maxBits xs = (let (cs, s) = lz_run maxBits lz_init xs in (RESET_TABLE, MIN_BITS) # cs @ lz_final s)"

definition code_bits :: "(nat \<times> nat) list \<Rightarrow> bool list" where
  "code_bits cs = concat (map (\<lambda>(c, n). bits_msb n (of_nat c :: 64 word)) cs)"

definition lz_inv :: "nat \<Rightarrow> lz \<Rightarrow> bool" where
  "lz_inv maxBits s \<longleftrightarrow>
     MIN_BITS \<le> nb s \<and> nb s \<le> maxBits \<and> FIRST_CODE \<le> nx s \<and> nx s < 2 ^ nb s - 1 \<and>
     (\<forall>b. tab s [b] = Some (unat b)) \<and>
     (\<forall>str c. tab s str = Some c \<longrightarrow> str \<noteq> [] \<and> (c < 256 \<or> FIRST_CODE \<le> c \<and> c < nx s)) \<and>
     inj_on (tab s) (dom (tab s)) \<and>
     (cur s = [] \<longrightarrow> nx s = FIRST_CODE) \<and> (cur s \<noteq> [] \<longrightarrow> cur s \<in> dom (tab s)) \<and>
     (nx s = FIRST_CODE \<longrightarrow> tab s = lz_table \<and> nb s = MIN_BITS)"

text \<open>The relation between the abstract encoder and the encoder of the source.\<close>

definition enc_rel :: "lz \<Rightarrow> lzw_encoder \<Rightarrow> bool" where
  "enc_rel s st \<longleftrightarrow>
     code_table st = (\<lambda>str. map_option (\<lambda>c. \<lparr>chars = str, code = c\<rparr>) (tab s str)) \<and>
     enbits st = nb s \<and> enext st = nx s \<and> emax st = 2 ^ nb s - 1 \<and>
     ew st = (if cur s = [] then Entry END_MARKER else \<lparr>chars = cur s, code = the (tab s (cur s))\<rparr>) \<and>
     write_inv (ebout st) \<and> write_flag (ebout st)"

lemma code_bits_simps [simp]:
  "code_bits [] = []" "code_bits ((c, n) # cs) = bits_msb n (of_nat c :: 64 word) @ code_bits cs"
  "code_bits (cs @ ds) = code_bits cs @ code_bits ds"
  by (simp_all add: code_bits_def)

lemma lz_table_simps [simp]: "lz_table [b] = Some (unat b)" "lz_table [] = None" "lz_table (a # b # s) = None"
  by (simp_all add: lz_table_def)

lemma lz_table_Some: "lz_table str = Some c \<Longrightarrow> \<exists>b. str = [b] \<and> c = unat b"
  by (auto simp: lz_table_def split: list.splits)

lemma inj_lz_table: "inj_on lz_table (dom lz_table)"
  by (auto simp: inj_on_def word_unat_eq_iff dest!: lz_table_Some)

lemma byte_less: "unat (b :: 8 word) < 256"
  using unsigned_less [of b] by simp

lemma lz_inv_init: "MIN_BITS \<le> maxBits \<Longrightarrow> cur s = [] \<or> (\<exists>x. cur s = [x]) \<Longrightarrow> lz_inv maxBits (lz_init\<lparr>cur := cur s\<rparr>)"
  by (auto simp: lz_inv_def lz_init_def inj_lz_table byte_less dest!: lz_table_Some)

lemma inj_on_upd_fresh:
  assumes "inj_on m (dom m)" "\<forall>k c. m k = Some c \<longrightarrow> c \<noteq> v" "k \<notin> dom m"
  shows "inj_on (m(k \<mapsto> v)) (dom (m(k \<mapsto> v)))"
  using assms unfolding inj_on_def by (auto; metis domI option.sel)

lemma lz_step_inv:
  assumes "lz_inv maxBits s" "lz_step maxBits x s = (cs, s')"
  shows "lz_inv maxBits s'"
proof (cases "tab s (cur s @ [x])")
  case (Some c)
  then have "s' = s\<lparr>cur := cur s @ [x]\<rparr>" using assms(2) by (simp add: lz_step_def)
  then show ?thesis using assms(1) Some by (auto simp: lz_inv_def)
next
  case None
  define t where "t = (tab s)(cur s @ [x] \<mapsto> nx s)"
  have "\<forall>k c. tab s k = Some c \<longrightarrow> c \<noteq> nx s" using assms(1) unfolding lz_inv_def by fastforce
  then have i: "inj_on t (dom t)" unfolding t_def
    using assms(1) None by (intro inj_on_upd_fresh) (auto simp: lz_inv_def)
  have c: "cur s \<noteq> []" using assms(1) None by (auto simp: lz_inv_def)
  have t: "\<forall>b. t [b] = Some (unat b)" "t [x] \<noteq> None"
    "\<forall>str c. t str = Some c \<longrightarrow> str \<noteq> [] \<and> (c < 256 \<or> FIRST_CODE \<le> c \<and> c < nx s + 1)"
    using assms(1) c by (auto simp: lz_inv_def t_def less_Suc_eq)
  have p: "(2 :: nat) ^ nb s + 256 \<le> 2 ^ (nb s + 1)"
    using assms(1) power_increasing [of 9 "nb s" "2 :: nat"] by (simp add: lz_inv_def)
  define s1 where "s1 = s\<lparr>tab := t, nx := nx s + 1, cur := [x]\<rparr>"
  note v = assms(1) [unfolded lz_inv_def]
  have I: "lz_inv maxBits (s1\<lparr>nb := n\<rparr>)" if "nb s \<le> n" "n \<le> maxBits" "nx s + 1 < 2 ^ n - 1" for n
    unfolding lz_inv_def s1_def using that v i t by (simp add: domIff)
  consider "nx s + 1 \<ge> 2 ^ nb s - 1" "nb s = maxBits" | "nx s + 1 \<ge> 2 ^ nb s - 1" "nb s < maxBits" | "nx s + 1 < 2 ^ nb s - 1"
    using v by linarith
  then show ?thesis
  proof cases
    case 1
    then have "s' = lz_init\<lparr>cur := [x]\<rparr>" using assms(2) None by (simp add: lz_step_def)
    then show ?thesis using v lz_inv_init [of maxBits "s\<lparr>cur := [x]\<rparr>"] by simp
  next
    case 2
    then have "s' = s1\<lparr>nb := nb s + 1\<rparr>" using assms(2) None by (simp add: lz_step_def s1_def t_def)
    moreover have "nx s + 1 < 2 ^ (nb s + 1) - 1" using v p by linarith
    ultimately show ?thesis using I [of "nb s + 1"] 2 by simp
  next
    case 3
    then have "s' = s1" using assms(2) None by (simp add: lz_step_def s1_def t_def)
    moreover have "s1\<lparr>nb := nb s\<rparr> = s1" by (simp add: s1_def)
    ultimately show ?thesis using I [of "nb s"] 3 v by simp
  qed
qed

section \<open>The encoder of the source follows it\<close>

lemma fold_set_insert:
  "n \<le> 256 \<Longrightarrow> fold (\<lambda>c. set_insert (Entry c)) [0..<n] Map.empty =
     (\<lambda>str. case str of [b] \<Rightarrow> if unat b < n then Some \<lparr>chars = [b], code = unat b\<rparr> else None | _ \<Rightarrow> None)"
proof (induction n)
  case (Suc n)
  have "unat (of_nat n :: 8 word) = n" using Suc.prems by (simp add: unsigned_of_nat take_bit_nat_eq_self)
  then show ?case
    using Suc
    by (auto simp: set_insert_def Entry_def fun_eq_iff less_Suc_eq word_unat_eq_iff split: list.splits option.splits)
qed (auto simp: fun_eq_iff split: list.splits)

lemma init_set_eq: "init_set = (\<lambda>str. map_option (\<lambda>c. \<lparr>chars = str, code = c\<rparr>) (lz_table str))"
  unfolding init_set_def fold_set_insert [OF order_refl] lz_table_def
  by (auto simp: fun_eq_iff byte_less split: list.splits)

lemma output_code:
  assumes "write_inv out" "c \<le> 2 ^ n - 1"
  shows "\<exists>out'. entry_output_code \<lparr>chars = str, code = c\<rparr> out n = ok out' \<and> write_inv out' \<and> write_flag out' \<and>
           wbits out' = wbits out @ code_bits [(c, n)]"
  using assms BitIO_write_wbits [OF assms(1), of "of_nat c" n] by (simp add: entry_output_code_def MAX_CODE_def)

lemma encode_step_refines:
  assumes "enc_rel s st" "lz_inv maxBits s" "lz_step maxBits x s = (cs, s')"
  shows "\<exists>st'. encode_step maxBits x st = ok st' \<and> enc_rel s' st' \<and> ebin st' = ebin st \<and>
           wbits (ebout st') = wbits (ebout st) @ code_bits cs"
proof -
  note r = assms(1) [unfolded enc_rel_def] and v = assms(2) [unfolded lz_inv_def]
  have wk: "chars (entry_plus (ew st) x) = cur s @ [x]" using r by (simp add: entry_plus_def Entry_def)
  show ?thesis
  proof (cases "tab s (cur s @ [x])")
    case (Some c)
    then have "s' = s\<lparr>cur := cur s @ [x]\<rparr>" "cs = []" using assms(3) by (simp_all add: lz_step_def)
    then show ?thesis using r Some wk by (auto simp: encode_step_def enc_rel_def)
  next
    case None
    have cur: "cur s \<noteq> []" using v None by auto
    then obtain c where c: "tab s (cur s) = Some c" using v by auto
    have "c < nx s" using v c by fastforce
    then have "c \<le> 2 ^ nb s - 1" using v by linarith
    then obtain out where out: "entry_output_code (ew st) (ebout st) (enbits st) = ok out" "write_inv out" "write_flag out"
        "wbits out = wbits (ebout st) @ code_bits [(c, nb s)]"
      using output_code [of "ebout st" c "nb s" "cur s"] r cur c by auto
    define t where "t = set_insert ((entry_plus (ew st) x)\<lparr>code := nx s\<rparr>) (code_table st)"
    have t: "t = (\<lambda>str. map_option (\<lambda>c. \<lparr>chars = str, code = c\<rparr>) (((tab s)(cur s @ [x] \<mapsto> nx s)) str))"
      using r None wk cur by (auto simp: t_def set_insert_def entry_plus_def fun_eq_iff)
    have w: "entry_assign x = \<lparr>chars = [x], code = unat x\<rparr>" by (simp add: entry_assign_def)
    have tx: "tab s [x] = Some (unat x)" "cur s @ [x] \<noteq> [x]" using v cur by auto
    define st1 where "st1 = st\<lparr>ebout := out, enext := nx s + 1, code_table := t, ew := entry_assign x\<rparr>"
    have step: "encode_step maxBits x st =
        (if nx s + 1 \<ge> 2 ^ nb s - 1 then
           if nb s = maxBits then
             rbind (entry_output_code (Entry RESET_TABLE) out (nb s)) (\<lambda>out.
               ok (st1\<lparr>ebout := out, enbits := MIN_BITS, emax := MAX_CODE MIN_BITS, enext := FIRST_CODE, code_table := init_set\<rparr>))
           else ok (st1\<lparr>enbits := nb s + 1, emax := MAX_CODE (nb s + 1)\<rparr>)
         else ok st1)"
      using r None wk out(1) by (simp add: encode_step_def st1_def t_def Let_def)
    consider "nx s + 1 \<ge> 2 ^ nb s - 1" "nb s = maxBits" | "nx s + 1 \<ge> 2 ^ nb s - 1" "nb s \<noteq> maxBits" | "\<not> nx s + 1 \<ge> 2 ^ nb s - 1"
      by blast
    then show ?thesis
    proof cases
      case 1
      have "RESET_TABLE \<le> 2 ^ nb s - 1" using v by linarith
      then obtain out' where "entry_output_code (Entry RESET_TABLE) out (nb s) = ok out'" "write_inv out'" "write_flag out'"
          "wbits out' = wbits out @ code_bits [(RESET_TABLE, nb s)]"
        using output_code [OF out(2), of RESET_TABLE "nb s" "[]"] by (auto simp: Entry_def)
      moreover have "s' = lz_init\<lparr>cur := [x]\<rparr>" "cs = [(c, nb s), (RESET_TABLE, nb s)]"
        using assms(3) None 1 c by (simp_all add: lz_step_def)
      ultimately show ?thesis
        using step 1 out(4) w by (simp add: st1_def enc_rel_def lz_init_def init_set_eq MAX_CODE_def)
    next
      case 2
      then have "s' = s\<lparr>tab := (tab s)(cur s @ [x] \<mapsto> nx s), nx := nx s + 1, cur := [x], nb := nb s + 1\<rparr>" "cs = [(c, nb s)]"
        using assms(3) None c by (simp_all add: lz_step_def)
      then show ?thesis using step 2 out w t tx by (simp add: st1_def enc_rel_def MAX_CODE_def)
    next
      case 3
      then have "s' = s\<lparr>tab := (tab s)(cur s @ [x] \<mapsto> nx s), nx := nx s + 1, cur := [x]\<rparr>" "cs = [(c, nb s)]"
        using assms(3) None c by (simp_all add: lz_step_def)
      then show ?thesis using step 3 out w t tx r by (simp add: st1_def enc_rel_def MAX_CODE_def)
    qed
  qed
qed

lemma next_byte_Cons:
  assumes "read_inv b" "rbits b = unpack (x # xs)"
  shows "\<exists>b'. next_byte b = ok (unat x, b') \<and> read_inv b' \<and> rbits b' = unpack xs \<and> padded b' = padded b"
proof -
  have m: "(ucast x :: 64 word) AND mask 8 = ucast x"
    by (rule mask_less) (use byte_less [of x] in \<open>simp add: unsigned_ucast_eq take_bit_nat_eq_self\<close>)
  obtain b' where "BitIO_read b 8 (of_nat END_MARKER) = ok (ucast x, b')" "rbits b' = unpack xs" "read_inv b'" "padded b' = padded b"
    using br.get_code [OF assms(1) _ m, of "unpack xs" "of_nat END_MARKER"] assms(2) by auto
  moreover have "unat (ucast x :: 64 word) = unat x"
    using byte_less [of x] by (simp add: unsigned_ucast_eq take_bit_nat_eq_self)
  ultimately show ?thesis by (auto simp: next_byte_def)
qed

lemma next_byte_Nil:
  assumes "read_inv b" "rbits b = []"
  shows "\<exists>b'. next_byte b = ok (END_MARKER, b')"
  by (rule br.get_eof [OF assms(1), of 8 "of_nat END_MARKER"]) (simp_all add: assms(2) next_byte_def)

lemma lzw_encode_loop_refines:
  "enc_rel s st \<Longrightarrow> lz_inv maxBits s \<Longrightarrow> read_inv (ebin st) \<Longrightarrow> rbits (ebin st) = unpack xs \<Longrightarrow>
   lz_run maxBits s xs = (cs, s') \<Longrightarrow>
   \<exists>st'. lzw_encode_loop maxBits st = ok st' \<and> enc_rel s' st' \<and> lz_inv maxBits s' \<and>
     wbits (ebout st') = wbits (ebout st) @ code_bits cs"
proof (induction xs arbitrary: s st cs)
  case Nil
  then obtain b where "next_byte (ebin st) = ok (END_MARKER, b)" using next_byte_Nil [of "ebin st"] by auto
  then show ?case using Nil by (subst lzw_encode_loop.simps) (simp add: enc_rel_def)
next
  case (Cons x xs)
  obtain b where b: "next_byte (ebin st) = ok (unat x, b)" "read_inv b" "rbits b = unpack xs"
    using next_byte_Cons [OF Cons.prems(3,4)] by auto
  obtain ds s1 es where run: "lz_step maxBits x s = (ds, s1)" "lz_run maxBits s1 xs = (es, s')" "cs = ds @ es"
    using Cons.prems(5) by (auto split: prod.splits)
  have "enc_rel s (st\<lparr>ebin := b\<rparr>)" using Cons.prems(1) by (simp add: enc_rel_def)
  then obtain st1 where st1: "encode_step maxBits x (st\<lparr>ebin := b\<rparr>) = ok st1" "enc_rel s1 st1" "ebin st1 = b"
      "wbits (ebout st1) = wbits (ebout st) @ code_bits ds"
    using encode_step_refines [OF _ Cons.prems(2) run(1), of "st\<lparr>ebin := b\<rparr>"] by auto
  have "lzw_encode_loop maxBits st = lzw_encode_loop maxBits st1"
    using b(1) st1(1) byte_less [of x] by (subst lzw_encode_loop.simps) simp
  then show ?case
    using Cons.IH [OF st1(2) lz_step_inv [OF Cons.prems(2) run(1)] _ _ run(2)] st1(3,4) b(2,3) run(3) by simp
qed

lemma Compress_encode_refines:
  assumes "MIN_BITS \<le> maxBits"
  shows "\<exists>out. Compress_encode maxBits xs = ok (length out, out) \<and>
    unpack out = code_bits (lz_codes maxBits xs) @ padding (length (code_bits (lz_codes maxBits xs)))"
proof -
  obtain cs s where run: "lz_run maxBits lz_init xs = (cs, s)" by fastforce
  obtain b0 where b0: "entry_output_code (Entry RESET_TABLE) (BitIO [] False) MIN_BITS = ok b0" "write_inv b0" "write_flag b0"
      "wbits b0 = code_bits [(RESET_TABLE, MIN_BITS)]"
    using output_code [of "BitIO [] False" RESET_TABLE MIN_BITS "[]"] by (auto simp: Entry_def)
  let ?st = "\<lparr>code_table = init_set, enbits = MIN_BITS, enext = FIRST_CODE, emax = MAX_CODE MIN_BITS,
    ew = Entry END_MARKER, ebin = BitIO xs False, ebout = b0\<rparr>"
  have "enc_rel lz_init ?st" using b0(2,3) by (simp add: enc_rel_def lz_init_def init_set_eq MAX_CODE_def)
  moreover have "lz_inv maxBits lz_init"
    using lz_inv_init [OF assms, of lz_init] by (simp add: lz_init_def)
  ultimately obtain st where st: "lzw_encode_loop maxBits ?st = ok st" "enc_rel s st" "lz_inv maxBits s"
      "wbits (ebout st) = code_bits ((RESET_TABLE, MIN_BITS) # cs)"
    using lzw_encode_loop_refines [OF _ _ _ _ run, of ?st] b0(4) by auto
  note r = st(2) [unfolded enc_rel_def] and v = st(3) [unfolded lz_inv_def]
  have "the (tab s (cur s)) \<le> 2 ^ nb s - 1" if "cur s \<noteq> []"
    using v that by (cases "tab s (cur s)") (auto, fastforce+)
  then obtain b1 where b1: "(if \<not> entry_empty (ew st) then entry_output_code (ew st) (ebout st) (enbits st) else ok (ebout st)) = ok b1"
      "write_inv b1" "write_flag b1"
      "wbits b1 = wbits (ebout st) @ code_bits (if cur s = [] then [] else [(the (tab s (cur s)), nb s)])"
    using output_code [of "ebout st" "the (tab s (cur s))" "nb s" "cur s"] r
    by (cases "cur s = []") (auto simp: entry_empty_def Entry_def)
  have "END_MARKER \<le> 2 ^ nb s - 1" using v by linarith
  then obtain b2 where b2: "entry_output_code (Entry END_MARKER) b1 (enbits st) = ok b2" "write_inv b2" "write_flag b2"
      "wbits b2 = wbits b1 @ code_bits [(END_MARKER, nb s)]"
    using output_code [OF b1(2), of END_MARKER "nb s" "[]"] r by (auto simp: Entry_def)
  have w: "wbits b2 = code_bits (lz_codes maxBits xs)"
    using b2(4) b1(4) st(4) run by (simp add: lz_codes_def lz_final_def)
  have u: "unpack (sink (close b2)) = wbits b2 @ padding (length (wbits b2))" using close_unpack [OF b2(2)] b2(3) by simp
  have "8 * length (sink (close b2)) = length (wbits b2) + length (padding (length (wbits b2)))"
    using arg_cong [OF u, of length] by simp
  then have "byteCount b2 = length (sink (close b2))"
    using b2(2) by (simp add: byteCount_def write_inv_def padding_def)
  then show ?thesis
    using b0(1) st(1) b1(1) b2(1) u w by (simp add: Compress_encode_def)
qed

section \<open>The decoder in lockstep\<close>

definition dec_ok :: "lzw_decoder \<Rightarrow> bool" where
  "dec_ok d \<longleftrightarrow> read_inv (dbin d) \<and> \<not> padded (dbin d) \<and> write_inv (dbout d) \<and>
     (write_flag (dbout d) \<or> wbits (dbout d) = []) \<and> dmax d = 2 ^ dnbits d - 2"

text \<open>The decoder knows the entries below a bound, and nothing else.\<close>

definition knows :: "nat \<Rightarrow> lz \<Rightarrow> lzw_decoder \<Rightarrow> bool" where
  "knows n s d \<longleftrightarrow>
     (\<forall>c e. dtable d c = Some e \<longrightarrow> tab s (chars e) = Some c \<and> c < n) \<and>
     (\<forall>str c. tab s str = Some c \<and> c < n \<longrightarrow> (\<exists>e. dtable d c = Some e \<and> chars e = str))"

text \<open>
  Before a code is read, the decoder is one entry behind the encoder: the missing entry is the last word
  followed by the first byte of the current one. After a reset the code \<open>RESET_TABLE\<close> is still to be read.
\<close>

definition sync :: "nat \<Rightarrow> lz \<Rightarrow> lzw_decoder \<Rightarrow> (nat \<times> nat) list \<Rightarrow> bool" where
  "sync maxBits s d pre \<longleftrightarrow> dec_ok d \<and>
     (if pre = [] then
        FIRST_CODE < nx s \<and> dnext d = nx s - 1 \<and> dnbits (widen maxBits d) = nb s \<and> cur s \<noteq> [] \<and> chars (dw d) \<noteq> [] \<and>
        tab s (chars (dw d) @ [hd (cur s)]) = Some (nx s - 1) \<and> knows (nx s - 1) s d
      else
        pre = [(RESET_TABLE, dnbits (widen maxBits d))] \<and> MIN_BITS \<le> dnbits (widen maxBits d) \<and>
        dnbits (widen maxBits d) \<le> 30 \<and> s = lz_init\<lparr>cur := cur s\<rparr>)"

definition caught_up :: "lz \<Rightarrow> lzw_decoder \<Rightarrow> bool" where
  "caught_up s d \<longleftrightarrow> dec_ok d \<and> dnbits d = nb s \<and> dnext d = nx s \<and> chars (dw d) = cur s \<and> knows (nx s) s d"

lemma fold_init_map:
  "fold (\<lambda>i t. t(i \<mapsto> Entry i)) [0..<n] Map.empty = (\<lambda>i. if i < n then Some (Entry i) else None)"
  by (induction n) (auto simp: fun_eq_iff)

lemma init_map_eq: "init_map i = (if i < 256 then Some \<lparr>chars = [of_nat i], code = i\<rparr> else None)"
  unfolding init_map_def fold_init_map by (simp add: Entry_def)

lemma knows_init: "n = FIRST_CODE \<Longrightarrow> tab s = lz_table \<Longrightarrow> dtable d = init_map \<Longrightarrow> knows n s d"
  by (auto simp: knows_def init_map_eq byte_less unsigned_of_nat take_bit_nat_eq_self
      dest!: lz_table_Some split: if_splits)

lemma read_code_full:
  assumes "read_inv b" "rbits b = bits_msb n (of_nat c :: 64 word) @ rest" "c < 2 ^ n" "n \<le> 30"
  shows "\<exists>b'. read_code b n = ok (c, b') \<and> read_inv b' \<and> rbits b' = rest \<and> padded b' = padded b"
proof -
  have "c < 2 ^ 64" using assms(3,4) power_increasing [of n 64 "2 :: nat"] by linarith
  then have u: "unat (of_nat c :: 64 word) = c" by (simp add: unsigned_of_nat take_bit_nat_eq_self)
  have m: "(of_nat c :: 64 word) AND mask n = of_nat c" by (rule mask_less) (simp add: u assms(3))
  show ?thesis
    by (rule br.get_code [OF assms(1,2) m, of "of_nat END_MARKER"]) (simp add: read_code_def u)
qed

lemma output_chars_wbits:
  "write_inv out \<Longrightarrow> write_inv (output_chars cs out) \<and> wbits (output_chars cs out) = wbits out @ unpack cs \<and>
     (cs \<noteq> [] \<or> write_flag out \<longrightarrow> write_flag (output_chars cs out))"
  by (induction cs arbitrary: out) (auto simp: BitIO_write_wbits)

lemma widen_simps [simp]:
  "dbin (widen m d) = dbin d" "dbout (widen m d) = dbout d" "dtable (widen m d) = dtable d" "dw (widen m d) = dw d"
  "dnext (widen m d) = dnext d"
  by (simp_all add: widen_def)

lemma widen_dmax: "dmax d = 2 ^ dnbits d - 2 \<Longrightarrow> dmax (widen m d) = 2 ^ dnbits (widen m d) - 2"
  by (simp add: widen_def MAX_CODE_def numeral_2_eq_2)

lemma decode_emission_reset:
  assumes "sync maxBits s d pre" "pre \<noteq> []" "lz_inv maxBits s" "tab s (cur s) = Some c"
    "rbits (dbin d) = code_bits (pre @ [(c, nb s)]) @ rest"
  shows "\<exists>d'. decode_step maxBits d = ok (True, d') \<and> caught_up s d' \<and> rbits (dbin d') = rest \<and>
           wbits (dbout d') = wbits (dbout d) @ unpack (cur s)"
proof -
  note y = assms(1) [unfolded sync_def dec_ok_def]
  define n where "n = dnbits (widen maxBits d)"
  have n: "9 \<le> n" "n \<le> 30" and pre: "pre = [(RESET_TABLE, n)]" and s: "s = lz_init\<lparr>cur := cur s\<rparr>"
    using y assms(2) by (simp_all add: n_def)
  have t: "tab s = lz_table" "nb s = 9" "nx s = FIRST_CODE" using s by (metis lz_init_def lz.simps(1-3) lz.select_convs lz.update_convs(4))+
  obtain b where b: "cur s = [b]" "c = unat b" using assms(4) t lz_table_Some by auto
  have "(256 :: nat) < 2 ^ n" using power_increasing [OF n(1), of "2 :: nat"] by simp
  then obtain b1 where b1: "read_code (dbin d) n = ok (RESET_TABLE, b1)" "read_inv b1" "\<not> padded b1"
      "rbits b1 = bits_msb 9 (of_nat c :: 64 word) @ rest"
    using read_code_full [of "dbin d" n RESET_TABLE] y assms(5) n(2) t(2) by (auto simp: pre)
  have "c < 2 ^ 9" using byte_less [of b] b(2) by simp
  then obtain b2 where b2: "read_code b1 9 = ok (c, b2)" "read_inv b2" "\<not> padded b2" "rbits b2 = rest"
    using read_code_full [OF b1(2,4)] b1(3) by auto
  define d' where "d' = (widen maxBits d)\<lparr>dbin := b2, dnbits := 9, dmax := MAX_CODE 9 - 1, dnext := FIRST_CODE,
    dtable := init_map, dw := entry_assign b, dbout := entry_output (entry_assign b) (dbout d)\<rparr>"
  have "c \<noteq> END_MARKER" "(of_nat c :: 8 word) = b" using byte_less [of b] b(2) by auto
  then have "decode_step maxBits d = ok (True, d')"
    using b1(1) b2(1) by (simp add: decode_step_def Let_def n_def [symmetric] d'_def)
  moreover have "wbits (dbout d') = wbits (dbout d) @ unpack (cur s)" "write_inv (dbout d')" "write_flag (dbout d')"
    using output_chars_wbits [of "dbout d" "[b]"] y by (simp_all add: d'_def entry_output_def entry_assign_def b(1))
  moreover have "knows (nx s) s d'" by (rule knows_init) (simp_all add: t d'_def)
  ultimately show ?thesis
    using b2 t b(1) by (auto simp: caught_up_def dec_ok_def d'_def MAX_CODE_def entry_assign_def)
qed

lemma lz_inv_inj: "lz_inv maxBits s \<Longrightarrow> tab s a = Some c \<Longrightarrow> tab s b = Some c \<Longrightarrow> a = b"
  unfolding lz_inv_def by (metis domI inj_onD)

lemma lz_inv_code:
  "lz_inv maxBits s \<Longrightarrow> tab s str = Some c \<Longrightarrow> c \<noteq> RESET_TABLE \<and> c \<noteq> END_MARKER \<and> c < nx s \<and> c < 2 ^ nb s"
  unfolding lz_inv_def by fastforce

lemma knows_lookup: "knows n s d \<Longrightarrow> tab s str = Some c \<Longrightarrow> c < n \<Longrightarrow> \<exists>e. dtable d c = Some e \<and> chars e = str"
  unfolding knows_def by blast

lemma knows_bound: "knows n s d \<Longrightarrow> dtable d c = Some e \<Longrightarrow> c < n"
  unfolding knows_def by blast

lemma sync_knows: "sync maxBits s d [] \<Longrightarrow> knows (nx s - 1) s d"
  by (simp add: sync_def)

text \<open>The entry the decoder finds for a code, the one it does not have yet included.\<close>

lemma decode_entry:
  assumes "sync maxBits s d []" "lz_inv maxBits s" "tab s (cur s) = Some c"
  shows "\<exists>e. find_entry c d = ok e \<and> chars e = cur s"
proof (cases "c < nx s - 1")
  case True
  from knows_lookup [OF sync_knows [OF assms(1)] assms(3) this] show ?thesis by (auto simp: find_entry_def)
next
  case False
  then have c: "c = nx s - 1" using lz_inv_code [OF assms(2,3)] by linarith
  note y = assms(1) [unfolded sync_def knows_def]
  have "dtable d c = None" using y c by (cases "dtable d c") auto
  moreover have cur: "cur s = chars (dw d) @ [hd (cur s)]"
    using lz_inv_inj [OF assms(2,3)] y c by simp
  moreover have "hd (cur s) = hd (chars (dw d))" using y arg_cong [OF cur, of hd] by simp
  ultimately show ?thesis
    using y c by (auto simp: find_entry_def firstChar_def entry_plus_def hd_conv_nth)
qed

lemma knows_upd:
  assumes "knows n s d" "tab s str = Some n" "lz_inv maxBits s" "chars e = str" "dtable d' = (dtable d)(n \<mapsto> e)"
  shows "knows (n + 1) s d'"
proof -
  have "tab s (chars e') = Some c \<and> c < n + 1" if "dtable d' c = Some e'" for c e'
    using assms(1,2,4,5) that unfolding knows_def by (cases "c = n") (simp_all add: less_SucI)
  moreover have "\<exists>e'. dtable d' c = Some e' \<and> chars e' = str'" if "tab s str' = Some c" "c < n + 1" for str' c
  proof (cases "c = n")
    case True
    then show ?thesis using lz_inv_inj [OF assms(3,2)] that(1) assms(4,5) by simp
  next
    case False
    then show ?thesis using knows_lookup [OF assms(1) that(1)] that(2) assms(5) by simp
  qed
  ultimately show ?thesis unfolding knows_def by blast
qed

lemma decode_emission_plain:
  assumes "sync maxBits s d []" "lz_inv maxBits s" "maxBits \<le> 30" "tab s (cur s) = Some c"
    "rbits (dbin d) = code_bits [(c, nb s)] @ rest"
  shows "\<exists>d'. decode_step maxBits d = ok (True, d') \<and> caught_up s d' \<and> rbits (dbin d') = rest \<and>
           wbits (dbout d') = wbits (dbout d) @ unpack (cur s)"
proof -
  note y = assms(1) [unfolded sync_def dec_ok_def, simplified]
  have nb: "nb s \<le> 30" using assms(2,3) by (simp add: lz_inv_def)
  note c = lz_inv_code [OF assms(2,4)]
  obtain b where b: "read_code (dbin d) (nb s) = ok (c, b)" "read_inv b" "\<not> padded b" "rbits b = rest"
    using read_code_full [of "dbin d" "nb s" c rest] y assms(5) nb c by auto
  obtain e where e: "find_entry c d = ok e" "chars e = cur s"
    using decode_entry [OF assms(1,2,4)] by auto
  have f: "firstChar e = ok (hd (cur s))" using y e(2) by (simp add: firstChar_def hd_conv_nth)
  define n where "n = (entry_plus (dw d) (hd (cur s)))\<lparr>code := dnext d\<rparr>"
  define d' where "d' = (widen maxBits d)\<lparr>dbin := b, dbout := entry_output e (dbout d),
    dtable := (dtable d)(dnext d \<mapsto> n), dnext := dnext d + 1, dw := e\<rparr>"
  have "find_entry c ((widen maxBits d)\<lparr>dbin := b\<rparr>) = find_entry c d" by (simp add: find_entry_def split: option.split)
  then have "decode_code c ((widen maxBits d)\<lparr>dbin := b\<rparr>) = ok d'"
    using e(1) f by (simp add: decode_code_def d'_def n_def)
  then have "decode_step maxBits d = ok (True, d')"
    using b(1) y c by (simp add: decode_step_def Let_def)
  moreover have "wbits (dbout d') = wbits (dbout d) @ unpack (cur s)" "write_inv (dbout d')" "write_flag (dbout d')"
    using output_chars_wbits [of "dbout d" "cur s"] y e(2) by (simp_all add: d'_def entry_output_def)
  moreover have "knows (nx s - 1 + 1) s d'"
    by (rule knows_upd [OF _ _ assms(2), of _ d "chars (dw d) @ [hd (cur s)]" n])
      (use y in \<open>simp_all add: d'_def n_def entry_plus_def\<close>)
  ultimately show ?thesis
    using b y e(2) widen_dmax [of d maxBits] by (auto simp: caught_up_def dec_ok_def d'_def)
qed

lemma decode_emission:
  assumes "sync maxBits s d pre" "lz_inv maxBits s" "maxBits \<le> 30" "tab s (cur s) = Some c"
    "rbits (dbin d) = code_bits (pre @ [(c, nb s)]) @ rest"
  shows "\<exists>d'. decode_step maxBits d = ok (True, d') \<and> caught_up s d' \<and> rbits (dbin d') = rest \<and>
           wbits (dbout d') = wbits (dbout d) @ unpack (cur s)"
  using decode_emission_reset [OF assms(1) _ assms(2,4,5)] decode_emission_plain [OF _ assms(2,3,4), of d rest] assms(1,5)
  by (cases "pre = []") auto

lemma widen_caught_up:
  assumes "caught_up s d"
  shows "dnbits (widen maxBits d) = (if nx s \<ge> 2 ^ nb s - 2 then min maxBits (nb s + 1) else nb s)"
  using assms by (simp add: caught_up_def dec_ok_def widen_def)

text \<open>After the code of the current word the decoder is in step with the encoder that has taken the next byte.\<close>

lemma sync_next:
  assumes "caught_up s d" "lz_inv maxBits s" "maxBits \<le> 30" "tab s (cur s @ [x]) = None" "lz_step maxBits x s = (cs, s')" "cur s \<noteq> []"
  shows "\<exists>pre. sync maxBits s' d pre \<and> cs = (the (tab s (cur s)), nb s) # pre"
proof -
  note k = assms(1) [unfolded caught_up_def] and v = assms(2) [unfolded lz_inv_def] and w = widen_caught_up [OF assms(1), of maxBits]
  define t where "t = (tab s)(cur s @ [x] \<mapsto> nx s)"
  have "(2 :: nat) ^ nb s \<ge> 512" using v power_increasing [of 9 "nb s" "2 :: nat"] by simp
  then have eq: "nx s + 1 \<ge> 2 ^ nb s - 1 \<longleftrightarrow> nx s \<ge> 2 ^ nb s - 2" by linarith
  have kn: "knows (nx s) (s\<lparr>tab := t, nx := m, cur := [x], nb := n\<rparr>) d" for m n
    using k assms(4) unfolding knows_def t_def by (auto 0 3)
  consider "nx s + 1 \<ge> 2 ^ nb s - 1" "nb s = maxBits" | "nx s + 1 \<ge> 2 ^ nb s - 1" "nb s < maxBits" | "\<not> nx s + 1 \<ge> 2 ^ nb s - 1"
    using v by linarith
  then show ?thesis
  proof cases
    case 1
    then have "s' = lz_init\<lparr>cur := [x]\<rparr>" "cs = [(the (tab s (cur s)), nb s), (RESET_TABLE, nb s)]"
      using assms(4,5) by (simp_all add: lz_step_def)
    moreover have "dnbits (widen maxBits d) = nb s" "dec_ok d" "MIN_BITS \<le> nb s" "nb s \<le> 30" using 1 k v w assms(3) by simp_all
    ultimately show ?thesis by (simp add: sync_def)
  next
    case 2
    then have "s' = s\<lparr>tab := t, nx := nx s + 1, cur := [x], nb := nb s + 1\<rparr>" "cs = [(the (tab s (cur s)), nb s)]"
      using assms(4,5) by (simp_all add: lz_step_def t_def)
    moreover have "dnbits (widen maxBits d) = nb s + 1" using 2 w eq by simp
    ultimately show ?thesis using k v kn [where m = "nx s + 1" and n = "nb s + 1"] assms(6) by (simp add: sync_def t_def)
  next
    case 3
    then have "s' = s\<lparr>tab := t, nx := nx s + 1, cur := [x], nb := nb s\<rparr>" "cs = [(the (tab s (cur s)), nb s)]"
      using assms(4,5) by (auto simp: lz_step_def t_def)
    moreover have "dnbits (widen maxBits d) = nb s" using 3 w eq by simp
    ultimately show ?thesis using k v kn [where m = "nx s + 1" and n = "nb s"] assms(6) by (simp add: sync_def t_def)
  qed
qed

lemma lzw_decode_loop_step: "decode_step maxBits d = ok (True, d') \<Longrightarrow> lzw_decode_loop maxBits d = lzw_decode_loop maxBits d'"
  by (subst lzw_decode_loop.simps) simp

lemma lzw_decode_loop_stop: "decode_step maxBits d = ok (False, d') \<Longrightarrow> lzw_decode_loop maxBits d = Some (ok d')"
  by (subst lzw_decode_loop.simps) simp

lemma lzw_decode_loop_throw: "decode_step maxBits d = throw e \<Longrightarrow> lzw_decode_loop maxBits d = Some (throw e)"
  by (subst lzw_decode_loop.simps) simp

lemma lzw_decode_run:
  "sync maxBits s d pre \<Longrightarrow> lz_inv maxBits s \<Longrightarrow> maxBits \<le> 30 \<Longrightarrow> lz_run maxBits s xs = (cs, s') \<Longrightarrow>
   rbits (dbin d) = code_bits (pre @ cs) @ rest \<Longrightarrow>
   \<exists>d' pre'. lzw_decode_loop maxBits d = lzw_decode_loop maxBits d' \<and> sync maxBits s' d' pre' \<and> lz_inv maxBits s' \<and>
     rbits (dbin d') = code_bits pre' @ rest \<and> wbits (dbout d') @ unpack (cur s') = wbits (dbout d) @ unpack (cur s @ xs)"
proof (induction xs arbitrary: s d pre cs)
  case Nil
  then show ?case by auto
next
  case (Cons x xs)
  obtain ds s1 es where run: "lz_step maxBits x s = (ds, s1)" "lz_run maxBits s1 xs = (es, s')" "cs = ds @ es"
    using Cons.prems(4) by (auto split: prod.splits)
  note inv1 = lz_step_inv [OF Cons.prems(2) run(1)]
  show ?case
  proof (cases "tab s (cur s @ [x])")
    case (Some c)
    then have s1: "s1 = s\<lparr>cur := cur s @ [x]\<rparr>" "ds = []" using run(1) by (simp_all add: lz_step_def)
    have "s1 = lz_init\<lparr>cur := cur s1\<rparr>" if "s = lz_init\<lparr>cur := cur s\<rparr>"
      unfolding s1 by (subst that) simp
    then have "sync maxBits s1 d pre" using Cons.prems(1) by (auto simp: sync_def s1(1) knows_def)
    from Cons.IH [OF this inv1 Cons.prems(3) run(2)] show ?thesis
      using Cons.prems(5) run(3) s1 by simp
  next
    case None
    then have c: "cur s \<noteq> []" using Cons.prems(2) by (auto simp: lz_inv_def)
    then obtain c where tc: "tab s (cur s) = Some c" using Cons.prems(2) by (auto simp: lz_inv_def)
    have "(c, nb s) # tl ds = ds" using None tc run(1) by (auto simp: lz_step_def Let_def split: if_splits)
    then have "rbits (dbin d) = code_bits (pre @ [(c, nb s)]) @ code_bits (tl ds @ es) @ rest"
      using Cons.prems(5) unfolding run(3) by (metis append.assoc append_Cons append_Nil code_bits_simps(3))
    from decode_emission [OF Cons.prems(1-3) tc this] obtain d1
      where d1: "decode_step maxBits d = ok (True, d1)" "caught_up s d1" "rbits (dbin d1) = code_bits (tl ds @ es) @ rest"
        "wbits (dbout d1) = wbits (dbout d) @ unpack (cur s)" by auto
    obtain pre1 where p: "sync maxBits s1 d1 pre1" "tl ds = pre1"
      using sync_next [OF d1(2) Cons.prems(2,3) None run(1) c] by auto
    have "cur s1 = [x]" using None run(1) by (auto simp: lz_step_def Let_def split: if_splits)
    then show ?thesis
      using Cons.IH [OF p(1) inv1 Cons.prems(3) run(2)] d1(3,4) p(2) lzw_decode_loop_step [OF d1(1)] by auto
  qed
qed

section \<open>The end of the stream\<close>

text \<open>
  The encoder writes \<open>END_MARKER\<close> in its current width; the decoder has added one more entry by then, and may have
  moved to the next width.
\<close>

definition width_clash :: "nat \<Rightarrow> lz \<Rightarrow> bool" where
  "width_clash maxBits s \<longleftrightarrow> cur s \<noteq> [] \<and> nb s < maxBits \<and> nx s = 2 ^ nb s - 2"

lemma end_code: "MIN_BITS \<le> n \<Longrightarrow> END_MARKER < 2 ^ n"
  using power_increasing [of 9 n "2 :: nat"] by simp

lemma decode_end_empty:
  assumes "sync maxBits s d pre" "cur s = []" "rbits (dbin d) = code_bits (pre @ [(END_MARKER, nb s)]) @ pad"
  shows "\<exists>d'. decode_step maxBits d = ok (False, d') \<and> dbout d' = dbout d"
proof -
  note y = assms(1) [unfolded sync_def dec_ok_def]
  define n where "n = dnbits (widen maxBits d)"
  have n: "9 \<le> n" "n \<le> 30" and pre: "pre = [(RESET_TABLE, n)]" and s: "s = lz_init\<lparr>cur := cur s\<rparr>"
    using y assms(2) by (simp_all add: n_def split: if_splits)
  have nb: "nb s = 9" by (subst s) (simp add: lz_init_def)
  have "(256 :: nat) < 2 ^ n" using end_code [OF n(1)] by linarith
  then obtain b1 where b1: "read_code (dbin d) n = ok (RESET_TABLE, b1)" "read_inv b1"
      "rbits b1 = bits_msb 9 (of_nat END_MARKER :: 64 word) @ pad"
    using read_code_full [of "dbin d" n RESET_TABLE] y assms(3) n(2) nb by (auto simp: pre)
  obtain b2 where "read_code b1 9 = ok (END_MARKER, b2)"
    using read_code_full [OF b1(2,3)] by auto
  then show ?thesis using b1(1) by (simp add: decode_step_def Let_def n_def [symmetric])
qed

lemma widen_end:
  assumes "caught_up s d" "lz_inv maxBits s" "cur s \<noteq> []"
  shows "dnbits (widen maxBits d) = (if width_clash maxBits s then nb s + 1 else nb s)"
proof -
  have "nx s \<ge> 2 ^ nb s - 2 \<longleftrightarrow> nx s = 2 ^ nb s - 2" "nb s \<le> maxBits" using assms(2) unfolding lz_inv_def by linarith+
  then show ?thesis using assms(3) by (simp add: widen_caught_up [OF assms(1)] width_clash_def)
qed

lemma decode_end:
  assumes "caught_up s d" "lz_inv maxBits s" "maxBits \<le> 30" "cur s \<noteq> []" "rbits (dbin d) = code_bits [(END_MARKER, nb s)] @ pad"
    "\<not> width_clash maxBits s \<or> pad = []"
  shows "\<exists>d'. decode_step maxBits d = ok (False, d') \<and> dbout d' = dbout d"
proof -
  note k = assms(1) [unfolded caught_up_def dec_ok_def] and v = assms(2) [unfolded lz_inv_def]
  define n where "n = dnbits (widen maxBits d)"
  have n: "n = (if width_clash maxBits s then nb s + 1 else nb s)"
    unfolding n_def by (rule widen_end [OF assms(1,2,4)])
  have "\<exists>b. read_code (dbin d) n = ok (END_MARKER, b)"
  proof (cases "width_clash maxBits s")
    case True
    then have l: "length (rbits (dbin d)) < n" using n assms(5,6) by simp
    show ?thesis
      by (rule br.get_eof [OF _ l, of "of_nat END_MARKER"]) (use k in \<open>simp_all add: read_code_def\<close>)
  next
    case False
    then show ?thesis
      using read_code_full [of "dbin d" "nb s" END_MARKER pad] k v assms(3,5) end_code [of "nb s"] n by auto
  qed
  then show ?thesis by (auto simp: decode_step_def Let_def n_def)
qed

lemma shifted_end:
  "bits_msb n (of_nat END_MARKER :: 64 word) @ [False] = bits_msb (n + 1) (of_nat 514 :: 64 word)"
proof -
  have "drop_bit 1 (514 :: 64 word) = 257" "bits_msb 1 (514 :: 64 word) = [False]" by (simp_all add: bits_msb_Suc)
  then show ?thesis using bits_msb_add [of n 1 "514 :: 64 word"] by (simp only: of_nat_numeral)
qed

text \<open>The misread end marker is 514: no code of nine bits, and the code of some word from ten bits on.\<close>

definition lz_full :: "lz \<Rightarrow> bool" where
  "lz_full s \<longleftrightarrow> (\<forall>c. FIRST_CODE \<le> c \<and> c < nx s \<longrightarrow> (\<exists>str. tab s str = Some c))"

lemma lz_full_init: "lz_full lz_init"
  by (auto simp: lz_full_def lz_init_def)

lemma lz_full_upd:
  assumes "lz_full s" "tab s str = None" "tab s' = (tab s)(str \<mapsto> nx s)" "nx s' = nx s + 1"
  shows "lz_full s'"
  unfolding lz_full_def
proof (intro allI impI)
  fix c assume c: "FIRST_CODE \<le> c \<and> c < nx s'"
  show "\<exists>str. tab s' str = Some c"
  proof (cases "c = nx s")
    case False
    then obtain t where "tab s t = Some c" using c assms(1,4) by (auto simp: lz_full_def)
    then show ?thesis using assms(2,3) by (intro exI [of _ t]) auto
  qed (use assms(3) in \<open>auto intro!: exI [of _ str]\<close>)
qed

lemma lz_step_full:
  assumes "lz_full s" "lz_step maxBits x s = (cs, s')"
  shows "lz_full s'"
proof (cases "tab s (cur s @ [x])")
  case (Some c)
  then have "s' = s\<lparr>cur := cur s @ [x]\<rparr>" using assms(2) by (simp add: lz_step_def)
  then show ?thesis using assms(1) by (simp add: lz_full_def)
next
  case None
  consider "s' = lz_init\<lparr>cur := [x]\<rparr>" | "tab s' = (tab s)(cur s @ [x] \<mapsto> nx s)" "nx s' = nx s + 1"
    using assms(2) None by (auto simp: lz_step_def Let_def split: if_splits)
  then show ?thesis
    by cases (use lz_full_init lz_full_upd [OF assms(1) None] in \<open>simp_all add: lz_full_def\<close>)
qed

lemma lz_run_full: "lz_full s \<Longrightarrow> lz_run maxBits s xs = (cs, s') \<Longrightarrow> lz_full s'"
  by (induction xs arbitrary: s cs) (auto split: prod.splits dest: lz_step_full)

lemma decode_end_clash:
  assumes "caught_up s d" "lz_inv maxBits s" "maxBits \<le> 30" "width_clash maxBits s" "lz_full s"
    "rbits (dbin d) = code_bits [(END_MARKER, nb s)] @ False # pad"
  shows "if nb s = MIN_BITS then decode_step maxBits d = throw AssertionFailed
         else \<exists>d' ys. decode_step maxBits d = ok (True, d') \<and> ys \<noteq> [] \<and> dec_ok d' \<and> dnbits d' = nb s + 1 \<and> dnext d' = nx s + 1 \<and>
           rbits (dbin d') = pad \<and> wbits (dbout d') = wbits (dbout d) @ unpack ys"
proof -
  note k = assms(1) [unfolded caught_up_def dec_ok_def] and v = assms(2) [unfolded lz_inv_def] and c = assms(4) [unfolded width_clash_def]
  have kn: "knows (nx s) s d" using k by blast
  have n: "dnbits (widen maxBits d) = nb s + 1" using widen_end [OF assms(1,2)] c assms(4) by simp
  have "rbits (dbin d) = bits_msb (nb s + 1) (of_nat 514 :: 64 word) @ pad"
    using assms(6) shifted_end [of "nb s"] by (metis append.assoc append_Cons append_Nil code_bits_simps(1,2))
  moreover have "(514 :: nat) < 2 ^ (nb s + 1)" using v power_increasing [of 10 "nb s + 1" "2 :: nat"] by simp
  ultimately obtain b where b: "read_code (dbin d) (nb s + 1) = ok (514, b)" "read_inv b" "rbits b = pad" "\<not> padded b"
    using read_code_full [of "dbin d" "nb s + 1" 514 pad] k c assms(3) by auto
  let ?d = "(widen maxBits d)\<lparr>dbin := b\<rparr>"
  have step: "decode_step maxBits d = rbind (decode_code 514 ?d) (\<lambda>d. ok (True, d))"
    using b(1) n by (simp add: decode_step_def Let_def)
  show ?thesis
  proof (cases "nb s = MIN_BITS")
    case True
    then have "nx s = 510" using c by simp
    moreover from this have "dtable d 514 = None" using knows_bound [OF kn, of 514] by (cases "dtable d 514") auto
    moreover have "dnext d = nx s" using k by blast
    ultimately have "find_entry 514 ?d = throw AssertionFailed" by (simp add: find_entry_def)
    then show ?thesis using True step by (simp add: decode_code_def)
  next
    case False
    then have "10 \<le> nb s" using v by linarith
    then have "514 < nx s" using c power_increasing [of 10 "nb s" "2 :: nat"] by simp
    then obtain str where str: "tab s str = Some 514" using assms(5) [unfolded lz_full_def, rule_format, of 514] by auto
    from knows_lookup [OF kn str \<open>514 < nx s\<close>] obtain e where e: "dtable d 514 = Some e" "chars e = str" by auto
    have "str \<noteq> []" using v str by blast
    define d' where "d' = ?d\<lparr>dbout := entry_output e (dbout d),
      dtable := (dtable d)(dnext d \<mapsto> (entry_plus (dw d) (str ! 0))\<lparr>code := dnext d\<rparr>), dnext := dnext d + 1, dw := e\<rparr>"
    have "decode_step maxBits d = ok (True, d')"
      using step e \<open>str \<noteq> []\<close> by (simp add: decode_code_def find_entry_def firstChar_def d'_def)
    moreover have "dec_ok d'" "wbits (dbout d') = wbits (dbout d) @ unpack str"
      using output_chars_wbits [of "dbout d" str] k e(2) b \<open>str \<noteq> []\<close> widen_dmax [of d maxBits]
      by (simp_all add: dec_ok_def d'_def entry_output_def)
    moreover have "dnbits d' = nb s + 1" "dnext d' = nx s + 1" "rbits (dbin d') = pad" using n k b(3) by (simp_all add: d'_def)
    ultimately show ?thesis using False \<open>str \<noteq> []\<close> by auto
  qed
qed

definition misread_end :: "nat \<Rightarrow> 8 word list \<Rightarrow> bool" where
  "misread_end maxBits xs \<longleftrightarrow>
     width_clash maxBits (snd (lz_run maxBits lz_init xs)) \<and> length (code_bits (lz_codes maxBits xs)) mod 8 \<noteq> 0"

lemma Compress_decode_Some:
  assumes "lzw_decode_loop maxBits (decoder_init input) = Some (ok d)" "dbout d = dbout d'" "dec_ok d'" "wbits (dbout d') = unpack ys"
  shows "Compress_decode maxBits input = Some (ok (length ys, ys))"
  using assms close_bytes [of "dbout d'" ys] by (simp add: Compress_decode_def decoder_init_def dec_ok_def)

lemma sync_init:
  "MIN_BITS \<le> maxBits \<Longrightarrow> sync maxBits lz_init (decoder_init input) [(RESET_TABLE, MIN_BITS)]"
  by (simp add: sync_def dec_ok_def decoder_init_def widen_def MAX_CODE_def lz_init_def)

lemma padding_Nil_iff: "padding n = [] \<longleftrightarrow> n mod 8 = 0"
proof -
  have "(8 - n mod 8) mod 8 = 0 \<longleftrightarrow> n mod 8 = 0" by presburger
  then show ?thesis by (simp add: padding_def)
qed

lemma padding_Cons:
  assumes "n mod 8 \<noteq> 0"
  shows "\<exists>pad. padding n = False # pad \<and> length pad < 7"
proof -
  define m where "m = n mod 8"
  have "m < 8" "m \<noteq> 0" using assms by (simp_all add: m_def)
  then have "(8 - m) mod 8 = Suc (7 - m)" "7 - m < 7" by (simp_all add: mod_less)
  then show ?thesis by (simp add: padding_def m_def)
qed

text \<open>What the decoder does once every byte of the input has gone through the encoder.\<close>

lemma decode_finish:
  assumes "sync maxBits s d pre" "lz_inv maxBits s" "maxBits \<le> 30" "lz_full s"
    "rbits (dbin d) = code_bits pre @ code_bits (lz_final s) @ pad" "pad = padding n"
  shows "if width_clash maxBits s \<and> n mod 8 \<noteq> 0
     then if nb s = MIN_BITS then lzw_decode_loop maxBits d = Some (throw AssertionFailed)
          else \<exists>d1 d2 ys. lzw_decode_loop maxBits d = Some (ok d1) \<and> dbout d1 = dbout d2 \<and> dec_ok d2 \<and> ys \<noteq> [] \<and>
                 wbits (dbout d2) = wbits (dbout d) @ unpack (cur s @ ys)
     else \<exists>d1 d2. lzw_decode_loop maxBits d = Some (ok d1) \<and> dbout d1 = dbout d2 \<and> dec_ok d2 \<and>
                 wbits (dbout d2) = wbits (dbout d) @ unpack (cur s)"
proof (cases "cur s = []")
  case True
  then obtain d' where "decode_step maxBits d = ok (False, d')" "dbout d' = dbout d"
    using decode_end_empty [OF assms(1), of pad] assms(5) by (auto simp: lz_final_def)
  moreover have "\<not> width_clash maxBits s" "dec_ok d" using True assms(1) by (simp_all add: width_clash_def sync_def)
  ultimately show ?thesis using True lzw_decode_loop_stop [of maxBits d d'] by auto
next
  case False
  then obtain c where c: "tab s (cur s) = Some c" using assms(2) by (auto simp: lz_inv_def)
  obtain d1 where d1: "decode_step maxBits d = ok (True, d1)" "caught_up s d1" "rbits (dbin d1) = code_bits [(END_MARKER, nb s)] @ pad"
      "wbits (dbout d1) = wbits (dbout d) @ unpack (cur s)"
    using decode_emission [OF assms(1-3) c, of "code_bits [(END_MARKER, nb s)] @ pad"] assms(5) False c
    by (auto simp: lz_final_def)
  note l = lzw_decode_loop_step [OF d1(1)]
  show ?thesis
  proof (cases "width_clash maxBits s \<and> n mod 8 \<noteq> 0")
    case clash: True
    then obtain pad' where pad': "pad = False # pad'" "length pad' < 7" using padding_Cons [of n] assms(6) by auto
    note e = decode_end_clash [OF d1(2) assms(2,3) _ assms(4) d1(3) [unfolded pad'(1)]]
    show ?thesis
    proof (cases "nb s = MIN_BITS")
      case True
      then have "decode_step maxBits d1 = throw AssertionFailed" using e clash by simp
      then show ?thesis using True clash l lzw_decode_loop_throw by simp
    next
      case nb: False
      then obtain d2 ys where d2: "decode_step maxBits d1 = ok (True, d2)" "ys \<noteq> []" "dec_ok d2" "dnbits d2 = nb s + 1"
          "rbits (dbin d2) = pad'" "wbits (dbout d2) = wbits (dbout d1) @ unpack ys"
        using e clash by auto
      have "8 < dnbits (widen maxBits d2)"
        using d2(4) clash assms(2) by (auto simp: widen_def width_clash_def lz_inv_def)
      then have len: "length (rbits (dbin d2)) < dnbits (widen maxBits d2)" using d2(5) pad'(2) by simp
      have "\<exists>d3. decode_step maxBits d2 = ok (False, d3) \<and> dbout d3 = dbout d2"
        by (rule br.get_eof [OF _ len, of "of_nat END_MARKER"])
          (use d2(3) in \<open>simp_all add: dec_ok_def decode_step_def read_code_def Let_def\<close>)
      then obtain d3 where "lzw_decode_loop maxBits d2 = Some (ok d3)" "dbout d3 = dbout d2" using lzw_decode_loop_stop by blast
      moreover have "wbits (dbout d2) = wbits (dbout d) @ unpack (cur s @ ys)" using d2(6) d1(4) by simp
      ultimately show ?thesis using nb clash l lzw_decode_loop_step [OF d2(1)] d2(2,3) by auto
    qed
  next
    case fine: False
    then have "\<not> width_clash maxBits s \<or> pad = []" using assms(6) padding_Nil_iff [of n] by auto
    from decode_end [OF d1(2) assms(2,3) False d1(3) this] obtain d2
      where "lzw_decode_loop maxBits d1 = Some (ok d2)" "dbout d2 = dbout d1" using lzw_decode_loop_stop by blast
    moreover have "dec_ok d1" using d1(2) by (simp add: caught_up_def)
    ultimately show ?thesis using fine l d1(4) by auto
  qed
qed

lemma decode_encoded:
  assumes "MIN_BITS \<le> maxBits" "maxBits \<le> 30" "Compress_encode maxBits xs = ok (n, out)"
  shows "if misread_end maxBits xs
     then if nb (snd (lz_run maxBits lz_init xs)) = MIN_BITS then Compress_decode maxBits out = Some (throw AssertionFailed)
          else \<exists>ys. ys \<noteq> [] \<and> Compress_decode maxBits out = Some (ok (length (xs @ ys), xs @ ys))
     else Compress_decode maxBits out = Some (ok (length xs, xs))"
proof -
  obtain cs s where run: "lz_run maxBits lz_init xs = (cs, s)" by fastforce
  define bits where "bits = code_bits (lz_codes maxBits xs)"
  let ?d = "decoder_init out"
  have "unpack out = bits @ padding (length bits)"
    using Compress_encode_refines [OF assms(1), of xs] assms(3) by (auto simp: bits_def)
  then have r: "rbits (dbin ?d) = code_bits ([(RESET_TABLE, MIN_BITS)] @ cs) @ code_bits (lz_final s) @ padding (length bits)"
    using run by (simp add: decoder_init_def bits_def lz_codes_def)
  have inv: "lz_inv maxBits lz_init" using lz_inv_init [OF assms(1), of lz_init] by (simp add: lz_init_def)
  have full: "lz_full s" by (rule lz_run_full [OF lz_full_init run])
  obtain d pre where d: "lzw_decode_loop maxBits ?d = lzw_decode_loop maxBits d" "sync maxBits s d pre" "lz_inv maxBits s"
      "rbits (dbin d) = code_bits pre @ code_bits (lz_final s) @ padding (length bits)" "wbits (dbout d) @ unpack (cur s) = unpack xs"
    using lzw_decode_run [OF sync_init [OF assms(1)] inv assms(2) run r] by (auto simp: decoder_init_def lz_init_def)
  note f = decode_finish [OF d(2,3) assms(2) full d(4) refl]
  have m: "misread_end maxBits xs \<longleftrightarrow> width_clash maxBits s \<and> length bits mod 8 \<noteq> 0"
    using run by (simp add: misread_end_def bits_def)
  have "Compress_decode maxBits out = Some (throw AssertionFailed)" if "lzw_decode_loop maxBits d = Some (throw AssertionFailed)"
    using that d(1) by (simp add: Compress_decode_def decoder_init_def)
  moreover have "Compress_decode maxBits out = Some (ok (length (xs @ ys), xs @ ys))"
    if "lzw_decode_loop maxBits d = Some (ok d1)" "dbout d1 = dbout d2" "dec_ok d2" "wbits (dbout d2) = wbits (dbout d) @ unpack (cur s @ ys)"
    for d1 d2 ys
    by (rule Compress_decode_Some [OF _ that(2,3)]) (use that d(1,5) in \<open>simp_all flip: append_assoc\<close>)
  from calculation this [where ys = "[]"] this show ?thesis using f unfolding m run snd_conv by (auto split: if_splits)
qed

section \<open>Every stream of bytes is decoded or rejected\<close>

lemma read_code_progress:
  "read_code b n = ok (k, b') \<Longrightarrow> n \<noteq> 0 \<Longrightarrow> k \<noteq> END_MARKER \<Longrightarrow> progress b' < progress b"
  "read_code b n = ok (k, b') \<Longrightarrow> progress b' \<le> progress b"
  by (auto simp: read_code_def rbind_eq_Inr_iff intro!: BitIO_read_progress intro: BitIO_read_progress_le)

lemma decode_code_dbin: "decode_code k d = ok d' \<Longrightarrow> dbin d' = dbin d \<and> dnbits d' = dnbits d"
  by (auto simp: decode_code_def rbind_eq_Inr_iff Let_def)

lemma decode_step_progress:
  assumes "decode_step maxBits d = ok (True, d')" "0 < maxBits" "0 < dnbits d"
  shows "progress (dbin d') < progress (dbin d) \<and> 0 < dnbits d'"
proof -
  define n where "n = dnbits (widen maxBits d)"
  have n: "0 < n" using assms(2,3) by (simp add: n_def widen_def)
  obtain k b where k: "read_code (dbin d) n = ok (k, b)" "k \<noteq> END_MARKER"
    using assms(1) by (auto simp: decode_step_def Let_def rbind_eq_Inr_iff n_def split: if_splits)
  note p = read_code_progress(1) [OF k(1) _ k(2)]
  show ?thesis
  proof (cases "k = RESET_TABLE")
    case True
    then obtain k' b' where b': "read_code b 9 = ok (k', b')" "dbin d' = b'" "dnbits d' = 9"
      using assms(1) k by (auto simp: decode_step_def Let_def rbind_eq_Inr_iff n_def [symmetric] split: if_splits)
    then show ?thesis using p n read_code_progress(2) [OF b'(1)] by simp
  next
    case False
    then have "decode_code k ((widen maxBits d)\<lparr>dbin := b\<rparr>) = ok d'"
      using assms(1) k by (auto simp: decode_step_def Let_def rbind_eq_Inr_iff n_def [symmetric])
    from decode_code_dbin [OF this] show ?thesis using p n by (simp add: n_def)
  qed
qed

lemma lzw_decode_loop_returns: "0 < maxBits \<Longrightarrow> 0 < dnbits d \<Longrightarrow> \<exists>r. lzw_decode_loop maxBits d = Some r"
proof (induction "progress (dbin d)" arbitrary: d rule: less_induct)
  case less
  consider e where "decode_step maxBits d = throw e" | d' where "decode_step maxBits d = ok (False, d')"
    | d' where "decode_step maxBits d = ok (True, d')"
    by (cases "decode_step maxBits d") auto
  then show ?case
  proof cases
    case 3
    then show ?thesis
      using less.hyps [of d'] decode_step_progress [OF 3 less.prems] less.prems(1) lzw_decode_loop_step [OF 3] by simp
  qed (simp_all add: lzw_decode_loop_throw lzw_decode_loop_stop)
qed

section \<open>Inputs on which the end marker is misread\<close>

lemma lz_step_nx: "lz_step maxBits x s = (cs, s') \<Longrightarrow> FIRST_CODE \<le> nx s \<Longrightarrow> FIRST_CODE \<le> nx s' \<and> nx s' \<le> nx s + 1"
  by (auto simp: lz_step_def Let_def lz_init_def split: option.splits if_splits)

lemma lz_run_nx: "lz_run maxBits s xs = (cs, s') \<Longrightarrow> FIRST_CODE \<le> nx s \<Longrightarrow> nx s' \<le> nx s + length xs"
proof (induction xs arbitrary: s cs)
  case (Cons x xs)
  then show ?case by (fastforce dest: lz_step_nx split: prod.splits)
qed simp

lemma lz_run_inv: "lz_run maxBits s xs = (cs, s') \<Longrightarrow> lz_inv maxBits s \<Longrightarrow> lz_inv maxBits s'"
  by (induction xs arbitrary: s cs) (auto split: prod.splits dest: lz_step_inv)

lemma lz_step_first: "lz_step maxBits x lz_init = ([], lz_init\<lparr>cur := [x]\<rparr>)"
  by (simp add: lz_step_def lz_init_def)

lemma no_misread:
  assumes "MIN_BITS \<le> maxBits" "maxBits = MIN_BITS \<or> length xs \<le> 252"
  shows "\<not> misread_end maxBits xs"
proof (cases xs)
  case Nil
  then show ?thesis by (simp add: misread_end_def width_clash_def lz_init_def)
next
  case (Cons x ys)
  obtain cs s where run: "lz_run maxBits (lz_init\<lparr>cur := [x]\<rparr>) ys = (cs, s)" by fastforce
  have "lz_inv maxBits (lz_init\<lparr>cur := [x]\<rparr>)" using lz_inv_init [OF assms(1), of "lz_init\<lparr>cur := [x]\<rparr>"] by simp
  then have nb: "MIN_BITS \<le> nb s" using lz_run_inv [OF run] by (simp add: lz_inv_def)
  have "nx s \<le> FIRST_CODE + length ys" using lz_run_nx [OF run] by (simp add: lz_init_def)
  moreover have "(512 :: nat) \<le> 2 ^ nb s" using nb power_increasing [of 9 "nb s" "2 :: nat"] by simp
  ultimately have "\<not> width_clash maxBits s" using assms(2) nb Cons by (auto simp: width_clash_def)
  then show ?thesis using run Cons by (simp add: misread_end_def lz_step_first)
qed

text \<open>On distinct bytes no word of two bytes is met twice, and every byte costs a code.\<close>

lemma distinct_run:
  "cur s = [a] \<Longrightarrow> \<forall>b. tab s [b] = Some (unat b) \<Longrightarrow> \<forall>u v. tab s [u, v] \<noteq> None \<longrightarrow> u \<notin> set (a # xs) \<Longrightarrow>
   distinct (a # xs) \<Longrightarrow> nb s = MIN_BITS \<Longrightarrow> nx s + length xs < 511 \<Longrightarrow> lz_run maxBits s xs = (cs, s') \<Longrightarrow>
   nx s' = nx s + length xs \<and> nb s' = MIN_BITS \<and> cur s' \<noteq> [] \<and> length (code_bits cs) = 9 * length xs"
proof (induction xs arbitrary: s a cs)
  case (Cons x xs)
  have "tab s [a, x] = None" using Cons.prems(3) by (metis list.set_intros(1))
  then have step: "lz_step maxBits x s = ([(unat a, 9)], s\<lparr>tab := (tab s)([a, x] \<mapsto> nx s), nx := nx s + 1, cur := [x]\<rparr>)"
    (is "_ = (_, ?s)") using Cons.prems by (simp add: lz_step_def)
  obtain ds where ds: "lz_run maxBits ?s xs = (ds, s')" "cs = (unat a, 9) # ds"
    using Cons.prems(7) step by (auto split: prod.splits)
  have "nx s' = nx ?s + length xs \<and> nb s' = MIN_BITS \<and> cur s' \<noteq> [] \<and> length (code_bits ds) = 9 * length xs"
    by (rule Cons.IH [OF _ _ _ _ _ _ ds(1)]) (use Cons.prems in auto)
  then show ?case using ds(2) by simp
qed auto

lemma distinct_misread:
  assumes "distinct xs" "length xs = 253" "MIN_BITS < maxBits"
  shows "misread_end maxBits xs \<and> nb (snd (lz_run maxBits lz_init xs)) = MIN_BITS"
proof -
  obtain x ys where xs: "xs = x # ys" using assms(2) by (cases xs) auto
  obtain cs s where run: "lz_run maxBits (lz_init\<lparr>cur := [x]\<rparr>) ys = (cs, s)" by fastforce
  have "nx s = FIRST_CODE + length ys \<and> nb s = MIN_BITS \<and> cur s \<noteq> [] \<and> length (code_bits cs) = 9 * length ys"
    using distinct_run [OF _ _ _ _ _ _ run, of x] assms(1,2) xs by (simp add: lz_init_def)
  moreover have "length ys = 252" using assms(2) xs by simp
  ultimately show ?thesis
    using assms(3) run by (simp add: misread_end_def width_clash_def xs lz_step_first lz_codes_def lz_final_def)
qed

section \<open>Properties\<close>

text \<open>
  C4. \<^verbatim>\<open>Compress::decode\<close> gives back what \<^verbatim>\<open>Compress::encode\<close> was given, exactly when the end marker is not misread: for
  every width limit from 9 to 30 bits and every input the encoder succeeds, and decoding its bytes returns the
  input unless the input ends at the step where the decoder moves to the next code width and the encoder does not,
  with a last byte that is not full. With a limit of 9 bits, and for inputs of at most 252 bytes, that never happens.
\<close>

theorem Compress_roundtrip:
  assumes "MIN_BITS \<le> maxBits" "maxBits \<le> 30"
  shows "\<exists>out. Compress_encode maxBits xs = ok (length out, out) \<and>
    (Compress_decode maxBits out = Some (ok (length xs, xs)) \<longleftrightarrow> \<not> misread_end maxBits xs) \<and>
    (maxBits = MIN_BITS \<or> length xs \<le> 252 \<longrightarrow> \<not> misread_end maxBits xs)"
proof -
  obtain out where out: "Compress_encode maxBits xs = ok (length out, out)"
    using Compress_encode_refines [OF assms(1)] by blast
  then show ?thesis using decode_encoded [OF assms out] no_misread [OF assms(1)] by (auto split: if_splits)
qed

theorem Compress_roundtrip_witness:
  "\<exists>out. Compress_encode 16 [7, 7, 7] = ok (length out, out) \<and> Compress_decode 16 out = Some (ok (3, [7, 7, 7]))"
  using Compress_roundtrip [of 16 "[7, 7, 7]"] by auto

text \<open>
  C18. The misread end marker is reached from ordinary data: for every width limit above 9 (the default is 16), any 253
  distinct bytes are encoded without an error, and decoding the result fails on an assertion.
\<close>

theorem Compress_rejects_own_output:
  assumes "distinct xs" "length xs = 253" "MIN_BITS < maxBits" "maxBits \<le> 30"
  shows "\<exists>out. Compress_encode maxBits xs = ok (length out, out) \<and> Compress_decode maxBits out = Some (throw AssertionFailed)"
proof -
  have m: "MIN_BITS \<le> maxBits" using assms(3) by simp
  obtain out where out: "Compress_encode maxBits xs = ok (length out, out)"
    using Compress_encode_refines [OF m] by blast
  then show ?thesis using decode_encoded [OF m assms(4) out] distinct_misread [OF assms(1-3)] by auto
qed

lemma distinct_bytes: "n \<le> 256 \<Longrightarrow> distinct (map (of_nat :: nat \<Rightarrow> 8 word) [0..<n])"
  by (auto simp: distinct_map inj_on_def word_unat_eq_iff unsigned_of_nat take_bit_nat_eq_self)

theorem Compress_rejects_own_output_witness:
  "\<exists>out. Compress_encode 16 (map of_nat [0..<253]) = ok (length out, out) \<and> Compress_decode 16 out = Some (throw AssertionFailed)"
  by (rule Compress_rejects_own_output [OF distinct_bytes]) simp_all

text \<open>
  C19. The loop of \<^verbatim>\<open>Compress::decode\<close>, which has no bound, ends on every input: whatever the bytes of the stream, with a
  positive width limit the decoder returns or throws.
\<close>

theorem Compress_decode_returns:
  assumes "0 < maxBits"
  shows "\<exists>r. Compress_decode maxBits input = Some r"
proof -
  obtain r where "lzw_decode_loop maxBits (decoder_init input) = Some r"
    using lzw_decode_loop_returns [OF assms, of "decoder_init input"] by (auto simp: decoder_init_def)
  then show ?thesis by (cases r) (simp_all add: Compress_decode_def decoder_init_def)
qed

theorem Compress_decode_returns_witness: "\<exists>r. Compress_decode 16 [255, 255, 255] = Some r"
  by (rule Compress_decode_returns) simp

end
