(* ===== verification/Eckit_Queues.thy ===== *)
theory Eckit_Queues
  imports Eckit_Prelude
begin

text \<open>
  The two queues of the library: the growing ring buffer of bytes \<^verbatim>\<open>src/eckit/io/CircularBuffer.cc\<close> and the bounded
  queue between threads \<^verbatim>\<open>src/eckit/container/Queue.h\<close>.  The ring buffer is shown to refine a list of bytes through
  the interface \<^verbatim>\<open>byte_queue\<close>.  The operations of the thread queue run under its mutex; each is one atomic step, an
  operation that would block on the condition variable is the outcome \<^verbatim>\<open>Wait\<close>, and the interleavings of any number of
  threads are the runs of a step relation.
\<close>

section \<open>CircularBuffer\<close>

text \<open>The cells of a freshly allocated block are a parameter.\<close>

record 'a cbuffer =
  buf :: "'a list"
  increment :: nat
  bsize :: nat
  capacity :: nat
  pos :: nat
  used :: nat


definition cb_read :: "'a cbuffer \<Rightarrow> nat \<Rightarrow> 'a list \<times> 'a cbuffer" where
  "cb_read b want =
     (let len = min (used b) want;
          n = min (bsize b - pos b) len;
          out = take n (drop (pos b) (buf b)) @ take (len - n) (buf b)
      in (out, b\<lparr>pos := (pos b + len) mod bsize b, used := used b - len\<rparr>))"

text \<open>The reallocation inside \<^verbatim>\<open>write\<close>; the mutex is recursive, so \<^verbatim>\<open>read\<close> may be called.\<close>

definition cb_grow :: "(nat \<Rightarrow> 'a) \<Rightarrow> 'a cbuffer \<Rightarrow> nat \<Rightarrow> 'a cbuffer result" where
  "cb_grow fresh b extra =
     (let newsize = round_to (bsize b + extra) (increment b) in
      if newsize > capacity b then throw SeriousBug
      else
        (let save = used b; (out, b') = cb_read b save in
         ASSERT (length out = save)
           (ok (b'\<lparr>pos := 0, used := save, bsize := newsize, buf := memcpy (map fresh [0..<newsize]) 0 out save\<rparr>))))"

definition cb_put :: "'a cbuffer \<Rightarrow> 'a list \<Rightarrow> 'a cbuffer" where
  "cb_put b p =
     (let start = (pos b + used b) mod bsize b;
          n = min (bsize b - start) (length p);
          buf1 = memcpy (buf b) start p n;
          buf2 = memcpy buf1 0 (drop n p) (length p - n)
      in b\<lparr>buf := buf2, used := used b + length p\<rparr>)"

definition cb_write :: "(nat \<Rightarrow> 'a) \<Rightarrow> 'a cbuffer \<Rightarrow> 'a list \<Rightarrow> (nat \<times> 'a cbuffer) result" where
  "cb_write fresh b p =
     (let left = bsize b - used b in
      rbind (if length p > left then cb_grow fresh b (length p) else ok b) (\<lambda>b. ok (length p, cb_put b p)))"

definition cb_length :: "'a cbuffer \<Rightarrow> nat" where
  "cb_length b = used b"

definition cb_clear :: "'a cbuffer \<Rightarrow> 'a cbuffer" where
  "cb_clear b = b\<lparr>pos := 0, used := 0\<rparr>"

definition cb_capacity :: "'a cbuffer \<Rightarrow> nat" where
  "cb_capacity b = capacity b"

definition cb_size :: "'a cbuffer \<Rightarrow> nat" where
  "cb_size b = bsize b"

text \<open>The abstraction: the bytes from the read position on, around the end of the buffer.\<close>

definition cb_inv :: "'a cbuffer \<Rightarrow> bool" where
  "cb_inv b \<longleftrightarrow> length (buf b) = bsize b \<and> 0 < increment b \<and> pos b < bsize b \<and> used b \<le> bsize b \<and> bsize b \<le> capacity b"

definition contents :: "'a cbuffer \<Rightarrow> 'a list" where
  "contents b = take (used b) (drop (pos b) (buf b) @ take (pos b) (buf b))"

definition cb_fits :: "'a cbuffer \<Rightarrow> nat \<Rightarrow> bool" where
  "cb_fits b l \<longleftrightarrow> used b + l \<le> bsize b \<or> round_to (bsize b + l) (increment b) \<le> capacity b"




section \<open>Queue\<close>

record ('a, 'e) tqueue =
  queue :: "'a list"
  qmax :: nat
  interrupt :: "'e option"
  closed :: bool

datatype ('r, 'e) outcome = Return 'r | Raise 'e | AssertFail | Wait

definition Queue_new :: "nat \<Rightarrow> ('a, 'e) tqueue result" where
  "Queue_new mx = ASSERT (mx > 0) (ok \<lparr>queue = [], qmax = mx, interrupt = None, closed = False\<rparr>)"

definition maxSize :: "('a, 'e) tqueue \<Rightarrow> nat" where
  "maxSize q = qmax q"

text \<open>\<^verbatim>\<open>while (checkInterrupt() && waiting) cv_.wait(locker);\<close> followed by the rest of the operation.\<close>

definition monitor ::
    "bool \<Rightarrow> ('r, 'e) outcome \<times> ('a, 'e) tqueue \<Rightarrow> ('a, 'e) tqueue \<Rightarrow> ('r, 'e) outcome \<times> ('a, 'e) tqueue" where
  "monitor waiting rest q =
     (case interrupt q of
        Some x \<Rightarrow> (Raise x, q)
      | None \<Rightarrow> if waiting then (Wait, q) else rest)"

definition q_resize :: "nat \<Rightarrow> ('a, 'e) tqueue \<Rightarrow> (unit, 'e) outcome \<times> ('a, 'e) tqueue" where
  "q_resize sz q =
     (if \<not> sz > 0 then (AssertFail, q)
      else monitor (length (queue q) > sz)
             (if closed q then (AssertFail, q) else (Return (), q\<lparr>qmax := sz\<rparr>)) q)"

definition q_close :: "('a, 'e) tqueue \<Rightarrow> ('a, 'e) tqueue" where
  "q_close q = q\<lparr>closed := True\<rparr>"

definition q_closed :: "('a, 'e) tqueue \<Rightarrow> bool" where
  "q_closed q \<longleftrightarrow> closed q \<or> interrupt q \<noteq> None"

definition q_empty :: "('a, 'e) tqueue \<Rightarrow> bool" where
  "q_empty q \<longleftrightarrow> queue q = []"

definition q_interrupt :: "'e \<Rightarrow> ('a, 'e) tqueue \<Rightarrow> ('a, 'e) tqueue" where
  "q_interrupt x q = q\<lparr>interrupt := Some x\<rparr>"

definition q_pop :: "('a, 'e) tqueue \<Rightarrow> (int \<times> 'a option, 'e) outcome \<times> ('a, 'e) tqueue" where
  "q_pop q =
     (case interrupt q of
        Some x \<Rightarrow> (Raise x, q)
      | None \<Rightarrow>
          (case queue q of
             [] \<Rightarrow> if closed q then (Return (- 1, None), q) else (Wait, q)
           | e # es \<Rightarrow> (Return (int (length es), Some e), q\<lparr>queue := es\<rparr>)))"

definition q_pop_many :: "nat \<Rightarrow> ('a, 'e) tqueue \<Rightarrow> (int \<times> 'a list, 'e) outcome \<times> ('a, 'e) tqueue" where
  "q_pop_many n q =
     (case interrupt q of
        Some x \<Rightarrow> (Raise x, q)
      | None \<Rightarrow>
          if queue q = [] then if closed q then (Return (- 1, []), q) else (Wait, q)
          else
            (let count = min n (length (queue q))
             in (Return (int count, take count (queue q)), q\<lparr>queue := drop count (queue q)\<rparr>)))"

definition q_push :: "'a \<Rightarrow> ('a, 'e) tqueue \<Rightarrow> (nat, 'e) outcome \<times> ('a, 'e) tqueue" where
  "q_push e q =
     monitor (length (queue q) \<ge> qmax q)
       (if closed q then (AssertFail, q)
        else (Return (length (queue q @ [e])), q\<lparr>queue := queue q @ [e]\<rparr>)) q"

definition q_emplace :: "'a \<Rightarrow> ('a, 'e) tqueue \<Rightarrow> (nat, 'e) outcome \<times> ('a, 'e) tqueue" where
  "q_emplace e q =
     monitor (length (queue q) \<ge> qmax q)
       (if closed q then (AssertFail, q)
        else (Return (length (queue q @ [e])), q\<lparr>queue := queue q @ [e]\<rparr>)) q"

text \<open>The completed operations of all threads, in the order in which they hold the mutex.\<close>

datatype ('a, 'e) event =
  Pushed 'a | Popped "'a list" | Drained | Resized nat | Closed | Interrupted 'e | Failed

inductive queue_step :: "('a, 'e) tqueue \<Rightarrow> ('a, 'e) event \<Rightarrow> ('a, 'e) tqueue \<Rightarrow> bool" where
  push: "q_push e q = (Return n, q') \<Longrightarrow> queue_step q (Pushed e) q'"
| push_fails: "q_push e q = (r, q') \<Longrightarrow> r = AssertFail \<or> r = Raise x \<Longrightarrow> queue_step q Failed q'"
| pop: "q_pop q = (Return (n, Some e), q') \<Longrightarrow> queue_step q (Popped [e]) q'"
| pop_drained: "q_pop q = (Return (n, None), q') \<Longrightarrow> queue_step q Drained q'"
| pop_fails: "q_pop q = (Raise x, q') \<Longrightarrow> queue_step q Failed q'"
| pop_many: "q_pop_many k q = (Return (n, es), q') \<Longrightarrow> 0 \<le> n \<Longrightarrow> queue_step q (Popped es) q'"
| pop_many_drained: "q_pop_many k q = (Return (n, es), q') \<Longrightarrow> n < 0 \<Longrightarrow> queue_step q Drained q'"
| pop_many_fails: "q_pop_many k q = (Raise x, q') \<Longrightarrow> queue_step q Failed q'"
| resize: "q_resize m q = (Return (), q') \<Longrightarrow> queue_step q (Resized m) q'"
| resize_fails: "q_resize m q = (r, q') \<Longrightarrow> r = AssertFail \<or> r = Raise x \<Longrightarrow> queue_step q Failed q'"
| emplace: "q_emplace e q = (Return n, q') \<Longrightarrow> queue_step q (Pushed e) q'"
| emplace_fails: "q_emplace e q = (r, q') \<Longrightarrow> r = AssertFail \<or> r = Raise x \<Longrightarrow> queue_step q Failed q'"
| close: "queue_step q Closed (q_close q)"
| interrupts: "queue_step q (Interrupted x) (q_interrupt x q)"

inductive queue_run :: "('a, 'e) tqueue \<Rightarrow> ('a, 'e) event list \<Rightarrow> ('a, 'e) tqueue \<Rightarrow> bool" where
  start: "queue_run q [] q"
| step: "queue_run q tr q' \<Longrightarrow> queue_step q' ev q'' \<Longrightarrow> queue_run q (tr @ [ev]) q''"

fun pushed :: "('a, 'e) event list \<Rightarrow> 'a list" where
  "pushed [] = []"
| "pushed (Pushed e # tr) = e # pushed tr"
| "pushed (_ # tr) = pushed tr"

fun popped :: "('a, 'e) event list \<Rightarrow> 'a list" where
  "popped [] = []"
| "popped (Popped es # tr) = es @ popped tr"
| "popped (_ # tr) = popped tr"

definition q_inv :: "('a, 'e) tqueue \<Rightarrow> bool" where
  "q_inv q \<longleftrightarrow> 0 < qmax q \<and> length (queue q) \<le> qmax q"

section \<open>The ring buffer is a list of bytes\<close>

lemma mod_once: "x < 2 * n \<Longrightarrow> x mod n = (if x < n then x else x - n)" for x n :: nat
  by (simp add: mod_if)

lemma contents_nth:
  assumes "cb_inv b" "i < used b"
  shows "contents b ! i = buf b ! ((pos b + i) mod bsize b)"
proof (cases "pos b + i < bsize b")
  case True
  then show ?thesis using assms by (auto simp: contents_def cb_inv_def nth_append)
next
  case False
  then have "(pos b + i) mod bsize b = pos b + i - bsize b"
    using assms mod_once [of "pos b + i" "bsize b"] by (simp add: cb_inv_def)
  then show ?thesis using assms False by (auto simp: contents_def cb_inv_def nth_append add.commute)
qed

lemma length_contents [simp]: "cb_inv b \<Longrightarrow> length (contents b) = used b"
  by (auto simp: contents_def cb_inv_def)

lemma contents_eqI:
  assumes "cb_inv b" "used b = length xs" "\<And>i. i < length xs \<Longrightarrow> buf b ! ((pos b + i) mod bsize b) = xs ! i"
  shows "contents b = xs"
  using assms by (intro nth_equalityI) (simp_all add: contents_nth)

lemma ring_read:
  assumes "length xs = m" "p \<le> m" "len \<le> m"
  shows "take (min (m - p) len) (drop p xs) @ take (len - min (m - p) len) xs = take len (drop p xs @ take p xs)"
proof (cases "len \<le> m - p")
  case True
  then show ?thesis using assms by (simp add: min_absorb2)
next
  case False
  then have "min (m - p) len = m - p" "len - (m - p) \<le> p" using assms by auto
  then show ?thesis using assms False by (simp add: min_absorb1)
qed

lemma cb_read_spec:
  assumes "cb_inv b" "cb_read b n = (out, b')"
  shows "out = take n (contents b)" "contents b' = drop n (contents b)" "cb_inv b'"
    "bsize b' = bsize b" "capacity b' = capacity b" "increment b' = increment b"
proof -
  let ?len = "min (used b) n"
  have b': "b' = b\<lparr>pos := (pos b + ?len) mod bsize b, used := used b - ?len\<rparr>"
    and out: "out = take (min (bsize b - pos b) ?len) (drop (pos b) (buf b)) @ take (?len - min (bsize b - pos b) ?len) (buf b)"
    using assms(2) by (auto simp: cb_read_def Let_def)
  show inv: "cb_inv b'" using assms(1) by (auto simp: b' cb_inv_def)
  show "bsize b' = bsize b" "capacity b' = capacity b" "increment b' = increment b" by (simp_all add: b')
  show "contents b' = drop n (contents b)"
  proof (rule contents_eqI [OF inv])
    show "used b' = length (drop n (contents b))" using assms(1) by (simp add: b')
    fix i assume i: "i < length (drop n (contents b))"
    then have "drop n (contents b) ! i = buf b ! ((pos b + (n + i)) mod bsize b)" "?len = n"
      using assms(1) contents_nth [OF assms(1), of "n + i"] by auto
    then show "buf b' ! ((pos b' + i) mod bsize b') = drop n (contents b) ! i"
      by (simp add: b' mod_simps add.assoc)
  qed
  have "take n (contents b) = take ?len (drop (pos b) (buf b) @ take (pos b) (buf b))"
    unfolding contents_def take_take by (simp only: min.commute)
  moreover have "length (buf b) = bsize b" "pos b \<le> bsize b" "?len \<le> bsize b" using assms(1) by (auto simp: cb_inv_def)
  ultimately show "out = take n (contents b)" unfolding out using ring_read by metis
qed

lemma cb_grow_spec:
  assumes "cb_inv b" "round_to (bsize b + l) (increment b) \<le> capacity b"
  obtains b' where "cb_grow fresh b l = ok b'" "cb_inv b'" "contents b' = contents b" "used b' = used b" "bsize b + l \<le> bsize b'"
    "capacity b' = capacity b" "increment b' = increment b"
proof -
  obtain out b0 where r: "cb_read b (used b) = (out, b0)" by fastforce
  note s = cb_read_spec [OF assms(1) r]
  let ?n = "round_to (bsize b + l) (increment b)"
  let ?b = "b0\<lparr>pos := 0, used := used b, bsize := ?n, buf := memcpy (map fresh [0..<?n]) 0 out (used b)\<rparr>"
  have out: "out = contents b" "length out = used b" using s(1) assms(1) by simp_all
  have n: "bsize b + l \<le> ?n" using assms(1) by (intro round_to_ge) (simp add: cb_inv_def)
  have inv: "cb_inv ?b" using assms s(3) out n nth_memcpy(1) [of 0 "used b" "map fresh [0..<?n]" out] by (simp add: cb_inv_def s(5))
  have "contents ?b = contents b"
  proof (rule contents_eqI [OF inv])
    show "used ?b = length (contents b)" using assms(1) by simp
    fix i assume "i < length (contents b)"
    moreover from this have "i < ?n" using assms(1) n by (simp add: cb_inv_def)
    ultimately show "buf ?b ! ((pos ?b + i) mod bsize ?b) = contents b ! i"
      using out assms(1) n by (simp add: nth_memcpy(2) cb_inv_def)
  qed
  moreover have "cb_grow fresh b l = ok ?b" using assms(2) r out by (simp add: cb_grow_def Let_def)
  ultimately show ?thesis using that [of ?b] inv n s by simp
qed

lemma cb_put_spec:
  assumes inv: "cb_inv b" and fit: "used b + length p \<le> bsize b"
  shows "cb_inv (cb_put b p)" "contents (cb_put b p) = contents b @ p"
proof -
  define start where "start = (pos b + used b) mod bsize b"
  define n where "n = min (bsize b - start) (length p)"
  define b' where "b' = b\<lparr>buf := memcpy (memcpy (buf b) start p n) 0 (drop n p) (length p - n), used := used b + length p\<rparr>"
  have put: "cb_put b p = b'" by (simp add: cb_put_def Let_def b'_def n_def start_def)
  have l: "length (buf b) = bsize b" "pos b < bsize b" using inv by (simp_all add: cb_inv_def)
  have st: "start = (if pos b + used b < bsize b then pos b + used b else pos b + used b - bsize b)"
    unfolding start_def using l fit by (intro mod_once) simp
  have n: "start + n \<le> bsize b" "n \<le> length p" "length p \<le> start + n"
    using st l fit by (auto simp: n_def)
  define buf1 where "buf1 = memcpy (buf b) start p n"
  have b1: "length buf1 = bsize b" using nth_memcpy(1) [of start n "buf b" p] n l by (simp add: buf1_def)
  have b2: "length (buf b') = bsize b" using nth_memcpy(1) [of 0 "length p - n" buf1 "drop n p"] n b1 by (simp add: b'_def buf1_def [symmetric])
  have cell: "buf b' ! k = (if k < length p - n then p ! (n + k) else if start \<le> k \<and> k < start + n then p ! (k - start) else buf b ! k)"
    if "k < bsize b" for k
    using that n l b1 nth_memcpy(2) [of 0 "length p - n" buf1 "drop n p" k] nth_memcpy(2) [of start n "buf b" p k]
    by (simp add: b'_def buf1_def [symmetric])
  have inv': "cb_inv b'" using inv fit b2 by (simp add: cb_inv_def b'_def)
  then show "cb_inv (cb_put b p)" by (simp add: put)
  show "contents (cb_put b p) = contents b @ p" unfolding put
  proof (rule contents_eqI [OF inv'])
    show "used b' = length (contents b @ p)" using inv by (simp add: b'_def)
    fix i assume i: "i < length (contents b @ p)"
    then have i': "i < used b + length p" using inv by simp
    define k where "k = (pos b + i) mod bsize b"
    have k: "k < bsize b" "k = pos b + i \<or> k + bsize b = pos b + i"
      using l fit i' mod_once [of "pos b + i" "bsize b"] by (auto simp: k_def)
    have s: "start = pos b + used b \<or> start + bsize b = pos b + used b" using st by auto
    have n': "n = length p \<and> start + length p \<le> bsize b \<or> n + start = bsize b \<and> bsize b < start + length p"
      using n(1) by (auto simp: n_def)
    have "buf b' ! k = (if i < used b then buf b ! k else p ! (i - used b))"
    proof (cases "i < used b")
      case True
      have "length p \<le> k + n" using k(2) s n' True fit l(2) by (elim disjE conjE) linarith+
      moreover have "k < start + n \<Longrightarrow> k < start" using k(2) s n' True fit l(2) by (elim disjE conjE) linarith+
      ultimately show ?thesis using cell [OF k(1)] True by auto
    next
      case False
      then obtain j where j: "i = used b + j" "j < length p" using i' by (metis le_Suc_ex less_diff_conv2 not_less add_diff_cancel_left' add.commute)
      have "j < n \<Longrightarrow> k = start + j" using k s n' j(1) l(2) by (elim disjE conjE) linarith+
      moreover have "n \<le> j \<Longrightarrow> n + k = j" using k s n' j l(2) fit by (elim disjE conjE) linarith+
      ultimately show ?thesis using cell [OF k(1)] False j n(3) by (cases "j < n") auto
    qed
    then show "buf b' ! ((pos b' + i) mod bsize b') = (contents b @ p) ! i"
      using inv contents_nth [OF inv, of i] by (simp add: b'_def nth_append k_def)
  qed
qed

lemma cb_write_spec:
  assumes "cb_inv b"
  shows "cb_fits b (length p) \<Longrightarrow> \<exists>b'. cb_write fresh b p = ok (length p, b') \<and> cb_inv b' \<and> contents b' = contents b @ p"
    and "\<not> cb_fits b (length p) \<Longrightarrow> cb_write fresh b p = throw SeriousBug"
proof -
  assume f: "cb_fits b (length p)"
  show "\<exists>b'. cb_write fresh b p = ok (length p, b') \<and> cb_inv b' \<and> contents b' = contents b @ p"
  proof (cases "used b + length p \<le> bsize b")
    case True
    then show ?thesis using cb_put_spec [OF assms True] by (auto simp: cb_write_def Let_def)
  next
    case False
    then obtain b1 where g: "cb_grow fresh b (length p) = ok b1" "cb_inv b1" "contents b1 = contents b" "used b1 = used b"
      "bsize b + length p \<le> bsize b1"
      using cb_grow_spec [OF assms, of "length p" fresh] f by (auto simp: cb_fits_def)
    then have "used b1 + length p \<le> bsize b1" using assms by (simp add: cb_inv_def)
    moreover have "bsize b - used b < length p" using False assms unfolding cb_inv_def by linarith
    ultimately show ?thesis using cb_put_spec [OF g(2)] g by (simp add: cb_write_def Let_def)
  qed
next
  assume "\<not> cb_fits b (length p)"
  then have "bsize b - used b < length p" "capacity b < round_to (bsize b + length p) (increment b)"
    using assms by (auto simp: cb_fits_def cb_inv_def)
  then show "cb_write fresh b p = throw SeriousBug" by (simp add: cb_write_def cb_grow_def Let_def)
qed





section \<open>Runs of the thread queue\<close>

lemma pushed_append [simp]: "pushed (tr @ tr') = pushed tr @ pushed tr'"
  by (induction tr rule: pushed.induct) auto

lemma popped_append [simp]: "popped (tr @ tr') = popped tr @ popped tr'"
  by (induction tr rule: popped.induct) auto

lemmas queue_op_defs = q_push_def q_emplace_def q_pop_def q_pop_many_def q_resize_def q_close_def q_interrupt_def monitor_def

inductive_cases queue_stepE: "queue_step q ev q'"

lemma queue_step_fifo: "queue_step q ev q' \<Longrightarrow> queue q @ pushed [ev] = popped [ev] @ queue q'"
  by (erule queue_stepE) (auto simp: queue_op_defs Let_def split: option.splits if_splits list.splits)

lemma queue_step_inv: "queue_step q ev q' \<Longrightarrow> q_inv q \<Longrightarrow> q_inv q'"
  by (erule queue_stepE) (auto simp: queue_op_defs q_inv_def Let_def split: option.splits if_splits list.splits)

lemma queue_step_closed:
  "queue_step q ev q' \<Longrightarrow> closed q \<Longrightarrow> closed q' \<and> pushed [ev] = [] \<and> (ev = Drained \<longrightarrow> queue q = [])"
  by (erule queue_stepE) (auto simp: queue_op_defs Let_def split: option.splits if_splits list.splits)

lemma queue_run_fifo: "queue_run q tr q' \<Longrightarrow> queue q @ pushed tr = popped tr @ queue q'"
proof (induction rule: queue_run.induct)
  case (step q tr q' ev q'')
  then show ?case using queue_step_fifo [OF step(2)] by (metis append.assoc popped_append pushed_append)
qed simp

lemma queue_run_inv: "queue_run q tr q' \<Longrightarrow> q_inv q \<Longrightarrow> q_inv q'"
  by (induction rule: queue_run.induct) (auto intro: queue_step_inv)

lemma queue_run_closed: "queue_run q tr q' \<Longrightarrow> closed q \<Longrightarrow> closed q' \<and> pushed tr = []"
  by (induction rule: queue_run.induct) (auto dest: queue_step_closed)

lemma queue_run_pops:
  "interrupt q = None \<Longrightarrow> queue q = es @ rest \<Longrightarrow> queue_run q (map (\<lambda>e. Popped [e]) es) (q\<lparr>queue := rest\<rparr>)"
proof (induction es arbitrary: rest rule: rev_induct)
  case Nil
  then have "q\<lparr>queue := rest\<rparr> = q" by simp
  then show ?case using queue_run.start [of q] by simp
next
  case (snoc e es)
  then have "queue_run q (map (\<lambda>e. Popped [e]) es) (q\<lparr>queue := e # rest\<rparr>)" by simp
  moreover have "queue_step (q\<lparr>queue := e # rest\<rparr>) (Popped [e]) (q\<lparr>queue := rest\<rparr>)"
    by (rule queue_step.pop [of _ "int (length rest)"]) (simp add: q_pop_def snoc.prems(1))
  ultimately show ?case by (simp add: queue_run.step)
qed

section \<open>Properties\<close>



text \<open>
  A write either succeeds, returning the length and appending the bytes, or throws SeriousBug and leaves the
  buffer as it was.  It throws exactly when the free space is too small and the rounded-up new size is beyond the
  capacity.
\<close>

theorem cb_write_appends_or_throws:
  "cb_inv b \<Longrightarrow>
     (if used b + length p \<le> bsize b \<or> round_to (bsize b + length p) (increment b) \<le> capacity b
      then \<exists>b'. cb_write fresh b p = ok (length p, b') \<and> cb_inv b' \<and> contents b' = contents b @ p
      else cb_write fresh b p = throw SeriousBug)"
  using cb_write_spec [of b p fresh] by (simp add: cb_fits_def)

theorem cb_write_appends_or_throws_witness:
  "cb_write (\<lambda>_. 0) \<lparr>buf = [1, 2, 3, 4], increment = 4, bsize = 4, capacity = 10, pos = 1, used = 3\<rparr> [5, 6, 7, 8, 9 :: nat] =
     throw SeriousBug"
  using cb_write_appends_or_throws
    [of "\<lparr>buf = [1, 2, 3, 4], increment = 4, bsize = 4, capacity = 10, pos = 1, used = 3\<rparr>" "[5, 6, 7, 8, 9 :: nat]" "\<lambda>_. 0"]
  by (simp add: cb_inv_def round_to_def)

text \<open>
  C3. Elements leave the thread queue in the order in which they entered it, each exactly once, whatever the
  interleaving of producers, consumers, resizes, interrupts and the closing of the queue: what was pushed is what was
  popped followed by what is still queued.  The queue never holds more than its maximum, and the maximum stays positive.
\<close>

theorem queue_delivers_in_order:
  "\<lbrakk>Queue_new mx = ok q; queue_run q tr q'\<rbrakk> \<Longrightarrow>
     pushed tr = popped tr @ queue q' \<and> length (queue q') \<le> qmax q' \<and> 0 < qmax q'"
  using queue_run_fifo [of q tr q'] queue_run_inv [of q tr q']
  by (auto simp: Queue_new_def ASSERT_def q_inv_def split: if_splits)

theorem queue_delivers_in_order_witness:
  "\<exists>q q'. Queue_new 2 = ok q \<and> queue_run q [Pushed 1, Pushed 2, Popped [1], Closed] (q' :: (nat, nat) tqueue) \<and>
     [1, 2] = [1] @ queue q'"
proof -
  let ?q = "\<lambda>es c. \<lparr>queue = es, qmax = 2, interrupt = None, closed = c\<rparr> :: (nat, nat) tqueue"
  have new: "Queue_new 2 = ok (?q [] False)" by (simp add: Queue_new_def)
  have "queue_run (?q [] False) ([] @ [Pushed 1]) (?q [1] False)"
    by (rule queue_run.step, rule queue_run.start, rule queue_step.push [of _ _ 1]) (simp add: q_push_def monitor_def)
  then have "queue_run (?q [] False) (([] @ [Pushed 1]) @ [Pushed 2]) (?q [1, 2] False)"
    by (rule queue_run.step, intro queue_step.push [of _ _ 2]) (simp add: q_push_def monitor_def)
  then have "queue_run (?q [] False) ((([] @ [Pushed 1]) @ [Pushed 2]) @ [Popped [1]]) (?q [2] False)"
    by (rule queue_run.step, intro queue_step.pop [of _ 1]) (simp add: q_pop_def)
  then have "queue_run (?q [] False) (((([] @ [Pushed 1]) @ [Pushed 2]) @ [Popped [1]]) @ [Closed]) (q_close (?q [2] False))"
    by (rule queue_run.step) (rule queue_step.close)
  then have run: "queue_run (?q [] False) [Pushed 1, Pushed 2, Popped [1], Closed] (q_close (?q [2] False))" by simp
  then show ?thesis using queue_delivers_in_order [OF new run] new by auto
qed



text \<open>
  Closing the queue lets the consumers drain it.  A closed queue that is not interrupted can deliver all its
  elements and then reports its end with -1; and in every run from a closed queue nothing more is accepted, the queue
  stays closed, and what is popped is a prefix of what was queued.
\<close>

theorem closed_queue_drains:
  "\<lbrakk>closed q; interrupt q = None\<rbrakk> \<Longrightarrow>
     queue_run q (map (\<lambda>e. Popped [e]) (queue q) @ [Drained]) (q\<lparr>queue := []\<rparr>) \<and>
     fst (q_pop (q\<lparr>queue := []\<rparr>)) = Return (- 1, None) \<and>
     (\<forall>tr q'. queue_run q tr q' \<longrightarrow> pushed tr = [] \<and> closed q' \<and> queue q = popped tr @ queue q')"
proof -
  assume q: "closed q" "interrupt q = None"
  have "queue_step (q\<lparr>queue := []\<rparr>) Drained (q\<lparr>queue := []\<rparr>)"
    by (rule queue_step.pop_drained [of _ "- 1"]) (simp add: q_pop_def q)
  then have "queue_run q (map (\<lambda>e. Popped [e]) (queue q) @ [Drained]) (q\<lparr>queue := []\<rparr>)"
    using queue_run_pops [OF q(2), of "queue q" "[]"] by (simp add: queue_run.step)
  then show ?thesis
    using q queue_run_closed queue_run_fifo by (fastforce simp: q_pop_def)
qed

theorem closed_queue_drains_witness:
  "let q = \<lparr>queue = [3, 4 :: nat], qmax = 5, interrupt = None :: nat option, closed = True\<rparr>
   in queue_run q [Popped [3], Popped [4], Drained] (q\<lparr>queue := []\<rparr>)"
  using closed_queue_drains [of "\<lparr>queue = [3, 4 :: nat], qmax = 5, interrupt = None :: nat option, closed = True\<rparr>"]
  by simp

end
