(* ===== verification/Eckit_Dense.thy ===== *)
theory Eckit_Dense
  imports Eckit_Prelude
begin

text \<open>
  The two vector-backed containers \<^verbatim>\<open>DenseMap\<close> and \<^verbatim>\<open>DenseSet\<close> of \<^verbatim>\<open>src/eckit/container/\<close>: insertion appends and
  remembers that the storage may be unsorted, \<^verbatim>\<open>sort\<close> sorts and removes duplicates, and lookups assert that the storage is
  sorted and search it by bisection.  The standard algorithms are modelled by what they are documented to do:
  \<^verbatim>\<open>stable_sort\<close> and \<^verbatim>\<open>sort\<close> by \<^const>\<open>sort_key\<close>, \<^verbatim>\<open>unique\<close> by \<open>unique_by\<close>, \<^verbatim>\<open>lower_bound\<close> by the first
  position whose element is not before the key.

  The theory shows that a sorted map answers with the last value inserted for each key, that replacing and merging keep
  the storage strictly sorted, and that sets compare equal exactly when they hold the same values.
\<close>

section \<open>DenseMap\<close>

record ('k, 'v) dmap =
  items :: "('k \<times> 'v) list"
  msorted :: bool

definition DenseMap :: "('k, 'v) dmap" where
  "DenseMap = \<lparr>items = [], msorted = True\<rparr>"

definition dm_insert :: "'k \<Rightarrow> 'v \<Rightarrow> ('k, 'v) dmap \<Rightarrow> ('k, 'v) dmap" where
  "dm_insert k v m = m\<lparr>items := items m @ [(k, v)], msorted := False\<rparr>"

definition lower_bound :: "('a \<Rightarrow> bool) \<Rightarrow> 'a list \<Rightarrow> nat" where
  "lower_bound before xs = length (takeWhile before xs)"

definition dm_find :: "'k::linorder \<Rightarrow> ('k, 'v) dmap \<Rightarrow> nat option result" where
  "dm_find k m =
     (if items m = [] then ok None
      else ASSERT (msorted m)
        (let it = lower_bound (\<lambda>e. fst e < k) (items m) in
         if it \<noteq> length (items m) \<and> fst (items m ! it) = k then ok (Some it) else ok None))"

definition dm_replace :: "'k::linorder \<Rightarrow> 'v \<Rightarrow> ('k, 'v) dmap \<Rightarrow> ('k, 'v) dmap result" where
  "dm_replace k v m =
     rbind (dm_find k m) (\<lambda>it.
       case it of
         Some i \<Rightarrow> ok (m\<lparr>items := (items m)[i := (fst (items m ! i), v)]\<rparr>)
       | None \<Rightarrow> ok (dm_insert k v m))"

definition dm_clear :: "('k, 'v) dmap \<Rightarrow> ('k, 'v) dmap" where
  "dm_clear m = m\<lparr>items := [], msorted := True\<rparr>"

definition dm_sorted :: "('k, 'v) dmap \<Rightarrow> bool" where
  "dm_sorted m = msorted m"

definition dm_size :: "('k, 'v) dmap \<Rightarrow> nat result" where
  "dm_size m = ASSERT (msorted m) (ok (length (items m)))"

definition dm_empty :: "('k, 'v) dmap \<Rightarrow> bool" where
  "dm_empty m \<longleftrightarrow> items m = []"

fun unique_by :: "('a \<Rightarrow> 'b) \<Rightarrow> 'a list \<Rightarrow> 'a list" where
  "unique_by f [] = []"
| "unique_by f [x] = [x]"
| "unique_by f (x # y # zs) = (if f x = f y then unique_by f (x # zs) else x # unique_by f (y # zs))"

definition dm_sort :: "('k::linorder, 'v) dmap \<Rightarrow> ('k, 'v) dmap" where
  "dm_sort m =
     (if msorted m then m
      else m\<lparr>items := rev (unique_by fst (rev (sort_key fst (items m)))), msorted := True\<rparr>)"

definition dm_contains :: "'k::linorder \<Rightarrow> ('k, 'v) dmap \<Rightarrow> bool result" where
  "dm_contains k m = rbind (dm_find k m) (\<lambda>it. ok (it \<noteq> None))"

definition dm_get :: "'k::linorder \<Rightarrow> ('k, 'v) dmap \<Rightarrow> 'v result" where
  "dm_get k m = rbind (dm_find k m) (\<lambda>it. case it of Some i \<Rightarrow> ok (snd (items m ! i)) | None \<Rightarrow> throw OutOfBounds)"

definition dm_at :: "nat \<Rightarrow> ('k, 'v) dmap \<Rightarrow> 'v result" where
  "dm_at i m = ASSERT (i < length (items m)) (ok (snd (items m ! i)))"

text \<open>\<^verbatim>\<open>find\<close> followed by reading the value under the iterator, for the callers that test for \<^verbatim>\<open>end()\<close>.\<close>

definition dm_lookup :: "'k::linorder \<Rightarrow> ('k, 'v) dmap \<Rightarrow> 'v option result" where
  "dm_lookup k m = rbind (dm_find k m) (\<lambda>it. ok (map_option (\<lambda>i. snd (items m ! i)) it))"

section \<open>DenseSet\<close>

record 'v dset =
  vals :: "'v list"
  ssorted :: bool

definition DenseSet :: "'v dset" where
  "DenseSet = \<lparr>vals = [], ssorted = True\<rparr>"

definition ds_insert :: "'v::linorder \<Rightarrow> 'v dset \<Rightarrow> 'v dset" where
  "ds_insert v s =
     (let s' = (if vals s \<noteq> [] \<and> v \<le> last (vals s) then s\<lparr>ssorted := False\<rparr> else s)
      in s'\<lparr>vals := vals s' @ [v]\<rparr>)"

definition ds_clear :: "'v dset \<Rightarrow> 'v dset" where
  "ds_clear s = s\<lparr>vals := [], ssorted := True\<rparr>"

definition ds_sort :: "'v::linorder dset \<Rightarrow> 'v dset" where
  "ds_sort s = (if \<not> ssorted s then s\<lparr>vals := unique_by (\<lambda>v. v) (sort (vals s)), ssorted := True\<rparr> else s)"

definition ds_find :: "'v::linorder \<Rightarrow> 'v dset \<Rightarrow> nat option result" where
  "ds_find v s =
     (if vals s = [] then ok None
      else ASSERT (ssorted s)
        (let it = lower_bound (\<lambda>x. x < v) (vals s) in
         if it \<noteq> length (vals s) \<and> vals s ! it = v then ok (Some it) else ok None))"

definition ds_contains :: "'v::linorder \<Rightarrow> 'v dset \<Rightarrow> bool result" where
  "ds_contains v s = rbind (ds_find v s) (\<lambda>it. ok (it \<noteq> None))"

definition ds_at :: "nat \<Rightarrow> 'v dset \<Rightarrow> 'v result" where
  "ds_at i s = ASSERT (i < length (vals s)) (ok (vals s ! i))"

function merge_loop :: "'v::linorder list \<Rightarrow> 'v list \<Rightarrow> nat \<Rightarrow> nat \<Rightarrow> 'v list" where
  "merge_loop vs os i j =
     (if j < length os then
        if i \<ge> length vs \<or> vs ! i > os ! j then
          merge_loop (take i vs @ [os ! j] @ drop i vs) os (i + 1) (j + 1)
        else if vs ! i = os ! j then merge_loop vs os i (j + 1)
        else merge_loop vs os (i + 1) j
      else vs)"
  by pat_completeness auto
termination by (relation "measures [\<lambda>(vs, os, i, j). length os - j, \<lambda>(vs, os, i, j). length vs - i]") auto

declare merge_loop.simps [simp del]

definition ds_merge :: "'v::linorder dset \<Rightarrow> 'v dset \<Rightarrow> 'v dset result" where
  "ds_merge s other =
     (if vals other = [] then ok s
      else if vals s = [] then ok (s\<lparr>vals := vals other, ssorted := ssorted other\<rparr>)
      else ASSERT (ssorted s) (ASSERT (ssorted other)
        (ok (s\<lparr>vals := merge_loop (vals s) (vals other) 0 0\<rparr>))))"

definition ds_eq :: "'v dset \<Rightarrow> 'v dset \<Rightarrow> bool" where
  "ds_eq s t \<longleftrightarrow> vals s = vals t"

section \<open>Abstraction and invariants\<close>

definition dm_abs :: "('k, 'v) dmap \<Rightarrow> 'k \<rightharpoonup> 'v" where
  "dm_abs m = map_of (rev (items m))"

definition dm_inv :: "('k::linorder, 'v) dmap \<Rightarrow> bool" where
  "dm_inv m \<longleftrightarrow> (msorted m \<longrightarrow> sorted_wrt (<) (map fst (items m)))"

definition ds_inv :: "'v::linorder dset \<Rightarrow> bool" where
  "ds_inv s \<longleftrightarrow> (ssorted s \<longrightarrow> sorted_wrt (<) (vals s))"

section \<open>Sorting and searching\<close>

lemma map_of_unique_by: "map_of (unique_by fst xs) = map_of xs"
proof (induction "fst :: 'a \<times> 'b \<Rightarrow> 'a" xs rule: unique_by.induct)
  case (3 x y zs)
  then show ?case by (cases x; cases y) (auto simp: fun_eq_iff)
qed simp_all

lemma unique_by_Cons: "\<exists>ys. unique_by f (x # xs) = x # ys"
  by (induction f "x # xs" arbitrary: xs rule: unique_by.induct) auto

lemma set_unique_by: "set (unique_by f xs) \<subseteq> set xs"
  by (induction f xs rule: unique_by.induct) auto

lemma unique_by_image: "f ` set (unique_by f xs) = f ` set xs"
  by (induction f xs rule: unique_by.induct) auto

lemma unique_by_strict:
  fixes f :: "'a \<Rightarrow> 'b::linorder"
  shows "sorted_wrt (\<lambda>x y. f y \<le> f x) xs \<Longrightarrow> sorted_wrt (\<lambda>x y. f y < f x) (unique_by f xs)"
proof (induction f xs rule: unique_by.induct)
  case (3 f x y zs)
  show ?case
  proof (cases "f x = f y")
    case False
    have "\<forall>z \<in> set (unique_by f (y # zs)). f z < f x"
      using 3(3) False set_unique_by [of f "y # zs"] by (auto, force)
    then show ?thesis using 3 False by simp
  qed (use 3 in auto)
qed simp_all

lemma map_of_filter_key: "map_of xs k = map_of (filter (\<lambda>e. fst e = k) xs) k"
  by (induction xs) auto

lemma dm_sort_items:
  fixes m :: "('k::linorder, 'v) dmap"
  assumes "dm_inv m"
  shows "sorted_wrt (<) (map fst (items (dm_sort m)))" "msorted (dm_sort m)" "dm_inv (dm_sort m)" "dm_abs (dm_sort m) = dm_abs m"
proof -
  let ?s = "sort_key fst (items m)"
  have s: "sorted_wrt (\<lambda>x y. fst y \<le> fst x) (rev ?s)"
    using sorted_sort_key [of fst "items m"] by (simp add: sorted_wrt_rev sorted_wrt_map)
  have u: "sorted_wrt (<) (map fst (rev (unique_by fst (rev ?s))))"
    using unique_by_strict [OF s] by (simp add: sorted_wrt_map sorted_wrt_rev)
  then show a: "sorted_wrt (<) (map fst (items (dm_sort m)))" "msorted (dm_sort m)"
    using assms by (auto simp: dm_sort_def dm_inv_def)
  then show "dm_inv (dm_sort m)" by (simp add: dm_inv_def)
  have "map_of (rev ?s) = map_of (rev (items m))"
  proof
    fix k
    show "map_of (rev ?s) k = map_of (rev (items m)) k"
      by (subst (1 2) map_of_filter_key) (simp add: rev_filter [symmetric] sort_key_stable)
  qed
  then show "dm_abs (dm_sort m) = dm_abs m" by (simp add: dm_abs_def dm_sort_def map_of_unique_by)
qed


lemma lower_bound_sorted:
  fixes xs :: "('k::linorder \<times> 'v) list"
  assumes "sorted_wrt (<) (map fst xs)"
  shows "map_of xs k =
    (let it = lower_bound (\<lambda>e. fst e < k) xs in if it \<noteq> length xs \<and> fst (xs ! it) = k then Some (snd (xs ! it)) else None)"
  using assms
proof (induction xs)
  case (Cons x xs)
  consider "fst x < k" | "fst x = k" | "k < fst x" by fastforce
  then show ?case
  proof cases
    case 3
    then have "map_of xs k = None" using Cons.prems by (force simp: map_of_eq_None_iff)
    then show ?thesis using 3 by (auto simp: lower_bound_def)
  qed (use Cons in \<open>auto simp: lower_bound_def Let_def\<close>)
qed (simp add: lower_bound_def)

section \<open>The map\<close>

lemma dm_abs_sorted: "dm_inv m \<Longrightarrow> msorted m \<Longrightarrow> dm_abs m = map_of (items m)"
  by (simp add: dm_abs_def dm_inv_def map_of_rev_distinct strict_sorted_iff)

lemma dm_lookup_sorted:
  assumes "dm_inv m" "msorted m"
  shows "dm_lookup k m = ok (dm_abs m k)"
  using assms lower_bound_sorted [of "items m" k]
  by (auto simp: dm_lookup_def dm_find_def dm_abs_sorted dm_inv_def Let_def)

lemma dm_lookup_unsorted: "\<not> msorted m \<Longrightarrow> items m \<noteq> [] \<Longrightarrow> dm_lookup k m = throw AssertionFailed"
  by (simp add: dm_lookup_def dm_find_def ASSERT_def)

lemma dm_insert_abs: "dm_abs (dm_insert k v m) = (dm_abs m)(k \<mapsto> v)" "dm_inv (dm_insert k v m)"
  by (simp_all add: dm_abs_def dm_insert_def dm_inv_def)

lemma map_of_list_update:
  "distinct (map fst xs) \<Longrightarrow> i < length xs \<Longrightarrow> fst (xs ! i) = k \<Longrightarrow> map_of (xs[i := (k, v)]) = (map_of xs)(k \<mapsto> v)"
proof (induction xs arbitrary: i)
  case (Cons x xs)
  show ?case
  proof (cases i)
    case (Suc j)
    then have "fst x \<noteq> k" using Cons.prems by auto
    then show ?thesis using Cons Suc by (auto simp: fun_eq_iff)
  qed (use Cons in auto)
qed simp

lemma dm_replace_spec:
  assumes "dm_inv m" "msorted m"
  shows "\<exists>m'. dm_replace k v m = ok m' \<and> dm_inv m' \<and> dm_abs m' = (dm_abs m)(k \<mapsto> v) \<and> (msorted m' \<longleftrightarrow> dm_abs m k \<noteq> None)"
proof (cases "dm_abs m k")
  case None
  then have "dm_find k m = ok None"
    using dm_lookup_sorted [OF assms, of k] by (auto simp: dm_lookup_def rbind_eq_Inr_iff)
  then show ?thesis using None dm_insert_abs [of k v m] by (simp add: dm_replace_def dm_insert_def)
next
  case (Some w)
  then obtain i where i: "dm_find k m = ok (Some i)" 
    using dm_lookup_sorted [OF assms, of k] by (auto simp: dm_lookup_def rbind_eq_Inr_iff)
  then have ik: "i < length (items m)" "fst (items m ! i) = k"
    by (auto simp: dm_find_def ASSERT_def Let_def lower_bound_def split: if_splits)
      (metis le_neq_implies_less length_takeWhile_le)
  let ?m = "m\<lparr>items := (items m)[i := (k, v)]\<rparr>"
  have keys: "map fst (items ?m) = map fst (items m)" using ik by (metis dmap.select_convs(1) dmap.surjective dmap.update_convs(1) fst_conv list_update_id map_update nth_map)
  then have inv: "dm_inv ?m" using assms by (simp add: dm_inv_def)
  have "map_of ((items m)[i := (k, v)]) = (map_of (items m))(k \<mapsto> v)"
    using ik assms by (intro map_of_list_update) (simp_all add: dm_inv_def strict_sorted_iff)
  then show ?thesis using i ik inv Some assms dm_abs_sorted [OF inv] dm_abs_sorted [OF assms] by (simp add: dm_replace_def)
qed


locale indexed_map =
  fixes empty :: 'm
    and insert :: "'k \<Rightarrow> 'v \<Rightarrow> 'm \<Rightarrow> 'm"
    and sort :: "'m \<Rightarrow> 'm"
    and lookup :: "'k \<Rightarrow> 'm \<Rightarrow> 'v option result"
    and abs :: "'m \<Rightarrow> 'k \<rightharpoonup> 'v"
    and inv :: "'m \<Rightarrow> bool"
  assumes empty_map: "inv empty" "abs empty = Map.empty"
    and insert_map: "inv m \<Longrightarrow> inv (insert k v m)" "inv m \<Longrightarrow> abs (insert k v m) = (abs m)(k \<mapsto> v)"
    and sort_map: "inv m \<Longrightarrow> inv (sort m)" "inv m \<Longrightarrow> abs (sort m) = abs m"
    and lookup_map: "inv m \<Longrightarrow> lookup k (sort m) = ok (abs m k)"
begin

definition build :: "('k \<times> 'v) list \<Rightarrow> 'm" where
  "build kvs = foldl (\<lambda>m (k, v). insert k v m) empty kvs"

lemma build_map: "inv (build kvs)" "abs (build kvs) = map_of (rev kvs)"
proof -
  have "inv (build kvs) \<and> abs (build kvs) = map_of (rev kvs)"
  proof (induction kvs rule: rev_induct)
    case (snoc x kvs)
    then show ?case by (cases x) (simp add: build_def insert_map)
  qed (simp add: build_def empty_map)
  then show "inv (build kvs)" "abs (build kvs) = map_of (rev kvs)" by auto
qed

lemma lookup_built: "lookup k (sort (build kvs)) = ok (map_of (rev kvs) k)"
  by (simp add: lookup_map build_map)

end

interpretation dmi: indexed_map "DenseMap :: ('k::linorder, 'v) dmap" dm_insert dm_sort dm_lookup dm_abs dm_inv
proof unfold_locales
  fix m :: "('k, 'v) dmap" and k
  assume "dm_inv m"
  then show "dm_lookup k (dm_sort m) = ok (dm_abs m k)" using dm_lookup_sorted dm_sort_items by metis
qed (simp_all add: dm_insert_abs dm_sort_items, simp_all add: DenseMap_def dm_inv_def dm_abs_def)

lemma dm_size_sorted:
  assumes "dm_inv m" "msorted m"
  shows "dm_size m = ok (card (dom (dm_abs m)))"
proof -
  have "distinct (map fst (items m))" using assms by (simp add: dm_inv_def strict_sorted_iff)
  then have "card (set (map fst (items m))) = length (items m)" by (metis distinct_card length_map)
  then show ?thesis using assms by (simp add: dm_size_def dm_abs_sorted dom_map_of_conv_image_fst)
qed

section \<open>The set\<close>

lemma unique_by_sorted:
  "sorted (xs :: 'v::linorder list) \<Longrightarrow> sorted_wrt (<) (unique_by (\<lambda>v. v) xs)"
proof (induction "\<lambda>v :: 'v. v" xs rule: unique_by.induct)
  case (3 x y zs)
  show ?case
  proof (cases "x = y")
    case False
    have "\<forall>z \<in> set (unique_by (\<lambda>v. v) (y # zs)). x < z"
      using 3(3) False set_unique_by [of "\<lambda>v. v" "y # zs"] by (auto, force)
    then show ?thesis using 3 False by simp
  qed (use 3 in auto)
qed simp_all

lemma ds_insert_spec: "set (vals (ds_insert v s)) = insert v (set (vals s))" "ds_inv s \<Longrightarrow> ds_inv (ds_insert v s)"
proof -
  show "set (vals (ds_insert v s)) = insert v (set (vals s))" by (simp add: ds_insert_def Let_def)
  assume inv: "ds_inv s"
  show "ds_inv (ds_insert v s)"
  proof (cases "vals s \<noteq> [] \<and> v \<le> last (vals s)")
    case False
    have "\<forall>x \<in> set (vals s). x < v" if "ssorted s"
    proof (cases "vals s" rule: rev_cases)
      case (snoc ys y)
      then show ?thesis using inv that False by (auto simp: ds_inv_def sorted_wrt_append)
    qed simp
    then show ?thesis using inv False by (auto simp: ds_inv_def ds_insert_def Let_def sorted_wrt_append)
  qed (simp add: ds_inv_def ds_insert_def Let_def)
qed

lemma ds_sort_spec:
  assumes "ds_inv s"
  shows "set (vals (ds_sort s)) = set (vals s)" "ssorted (ds_sort s)" "ds_inv (ds_sort s)"
  using assms unique_by_sorted [of "sort (vals s)"] unique_by_image [of "\<lambda>v. v" "sort (vals s)"]
  by (auto simp: ds_sort_def ds_inv_def)

lemma lower_bound_set:
  fixes xs :: "'v::linorder list"
  assumes "sorted_wrt (<) xs"
  shows "v \<in> set xs \<longleftrightarrow> (let it = lower_bound (\<lambda>x. x < v) xs in it \<noteq> length xs \<and> xs ! it = v)"
  using assms
proof (induction xs)
  case (Cons x xs)
  consider "x < v" | "x = v" | "v < x" by fastforce
  then show ?case
  proof cases
    case 3
    then have "v \<notin> set xs" using Cons.prems by auto
    then show ?thesis using 3 by (auto simp: lower_bound_def)
  qed (use Cons in \<open>auto simp: lower_bound_def Let_def\<close>)
qed (simp add: lower_bound_def)

lemma ds_contains_sorted: "ds_inv s \<Longrightarrow> ssorted s \<Longrightarrow> ds_contains v s = ok (v \<in> set (vals s))"
  using lower_bound_set [of "vals s" v] by (auto simp: ds_contains_def ds_find_def ds_inv_def Let_def)

lemma merge_loop_spec:
  assumes "sorted_wrt (<) vs" "sorted_wrt (<) os" "i \<le> length vs" "j < length os \<Longrightarrow> \<forall>x \<in> set (take i vs). x < os ! j"
  shows "sorted_wrt (<) (merge_loop vs os i j) \<and> set (merge_loop vs os i j) = set vs \<union> set (drop j os)"
  using assms
proof (induction vs os i j rule: merge_loop.induct)
  case (1 vs os i j)
  show ?case
  proof (cases "j < length os")
    case False
    then show ?thesis using 1(4) by (simp add: merge_loop.simps)
  next
    case j: True
    have d: "set (drop j os) = insert (os ! j) (set (drop (Suc j) os))" using j by (metis Cons_nth_drop_Suc list.simps(15))
    have nxt: "Suc j < length os \<Longrightarrow> os ! j < os ! Suc j" using 1(5) by (simp add: sorted_wrt_nth_less)
    consider (ins) "i \<ge> length vs \<or> vs ! i > os ! j" | (eq) "i < length vs" "vs ! i = os ! j" | (less) "i < length vs" "vs ! i < os ! j"
      by fastforce
    then show ?thesis
    proof cases
      case ins
      let ?vs = "take i vs @ [os ! j] @ drop i vs"
      have up: "\<forall>x \<in> set (drop i vs). os ! j < x"
      proof (cases "i < length vs")
        case True
        then have "drop i vs = vs ! i # drop (Suc i) vs" by (simp add: Cons_nth_drop_Suc)
        moreover have "sorted_wrt (<) (drop i vs)" using 1(4) by (rule sorted_wrt_drop)
        ultimately show ?thesis using ins True by (auto dest: less_trans)
      qed simp
      have "sorted_wrt (<) (take i vs @ drop i vs)" using 1(4) by simp
      then have s: "sorted_wrt (<) ?vs" using up 1(7) [OF j] by (auto simp: sorted_wrt_append dest: less_trans)
      have "sorted_wrt (<) (merge_loop ?vs os (i + 1) (j + 1)) \<and> set (merge_loop ?vs os (i + 1) (j + 1)) = set ?vs \<union> set (drop (j + 1) os)"
        using 1(7) [OF j] 1(6) nxt j by (intro 1(1) [OF j ins s 1(5)]) (auto simp: min_absorb2 dest: less_trans)
      moreover have "set ?vs = insert (os ! j) (set vs)" by (metis append_take_drop_id set_append Un_insert_right Un_insert_left list.simps(15) append_Cons append_Nil)
      ultimately show ?thesis using j ins d by (subst (1 2) merge_loop.simps) auto
    next
      case eq
      then have "\<not> (length vs \<le> i \<or> os ! j < vs ! i)" by simp
      from 1(2) [OF j this eq(2) 1(4,5,6)] have "sorted_wrt (<) (merge_loop vs os i (j + 1)) \<and> set (merge_loop vs os i (j + 1)) = set vs \<union> set (drop (j + 1) os)"
        using 1(7) [OF j] nxt by (fastforce dest: less_trans)
      moreover have "os ! j \<in> set vs" using eq by (metis nth_mem)
      ultimately show ?thesis using j eq d by (subst (1 2) merge_loop.simps) auto
    next
      case less
      then have c: "\<not> (length vs \<le> i \<or> os ! j < vs ! i)" "vs ! i \<noteq> os ! j" by auto
      have "sorted_wrt (<) (merge_loop vs os (i + 1) j) \<and> set (merge_loop vs os (i + 1) j) = set vs \<union> set (drop j os)"
        using 1(7) [OF j] less by (intro 1(3) [OF j c 1(4,5)]) (auto simp: take_Suc_conv_app_nth)
      then show ?thesis using j c less by (subst (1 2) merge_loop.simps) auto
    qed
  qed
qed


lemma ds_merge_spec:
  assumes "ds_inv s" "ds_inv t" "ssorted s" "ssorted t"
  shows "\<exists>u. ds_merge s t = ok u \<and> ds_inv u \<and> ssorted u \<and> set (vals u) = set (vals s) \<union> set (vals t)"
  using merge_loop_spec [of "vals s" "vals t" 0 0] assms
  by (auto simp: ds_merge_def ds_inv_def)

lemma sorted_set_unique:
  "sorted_wrt (<) (xs :: 'v::linorder list) \<Longrightarrow> sorted_wrt (<) ys \<Longrightarrow> xs = ys \<longleftrightarrow> set xs = set ys"
  by (metis sorted_distinct_set_unique strict_sorted_iff)

lemma ds_inserts:
  "ds_inv s \<Longrightarrow> ds_inv (foldl (\<lambda>s v. ds_insert v s) s vs) \<and> set (vals (foldl (\<lambda>s v. ds_insert v s) s vs)) = set (vals s) \<union> set vs"
  by (induction vs arbitrary: s) (auto simp: ds_insert_spec)

section \<open>Properties\<close>

text \<open>
  C25. A map built by any sequence of insertions and then sorted answers, for every key, with the value inserted last under
  that key, or with \<^verbatim>\<open>end()\<close> when there is none, and its size is the number of distinct keys: the stable sort and the
  reverse \<^verbatim>\<open>unique\<close> together keep the newest value.
\<close>
theorem DenseMap_last_insert_wins:
  "let m = dm_sort (foldl (\<lambda>m (k, v). dm_insert k v m) DenseMap kvs) in
     dm_lookup k m = ok (map_of (rev kvs) k) \<and> dm_contains k m = ok (k \<in> fst ` set kvs) \<and>
     dm_size m = ok (card (fst ` set kvs))"
proof -
  define m where "m = foldl (\<lambda>m (k, v). dm_insert k v m) DenseMap kvs"
  have m: "dm_inv m" "dm_abs m = map_of (rev kvs)" using dmi.build_map [of kvs] by (simp_all add: m_def dmi.build_def)
  have l: "dm_lookup k (dm_sort m) = ok (map_of (rev kvs) k)" using dmi.lookup_map [OF m(1)] m(2) by simp
  then have "dm_contains k (dm_sort m) = ok (map_of (rev kvs) k \<noteq> None)"
    by (cases "map_of (rev kvs) k") (auto simp: dm_lookup_def dm_contains_def rbind_eq_Inr_iff)
  moreover have "dm_size (dm_sort m) = ok (card (fst ` set kvs))"
    using dm_size_sorted [OF dm_sort_items(3) [OF m(1)] dm_sort_items(2) [OF m(1)]] dm_sort_items(4) [OF m(1)] m(2)
    by (simp add: dom_map_of_conv_image_fst)
  moreover have "(map_of (rev kvs) k \<noteq> None) = (k \<in> fst ` set kvs)" by (simp add: map_of_eq_None_iff)
  ultimately show ?thesis using l by (simp add: m_def)
qed

text \<open>
  On a sorted map \<^verbatim>\<open>replace\<close> succeeds and binds the key to the new value, leaving every other key alone.  The map stays
  sorted exactly when the key was present: otherwise the appended item leaves it unsorted, and the next lookup of any key
  fails its assertion.
\<close>
theorem DenseMap_replace:
  assumes "dm_inv m" "dm_sorted m"
  shows "\<exists>m'. dm_replace k v m = ok m' \<and> dm_inv m' \<and> dm_abs m' = (dm_abs m)(k \<mapsto> v) \<and>
     dm_sorted m' = (dm_abs m k \<noteq> None) \<and> (dm_abs m k = None \<longrightarrow> dm_get j m' = throw AssertionFailed)"
proof -
  obtain m' where m': "dm_replace k v m = ok m'" "dm_inv m'" "dm_abs m' = (dm_abs m)(k \<mapsto> v)" "msorted m' \<longleftrightarrow> dm_abs m k \<noteq> None"
    using dm_replace_spec [of m k v] assms by (auto simp: dm_sorted_def)
  have "items m' \<noteq> []" using arg_cong [OF m'(3), of "\<lambda>f. f k"] by (auto simp: dm_abs_def)
  then show ?thesis using m' by (auto simp: dm_sorted_def dm_get_def dm_find_def ASSERT_def)
qed

theorem DenseMap_replace_witness:
  "\<exists>m'. dm_replace (2 :: nat) ''b'' \<lparr>items = [(1, ''a''), (3, ''c'')], msorted = True\<rparr> = ok m' \<and>
     dm_abs m' 2 = Some ''b'' \<and> dm_get 1 m' = throw AssertionFailed"
proof -
  let ?m = "\<lparr>items = [(1, ''a''), (3, ''c'')], msorted = True\<rparr> :: (nat, string) dmap"
  have "dm_inv ?m" "dm_sorted ?m" by (simp_all add: dm_inv_def dm_sorted_def)
  from DenseMap_replace [OF this, of 2 "''b''" 1] show ?thesis by (auto simp: dm_abs_def)
qed

text \<open>
  C13. Merging two sorted sets gives a sorted set without duplicates that holds the union of their values, and merging is
  insensitive to order: the two ways round compare equal.
\<close>
theorem DenseSet_merge_union:
  assumes "ds_inv s" "ds_inv t" "ssorted s" "ssorted t"
  shows "\<exists>u u'. ds_merge s t = ok u \<and> ds_merge t s = ok u' \<and> ds_eq u u' \<and> ssorted u \<and> sorted_wrt (<) (vals u) \<and>
     set (vals u) = set (vals s) \<union> set (vals t)"
proof -
  obtain u u' where u: "ds_merge s t = ok u" "ds_inv u" "ssorted u" "set (vals u) = set (vals s) \<union> set (vals t)"
    and u': "ds_merge t s = ok u'" "ds_inv u'" "ssorted u'" "set (vals u') = set (vals t) \<union> set (vals s)"
    using ds_merge_spec [OF assms] ds_merge_spec [OF assms(2,1,4,3)] by blast
  then have "vals u = vals u'" using sorted_set_unique [of "vals u" "vals u'"] by (auto simp: ds_inv_def)
  then show ?thesis using u u' by (auto simp: ds_eq_def ds_inv_def)
qed

theorem DenseSet_merge_union_witness:
  "\<exists>u. ds_merge \<lparr>vals = [1, 4, 9 :: nat], ssorted = True\<rparr> \<lparr>vals = [2, 4], ssorted = True\<rparr> = ok u \<and> set (vals u) = {1, 2, 4, 9}"
  using DenseSet_merge_union [of "\<lparr>vals = [1, 4, 9 :: nat], ssorted = True\<rparr>" "\<lparr>vals = [2, 4], ssorted = True\<rparr>"]
  by (auto simp: ds_inv_def)

text \<open>
  Two sets that have been filled by insertions in any order and then sorted compare equal exactly when the same values
  were inserted, and membership is by value: the flag that lets \<^verbatim>\<open>sort\<close> skip its work is only set when the storage
  is strictly increasing.
\<close>
theorem DenseSet_canonical:
  "let build = (\<lambda>vs. ds_sort (foldl (\<lambda>s v. ds_insert v s) DenseSet vs)) in
     ds_eq (build xs) (build ys) = (set xs = set ys) \<and> ds_contains v (build xs) = ok (v \<in> set xs)"
proof -
  define build where "build = (\<lambda>vs :: 'a list. ds_sort (foldl (\<lambda>s v. ds_insert v s) DenseSet vs))"
  have b: "ds_inv (build vs)" "ssorted (build vs)" "set (vals (build vs)) = set vs" for vs
    using ds_inserts [of DenseSet vs] ds_sort_spec [of "foldl (\<lambda>s v. ds_insert v s) DenseSet vs"]
    by (auto simp: build_def DenseSet_def ds_inv_def)
  then have "ds_eq (build xs) (build ys) = (set xs = set ys)"
    using sorted_set_unique [of "vals (build xs)" "vals (build ys)"] by (simp add: ds_eq_def ds_inv_def)
  then show ?thesis using ds_contains_sorted [OF b(1,2)] b(3) by (simp add: build_def)
qed

end
