(* ===== verification/Eckit_CacheLRU.thy ===== *)
theory Eckit_CacheLRU
  imports Eckit_Prelude "HOL-Library.AList"
begin

text \<open>
  The least-recently-used cache \<^verbatim>\<open>CacheLRU\<close> of \<^verbatim>\<open>src/eckit/container/CacheLRU.{h,cc}\<close>.

  The cache is a doubly linked list of entries, the most recently used one in front, and an ordered map from keys to
  iterators into that list.  An iterator is an address of a list node: it stays valid when other nodes move or go away.
  Nodes are therefore numbered (\<^verbatim>\<open>fresh\<close> is the next unused number), the map \<open>index\<close> leads from keys to node numbers, and
  dereferencing the number of a node that is no longer linked is an error.  The purge handler is the caller's; the model
  records the calls it receives.

  The theory shows that list and map stay consistent, that every operation acts on the recency list as a
  move-to-front list with a bound would, and that the cache always holds the most recent distinct keys.
\<close>

section \<open>The cache\<close>

type_synonym ('k, 'v) node = "nat \<times> 'k \<times> 'v"

record ('k, 'v) lru =
  storage :: "('k, 'v) node list"
  index :: "('k \<times> nat) list"
  capacity :: nat
  has_purge :: bool
  fresh :: nat
  purged :: "('k \<times> 'v) list"

definition CacheLRU :: "nat \<Rightarrow> bool \<Rightarrow> ('k, 'v) lru" where
  "CacheLRU cap handler =
     \<lparr>storage = [], index = [], capacity = cap, has_purge = handler, fresh = 0, purged = []\<rparr>"

definition lru_purge :: "'k \<Rightarrow> 'v \<Rightarrow> ('k, 'v) lru \<Rightarrow> ('k, 'v) lru" where
  "lru_purge k v c = (if has_purge c then c\<lparr>purged := purged c @ [(k, v)]\<rparr> else c)"

definition lru_erase :: "'k \<Rightarrow> nat \<Rightarrow> ('k, 'v) lru \<Rightarrow> ('k, 'v) lru" where
  "lru_erase k it c =
     c\<lparr>storage := filter (\<lambda>n. fst n \<noteq> it) (storage c), index := AList.delete k (index c)\<rparr>"

function lru_trim :: "('k, 'v) lru \<Rightarrow> ('k, 'v) lru result" where
  "lru_trim c =
     (if length (index c) > capacity c then
        if storage c = [] then throw OutOfBounds
        else
          (let (_, k, v) = last (storage c); c1 = lru_purge k v c in
           lru_trim (c1\<lparr>index := AList.delete k (index c1), storage := butlast (storage c1)\<rparr>))
      else ok c)"
  by pat_completeness auto
termination
  by (relation "measure (\<lambda>c. length (storage c))") (auto simp: lru_purge_def)

declare lru_trim.simps [simp del]

definition lru_insert :: "'k \<Rightarrow> 'v \<Rightarrow> ('k, 'v) lru \<Rightarrow> (bool \<times> ('k, 'v) lru) result" where
  "lru_insert k v c =
     (let (existed, c1) = (case map_of (index c) k of Some it \<Rightarrow> (True, lru_erase k it c) | None \<Rightarrow> (False, c));
          c2 = c1\<lparr>storage := (fresh c1, k, v) # storage c1, fresh := Suc (fresh c1), index := AList.update k (fresh c1) (index c1)\<rparr>
      in rbind (lru_trim c2) (\<lambda>c3. ok (existed, c3)))"

definition lru_valueFrom :: "nat \<Rightarrow> ('k, 'v) lru \<Rightarrow> 'v result" where
  "lru_valueFrom it c = (case map_of (storage c) it of Some (k, v) \<Rightarrow> ok v | None \<Rightarrow> throw OutOfBounds)"

definition lru_moveToFront :: "nat \<Rightarrow> ('k, 'v) lru \<Rightarrow> ('k, 'v) lru" where
  "lru_moveToFront it c =
     c\<lparr>storage := filter (\<lambda>n. fst n = it) (storage c) @ filter (\<lambda>n. fst n \<noteq> it) (storage c)\<rparr>"

definition lru_access :: "'k \<Rightarrow> ('k, 'v) lru \<Rightarrow> ('v \<times> ('k, 'v) lru) result" where
  "lru_access k c =
     (case storage c of
        (_, k', v') # _ \<Rightarrow>
          if k' = k then ok (v', c)
          else
            (case map_of (index c) k of
               Some it \<Rightarrow> (let c1 = lru_moveToFront it c in rbind (lru_valueFrom it c1) (\<lambda>v. ok (v, c1)))
             | None \<Rightarrow> throw OutOfRange)
      | [] \<Rightarrow>
          (case map_of (index c) k of
             Some it \<Rightarrow> (let c1 = lru_moveToFront it c in rbind (lru_valueFrom it c1) (\<lambda>v. ok (v, c1)))
           | None \<Rightarrow> throw OutOfRange))"

definition lru_extract :: "'k \<Rightarrow> ('k, 'v) lru \<Rightarrow> ('v \<times> ('k, 'v) lru) result" where
  "lru_extract k c =
     (case map_of (index c) k of
        None \<Rightarrow> throw OutOfRange
      | Some it \<Rightarrow> rbind (lru_valueFrom it c) (\<lambda>v. ok (v, lru_erase k it c)))"

definition lru_remove :: "'k \<Rightarrow> ('k, 'v) lru \<Rightarrow> (bool \<times> ('k, 'v) lru) result" where
  "lru_remove k c =
     (case map_of (index c) k of
        Some it \<Rightarrow>
          (case map_of (storage c) it of
             Some (k', v) \<Rightarrow> ok (True, lru_erase k it (lru_purge k' v c))
           | None \<Rightarrow> throw OutOfBounds)
      | None \<Rightarrow> ok (False, c))"

definition lru_exists :: "'k \<Rightarrow> ('k, 'v) lru \<Rightarrow> bool" where
  "lru_exists k c \<longleftrightarrow> map_of (index c) k \<noteq> None"

definition lru_clear :: "('k, 'v) lru \<Rightarrow> ('k, 'v) lru" where
  "lru_clear c = (foldl (\<lambda>c (_, k, v). lru_purge k v c) c (storage c))\<lparr>storage := [], index := []\<rparr>"

definition lru_size :: "('k, 'v) lru \<Rightarrow> nat" where
  "lru_size c = length (storage c)"

definition lru_capacity :: "nat \<Rightarrow> ('k, 'v) lru \<Rightarrow> ('k, 'v) lru result" where
  "lru_capacity cap c = lru_trim (c\<lparr>capacity := cap\<rparr>)"

section \<open>The recency list and the invariant\<close>

text \<open>
  The client's view of a cache is the list of its entries, most recently used first.  The invariant links the list and the
  map: node numbers and keys are distinct, and the map sends each key to the node that holds it.
\<close>

definition entries :: "('k, 'v) lru \<Rightarrow> ('k \<times> 'v) list" where
  "entries c = map snd (storage c)"

definition lru_inv :: "('k, 'v) lru \<Rightarrow> bool" where
  "lru_inv c \<longleftrightarrow> distinct (map fst (storage c)) \<and> distinct (map fst (entries c)) \<and> (\<forall>i \<in> fst ` set (storage c). i < fresh c) \<and>
     distinct (map fst (index c)) \<and> map_of (index c) = map_of (map (\<lambda>n. (fst (snd n), fst n)) (storage c))"

definition to_front :: "'k \<Rightarrow> 'v \<Rightarrow> ('k \<times> 'v) list \<Rightarrow> ('k \<times> 'v) list" where
  "to_front k v es = (k, v) # filter (\<lambda>e. fst e \<noteq> k) es"

fun recent :: "('k \<times> 'v) list \<Rightarrow> ('k \<times> 'v) list" where
  "recent [] = []"
| "recent (e # es) = to_front (fst e) (snd e) (recent es)"

definition lru_put :: "'k \<Rightarrow> 'v \<Rightarrow> ('k, 'v) lru \<Rightarrow> ('k, 'v) lru result" where
  "lru_put k v c = rbind (lru_insert k v c) (\<lambda>(_, c'). ok c')"

abbreviation key_index :: "('k, 'v) node list \<Rightarrow> ('k \<times> nat) list" where
  "key_index st \<equiv> map (\<lambda>n. (fst (snd n), fst n)) st"

lemma fst_key_index [simp]: "map fst (key_index st) = map (fst \<circ> snd) st"
  by simp

lemma keys_entries [simp]: "map fst (entries c) = map (fst \<circ> snd) (storage c)"
  by (simp add: entries_def)

lemma lru_inv_keys: "lru_inv c \<Longrightarrow> fst ` set (index c) = (fst \<circ> snd) ` set (storage c)"
proof -
  assume inv: "lru_inv c"
  then have "dom (map_of (index c)) = dom (map_of (key_index (storage c)))" by (simp add: lru_inv_def)
  then show ?thesis by (simp add: dom_map_of_conv_image_fst image_comp comp_def)
qed

lemma lru_inv_length: "lru_inv c \<Longrightarrow> length (index c) = length (storage c)"
  using distinct_card [of "map fst (index c)"] distinct_card [of "map (fst \<circ> snd) (storage c)"] lru_inv_keys [of c]
  by (simp add: lru_inv_def)

lemma lru_lookup:
  assumes "lru_inv c"
  shows "map_of (index c) k = Some it \<Longrightarrow> \<exists>v. (it, k, v) \<in> set (storage c) \<and> map_of (entries c) k = Some v \<and> map_of (storage c) it = Some (k, v)"
    and "map_of (index c) k = None \<Longrightarrow> map_of (entries c) k = None"
proof -
  have m: "map_of (index c) = map_of (key_index (storage c))" using assms by (simp add: lru_inv_def)
  assume "map_of (index c) k = Some it"
  then obtain v where v: "(it, k, v) \<in> set (storage c)" by (auto simp: m dest!: map_of_SomeD)
  moreover have "map_of (storage c) it = Some (k, v)" using v assms by (intro map_of_is_SomeI) (simp_all add: lru_inv_def)
  moreover have "(k, v) \<in> set (entries c)" using v by (force simp: entries_def)
  then have "map_of (entries c) k = Some v" using assms by (intro map_of_is_SomeI) (simp_all add: lru_inv_def)
  ultimately show "\<exists>v. (it, k, v) \<in> set (storage c) \<and> map_of (entries c) k = Some v \<and> map_of (storage c) it = Some (k, v)" by blast
next
  assume "map_of (index c) k = None"
  then have "k \<notin> (fst \<circ> snd) ` set (storage c)" using lru_inv_keys [OF assms] by (simp add: map_of_eq_None_iff)
  then show "map_of (entries c) k = None" by (simp add: map_of_eq_None_iff entries_def image_comp)
qed

lemma filter_node:
  assumes "distinct (map fst st)" "distinct (map (fst \<circ> snd) st)" "(it, k, v) \<in> set st"
  shows "filter (\<lambda>n. fst n \<noteq> it) st = filter (\<lambda>n. fst (snd n) \<noteq> k) st" "filter (\<lambda>n. fst n = it) st = [(it, k, v)]"
proof -
  obtain as bs where st: "st = as @ (it, k, v) # bs" using assms(3) by (meson split_list)
  have i: "it \<notin> fst ` set as \<union> fst ` set bs" "k \<notin> (fst \<circ> snd) ` set as \<union> (fst \<circ> snd) ` set bs" using assms(1,2) st by auto
  then have "filter (\<lambda>n. fst n \<noteq> it) as = as" "filter (\<lambda>n. fst n \<noteq> it) bs = bs" "filter (\<lambda>n. fst (snd n) \<noteq> k) as = as"
    "filter (\<lambda>n. fst (snd n) \<noteq> k) bs = bs" "filter (\<lambda>n. fst n = it) as = []" "filter (\<lambda>n. fst n = it) bs = []"
    by (auto simp: filter_id_conv filter_empty_conv image_iff)
  then show "filter (\<lambda>n. fst n \<noteq> it) st = filter (\<lambda>n. fst (snd n) \<noteq> k) st" "filter (\<lambda>n. fst n = it) st = [(it, k, v)]"
    using st by simp_all
qed

lemma map_of_delete_key_index:
  "(map_of (key_index st))(k := None) = map_of (key_index (filter (\<lambda>n. fst (snd n) \<noteq> k) st))"
  by (induction st) (auto simp: fun_eq_iff split: if_splits)

lemma lru_erase_spec:
  assumes "lru_inv c" "(it, k, v) \<in> set (storage c)"
  shows "lru_inv (lru_erase k it c)" "entries (lru_erase k it c) = filter (\<lambda>e. fst e \<noteq> k) (entries c)"
    "fresh (lru_erase k it c) = fresh c" "capacity (lru_erase k it c) = capacity c" "purged (lru_erase k it c) = purged c"
    "has_purge (lru_erase k it c) = has_purge c"
proof -
  have d: "distinct (map fst (storage c))" "distinct (map (fst \<circ> snd) (storage c))" using assms(1) by (simp_all add: lru_inv_def)
  let ?st = "filter (\<lambda>n. fst (snd n) \<noteq> k) (storage c)"
  have st: "storage (lru_erase k it c) = ?st" using filter_node(1) [OF d assms(2)] by (simp add: lru_erase_def)
  show e: "entries (lru_erase k it c) = filter (\<lambda>e. fst e \<noteq> k) (entries c)"
    by (simp add: entries_def st filter_map comp_def)
  have "map_of (index (lru_erase k it c)) = map_of (key_index ?st)"
    using assms(1) by (simp add: lru_erase_def lru_inv_def delete_conv' restrict_map_def map_of_delete_key_index [symmetric])
  then show "lru_inv (lru_erase k it c)"
    using assms(1) d unfolding lru_inv_def st
    by (auto simp: lru_erase_def distinct_map_filter distinct_delete st entries_def)
qed (simp_all add: lru_erase_def)

lemma lru_trim_spec:
  "lru_inv c \<Longrightarrow> \<exists>c'. lru_trim c = ok c' \<and> lru_inv c' \<and> entries c' = take (capacity c) (entries c) \<and>
     capacity c' = capacity c \<and> has_purge c' = has_purge c \<and>
     purged c' = purged c @ (if has_purge c then rev (drop (capacity c) (entries c)) else [])"
proof (induction c rule: measure_induct_rule [of "\<lambda>c. length (storage c)"])
  case (less c)
  note len = lru_inv_length [OF less(2)]
  show ?case
  proof (cases "length (index c) > capacity c")
    case False
    then show ?thesis using less(2) len by (simp add: lru_trim.simps entries_def)
  next
    case True
    then obtain st i k v where st: "storage c = st @ [(i, k, v)]" using len by (cases "storage c" rule: rev_cases) auto
    let ?c = "(lru_purge k v c)\<lparr>index := AList.delete k (index (lru_purge k v c)), storage := butlast (storage (lru_purge k v c))\<rparr>"
    have p: "storage (lru_purge k v c) = storage c" "index (lru_purge k v c) = index c" "capacity (lru_purge k v c) = capacity c"
      "has_purge (lru_purge k v c) = has_purge c" "fresh (lru_purge k v c) = fresh c"
      "purged (lru_purge k v c) = purged c @ (if has_purge c then [(k, v)] else [])"
      by (simp_all add: lru_purge_def)
    have "k \<notin> (fst \<circ> snd) ` set st" using less(2) by (auto simp: lru_inv_def st)
    then have "map_of (key_index st) k = None" by (simp add: map_of_eq_None_iff image_comp comp_def)
    then have "lru_inv ?c"
      using less(2) by (auto simp: lru_inv_def p st entries_def distinct_delete delete_conv' fun_eq_iff map_add_def split: option.splits)
    then obtain c' where c': "lru_trim ?c = ok c'" "lru_inv c'" "entries c' = take (capacity ?c) (entries ?c)"
      "capacity c' = capacity ?c" "has_purge c' = has_purge ?c"
      "purged c' = purged ?c @ (if has_purge ?c then rev (drop (capacity ?c) (entries ?c)) else [])"
      using less(1) [of ?c] by (auto simp: p st)
    have e: "entries c = entries ?c @ [(k, v)]" by (simp add: entries_def p st)
    have l: "capacity c \<le> length (entries ?c)" using True len by (simp add: entries_def p st)
    have "lru_trim c = ok c'" using True c'(1) by (subst lru_trim.simps) (simp add: st p)
    moreover have "entries c' = take (capacity c) (entries c)" using c'(3) l unfolding e by (simp add: p)
    moreover have "purged c' = purged c @ (if has_purge c then rev (drop (capacity c) (entries c)) else [])"
      using c'(6) l unfolding e by (simp add: p)
    ultimately show ?thesis using c'(2,4,5) by (simp add: p)
  qed
qed

lemma lru_purge_simps [simp]:
  "storage (lru_purge k v c) = storage c" "index (lru_purge k v c) = index c" "capacity (lru_purge k v c) = capacity c"
  "has_purge (lru_purge k v c) = has_purge c" "fresh (lru_purge k v c) = fresh c"
  "purged (lru_purge k v c) = purged c @ (if has_purge c then [(k, v)] else [])"
  "entries (lru_purge k v c) = entries c" "lru_inv (lru_purge k v c) = lru_inv c"
  by (simp_all add: lru_purge_def entries_def lru_inv_def)

lemma lru_push_inv:
  assumes "lru_inv c" "k \<notin> fst ` set (entries c)"
  shows "lru_inv (c\<lparr>storage := (fresh c, k, v) # storage c, fresh := Suc (fresh c), index := AList.update k (fresh c) (index c)\<rparr>)"
  using assms by (auto simp: lru_inv_def entries_def update_conv' distinct_update less_SucI image_comp)

lemma filter_absent: "k \<notin> fst ` set es \<Longrightarrow> filter (\<lambda>e. fst e \<noteq> k) es = es"
  by (auto simp: filter_id_conv)

lemma lru_insert_spec:
  assumes "lru_inv c"
  shows "\<exists>c'. lru_insert k v c = ok (k \<in> fst ` set (entries c), c') \<and> lru_inv c' \<and> entries c' = take (capacity c) (to_front k v (entries c)) \<and>
     capacity c' = capacity c \<and> has_purge c' = has_purge c \<and>
     purged c' = purged c @ (if has_purge c then rev (drop (capacity c) (to_front k v (entries c))) else [])"
proof -
  define c1 where "c1 = (case map_of (index c) k of Some it \<Rightarrow> lru_erase k it c | None \<Rightarrow> c)"
  define c2 where "c2 = c1\<lparr>storage := (fresh c1, k, v) # storage c1, fresh := Suc (fresh c1), index := AList.update k (fresh c1) (index c1)\<rparr>"
  have c1: "lru_inv c1 \<and> entries c1 = filter (\<lambda>e. fst e \<noteq> k) (entries c) \<and> capacity c1 = capacity c \<and> has_purge c1 = has_purge c \<and>
    purged c1 = purged c \<and> (map_of (index c) k \<noteq> None) = (k \<in> fst ` set (entries c))"
  proof (cases "map_of (index c) k")
    case None
    then have "k \<notin> fst ` set (entries c)" using lru_lookup(2) [OF assms(1)] by (simp add: map_of_eq_None_iff)
    then show ?thesis using assms(1) None by (simp add: c1_def filter_absent)
  next
    case (Some it)
    then obtain v' where v': "(it, k, v') \<in> set (storage c)" using lru_lookup(1) [OF assms(1)] by blast
    then have "k \<in> fst ` set (entries c)" by (force simp: entries_def)
    then show ?thesis using lru_erase_spec [OF assms(1) v'] Some by (simp add: c1_def)
  qed
  then have "lru_inv c2" unfolding c2_def by (intro lru_push_inv) auto
  moreover have "entries c2 = to_front k v (entries c)" "capacity c2 = capacity c" "has_purge c2 = has_purge c" "purged c2 = purged c"
    using c1 by (simp_all add: c2_def entries_def to_front_def)
  moreover have "lru_insert k v c = rbind (lru_trim c2) (\<lambda>c3. ok (map_of (index c) k \<noteq> None, c3))"
    by (simp add: lru_insert_def c2_def c1_def split: option.split)
  ultimately show ?thesis using lru_trim_spec [of c2] c1 by auto
qed

lemma lru_front_inv:
  assumes "lru_inv c" "(it, k, v) \<in> set (storage c)"
  shows "lru_inv (lru_moveToFront it c)" "storage (lru_moveToFront it c) = (it, k, v) # filter (\<lambda>n. fst (snd n) \<noteq> k) (storage c)"
proof -
  have d: "distinct (map fst (storage c))" "distinct (map (fst \<circ> snd) (storage c))" using assms(1) by (simp_all add: lru_inv_def)
  note f = filter_node [OF d assms(2)]
  show st: "storage (lru_moveToFront it c) = (it, k, v) # filter (\<lambda>n. fst (snd n) \<noteq> k) (storage c)"
    unfolding lru_moveToFront_def by (simp add: f)
  have "it \<notin> fst ` set (filter (\<lambda>n. fst (snd n) \<noteq> k) (storage c))" unfolding f(1) [symmetric] by auto
  moreover have "map_of (index c) = (map_of (key_index (filter (\<lambda>n. fst (snd n) \<noteq> k) (storage c))))(k \<mapsto> it)"
  proof -
    have "map_of (key_index (storage c)) k = Some it" using assms(2) d by (intro map_of_is_SomeI) (force simp: comp_def)+
    then show ?thesis using assms(1) by (simp add: lru_inv_def map_of_delete_key_index [symmetric] fun_upd_idem)
  qed
  ultimately show "lru_inv (lru_moveToFront it c)"
    using assms d unfolding lru_inv_def keys_entries st
    by (auto simp: lru_moveToFront_def distinct_map_filter)
qed

lemma lru_access_spec:
  assumes "lru_inv c"
  shows "case map_of (entries c) k of None \<Rightarrow> lru_access k c = throw OutOfRange
     | Some v \<Rightarrow> \<exists>c'. lru_access k c = ok (v, c') \<and> lru_inv c' \<and> entries c' = to_front k v (entries c) \<and>
         capacity c' = capacity c \<and> has_purge c' = has_purge c \<and> purged c' = purged c"
proof (cases "map_of (index c) k")
  case None
  then have "map_of (entries c) k = None" by (rule lru_lookup(2) [OF assms])
  moreover from this have "\<forall>n \<in> set (storage c). fst (snd n) \<noteq> k" by (auto simp: entries_def map_of_eq_None_iff)
  ultimately show ?thesis using None by (auto simp: lru_access_def split: list.split)
next
  case (Some it)
  then obtain v where v: "(it, k, v) \<in> set (storage c)" "map_of (entries c) k = Some v" "map_of (storage c) it = Some (k, v)"
    using lru_lookup(1) [OF assms] by blast
  note f = lru_front_inv [OF assms v(1)]
  show ?thesis
  proof (cases "fst (snd (hd (storage c))) = k")
    case True
    then obtain i w st where st: "storage c = (i, k, w) # st" using v(1) by (cases "storage c") auto
    then have "w = v" "k \<notin> fst ` set (map snd st)"
      using assms v(2) by (simp_all add: entries_def lru_inv_def image_comp comp_def)
    then show ?thesis using assms v st by (auto simp: lru_access_def entries_def filter_absent to_front_def)
  next
    case False
    then obtain n st where st: "storage c = n # st" "fst (snd n) \<noteq> k" using v(1) by (cases "storage c") auto
    have "lru_valueFrom it (lru_moveToFront it c) = ok v" by (simp add: lru_valueFrom_def f(2))
    then have "lru_access k c = ok (v, lru_moveToFront it c)" using st Some by (cases n) (simp add: lru_access_def Let_def)
    moreover have "entries (lru_moveToFront it c) = to_front k v (entries c)"
      by (simp add: entries_def f(2) filter_map comp_def to_front_def)
    ultimately show ?thesis using f(1) v(2) by (simp add: lru_moveToFront_def)
  qed
qed

lemma lru_extract_spec:
  assumes "lru_inv c"
  shows "case map_of (entries c) k of None \<Rightarrow> lru_extract k c = throw OutOfRange \<and> lru_remove k c = ok (False, c)
     | Some v \<Rightarrow> (\<exists>c'. lru_extract k c = ok (v, c') \<and> lru_inv c' \<and> entries c' = filter (\<lambda>e. fst e \<noteq> k) (entries c) \<and>
           capacity c' = capacity c \<and> has_purge c' = has_purge c \<and> purged c' = purged c) \<and>
         (\<exists>c'. lru_remove k c = ok (True, c') \<and> lru_inv c' \<and> entries c' = filter (\<lambda>e. fst e \<noteq> k) (entries c) \<and>
           capacity c' = capacity c \<and> has_purge c' = has_purge c \<and> purged c' = purged c @ (if has_purge c then [(k, v)] else []))"
proof (cases "map_of (index c) k")
  case None
  then show ?thesis using lru_lookup(2) [OF assms None] by (simp add: lru_extract_def lru_remove_def)
next
  case (Some it)
  then obtain v where v: "(it, k, v) \<in> set (storage c)" "map_of (entries c) k = Some v" "map_of (storage c) it = Some (k, v)"
    using lru_lookup(1) [OF assms] by blast
  then show ?thesis
    using Some lru_erase_spec [OF assms v(1)] lru_erase_spec [of "lru_purge k v c" it k v] assms
    by (simp add: lru_extract_def lru_remove_def lru_valueFrom_def)
qed

lemma lru_exists_spec: "lru_inv c \<Longrightarrow> lru_exists k c \<longleftrightarrow> k \<in> fst ` set (entries c)"
  using lru_inv_keys [of c] by (auto simp: lru_exists_def map_of_eq_None_iff entries_def image_comp)

lemma lru_purge_all:
  "foldl (\<lambda>c (_, k, v). lru_purge k v c) c st = c\<lparr>purged := purged c @ (if has_purge c then map snd st else [])\<rparr>"
  by (induction st arbitrary: c) (auto simp: lru_purge_def)

lemma lru_clear_spec:
  "lru_inv (lru_clear c) \<and> entries (lru_clear c) = [] \<and> purged (lru_clear c) = purged c @ (if has_purge c then entries c else [])"
  by (simp add: lru_clear_def lru_purge_all lru_inv_def entries_def)

lemma take_filter_key:
  "distinct (map fst xs) \<Longrightarrow> take m (filter (\<lambda>e. fst e \<noteq> k) (take (Suc m) xs)) = take m (filter (\<lambda>e. fst e \<noteq> k) xs)"
proof (induction xs arbitrary: m)
  case (Cons x xs)
  show ?case
  proof (cases "fst x = k")
    case True
    then have "k \<notin> fst ` set xs" "k \<notin> fst ` set (take m xs)" using Cons(2) by (auto dest: in_set_takeD)
    then show ?thesis using True by (simp add: filter_absent)
  next
    case False
    then show ?thesis using Cons by (cases m) simp_all
  qed
qed simp


lemma to_front_distinct: "distinct (map fst es) \<Longrightarrow> distinct (map fst (to_front k v es))"
  by (auto simp: to_front_def distinct_map_filter)

lemma recent_distinct: "distinct (map fst (recent es))"
  by (induction es) (simp_all add: to_front_distinct)

lemma recent_lookup: "map_of (recent es) = map_of es"
proof (induction es)
  case (Cons e es)
  have "map_of (filter (\<lambda>e'. fst e' \<noteq> fst e) l) = (map_of l)(fst e := None)" for l :: "('a \<times> 'b) list"
    by (induction l) (auto simp: fun_eq_iff)
  then show ?case using Cons by (cases e) (simp add: to_front_def)
qed simp

lemma take_to_front:
  "distinct (map fst es) \<Longrightarrow> take n (to_front k v (take n es)) = take n (to_front k v es)"
  by (cases n) (simp_all add: to_front_def take_filter_key)

locale recency_store =
  fixes put :: "'k \<Rightarrow> 'v \<Rightarrow> 's \<Rightarrow> 's result" and view :: "'s \<Rightarrow> ('k \<times> 'v) list" and limit :: "'s \<Rightarrow> nat" and good :: "'s \<Rightarrow> bool"
  assumes put_ok: "good s \<Longrightarrow> \<exists>s'. put k v s = ok s' \<and> good s' \<and> limit s' = limit s \<and> view s' = take (limit s) (to_front k v (view s))"
begin

lemma puts_from:
  assumes "good s" "view s = take (limit s) (recent hist)"
  shows "\<exists>s'. foldl (\<lambda>r (k, v). rbind r (put k v)) (ok s) kvs = ok s' \<and> good s' \<and> limit s' = limit s \<and>
     view s' = take (limit s) (recent (rev kvs @ hist))"
  using assms
proof (induction kvs arbitrary: s hist)
  case (Cons kv kvs)
  obtain k v where kv: "kv = (k, v)" by fastforce
  obtain s' where s': "put k v s = ok s'" "good s'" "limit s' = limit s" "view s' = take (limit s) (to_front k v (view s))"
    using put_ok [OF Cons(2), of k v] by blast
  have "view s' = take (limit s') (recent (kv # hist))" using s' Cons(3) by (simp add: kv take_to_front recent_distinct)
  from Cons(1) [OF s'(2) this] show ?case using s' by (simp add: kv)
qed simp

lemma puts:
  assumes "good s" "view s = []"
  shows "\<exists>s'. foldl (\<lambda>r (k, v). rbind r (put k v)) (ok s) kvs = ok s' \<and> good s' \<and> limit s' = limit s \<and> view s' = take (limit s) (recent (rev kvs))"
  using puts_from [of s "[]" kvs] assms by simp

end

interpretation lruc: recency_store lru_put entries capacity lru_inv
proof
  fix c :: "('k, 'v) lru" and k v
  assume "lru_inv c"
  then show "\<exists>c'. lru_put k v c = ok c' \<and> lru_inv c' \<and> capacity c' = capacity c \<and>
      entries c' = take (capacity c) (to_front k v (entries c))"
    using lru_insert_spec [of c k v] by (auto simp: lru_put_def)
qed

lemma CacheLRU_empty: "lru_inv (CacheLRU cap h)" "entries (CacheLRU cap h) = []" "capacity (CacheLRU cap h) = cap"
  by (simp_all add: CacheLRU_def lru_inv_def entries_def)

section \<open>Properties\<close>

text \<open>
  C11. After any sequence of insertions into a new cache of capacity \<open>cap\<close> no call has failed, and the cache holds, most recent
  first, exactly the \<open>cap\<close> most recently inserted distinct keys, each with the value inserted last: trimming evicts
  only the least recent keys.  The size never exceeds the capacity, and \<^verbatim>\<open>exists\<close> answers for these keys only.
\<close>
theorem CacheLRU_keeps_most_recent:
  "\<exists>c. foldl (\<lambda>r (k, v). rbind r (lru_put k v)) (ok (CacheLRU cap h)) kvs = ok c \<and>
       entries c = take cap (recent (rev kvs)) \<and> lru_size c \<le> cap \<and> (\<forall>k. lru_exists k c = (k \<in> fst ` set (entries c)))"
proof -
  obtain c where c: "foldl (\<lambda>r (k, v). rbind r (lru_put k v)) (ok (CacheLRU cap h)) kvs = ok c" "lru_inv c"
    "entries c = take cap (recent (rev kvs))"
    using lruc.puts [of "CacheLRU cap h" kvs] by (auto simp: CacheLRU_empty)
  have "length (entries c) \<le> cap" by (simp add: c(3))
  then have "lru_size c \<le> cap" by (simp add: lru_size_def entries_def)
  then show ?thesis using c lru_exists_spec [OF c(2)] by (intro exI [of _ c]) simp
qed


text \<open>
  C26. On a consistent cache every operation acts on the recency list: \<^verbatim>\<open>insert\<close> puts the key in front and reports whether it
  was there, and hands the purge handler the entries beyond the capacity, oldest first; \<^verbatim>\<open>access\<close> returns the value and moves the
  entry to the front, or throws \<^verbatim>\<open>OutOfRange\<close> for an absent key; \<^verbatim>\<open>extract\<close> returns the value and drops the entry without
  purging; \<^verbatim>\<open>remove\<close> drops and purges it.  The list and the map stay consistent throughout.
\<close>
theorem CacheLRU_operations:
  assumes "lru_inv c"
  shows "(\<exists>c'. lru_insert k v c = ok (lru_exists k c, c') \<and> lru_inv c' \<and>
            entries c' = take (capacity c) (to_front k v (entries c)) \<and>
            purged c' = purged c @ (if has_purge c then rev (drop (capacity c) (to_front k v (entries c))) else [])) \<and>
         (case map_of (entries c) k of
           None \<Rightarrow> lru_access k c = throw OutOfRange \<and> lru_extract k c = throw OutOfRange \<and> lru_remove k c = ok (False, c)
         | Some w \<Rightarrow>
             (\<exists>c'. lru_access k c = ok (w, c') \<and> lru_inv c' \<and> entries c' = to_front k w (entries c) \<and> purged c' = purged c) \<and>
             (\<exists>c'. lru_extract k c = ok (w, c') \<and> lru_inv c' \<and>
                entries c' = filter (\<lambda>e. fst e \<noteq> k) (entries c) \<and> purged c' = purged c) \<and>
             (\<exists>c'. lru_remove k c = ok (True, c') \<and> lru_inv c' \<and> entries c' = filter (\<lambda>e. fst e \<noteq> k) (entries c) \<and>
                purged c' = purged c @ (if has_purge c then [(k, w)] else []))) \<and>
         (\<exists>c'. lru_capacity n c = ok c' \<and> lru_inv c' \<and> entries c' = take n (entries c) \<and>
            purged c' = purged c @ (if has_purge c then rev (drop n (entries c)) else [])) \<and>
         (lru_inv (lru_clear c) \<and> entries (lru_clear c) = [] \<and>
            purged (lru_clear c) = purged c @ (if has_purge c then entries c else []))"
    (is "?insert \<and> ?lookup \<and> ?resize \<and> ?wipe")
proof (intro conjI)
  show ?insert using lru_insert_spec [OF assms, of k v] lru_exists_spec [OF assms, of k] by auto
  show ?lookup using lru_access_spec [OF assms, of k] lru_extract_spec [OF assms, of k] by (auto split: option.splits)
  show ?resize
    using lru_trim_spec [of "c\<lparr>capacity := n\<rparr>"] assms by (auto simp: lru_capacity_def lru_inv_def entries_def)
qed (use lru_clear_spec [of c] in blast)+

theorem CacheLRU_operations_witness:
  "\<exists>c'. lru_insert (3 :: nat) ''c'' \<lparr>storage = [(1, 2, ''b''), (0, 1, ''a'')], index = [(1, 0), (2, 1)], capacity = 2,
          has_purge = True, fresh = 2, purged = []\<rparr> = ok (False, c') \<and>
        entries c' = [(3, ''c''), (2, ''b'')] \<and> purged c' = [(1, ''a'')]"
proof -
  let ?c = "\<lparr>storage = [(1, 2, ''b''), (0, 1, ''a'')], index = [(1, 0), (2, 1)], capacity = 2,
          has_purge = True, fresh = 2, purged = []\<rparr> :: (nat, string) lru"
  have "lru_inv ?c" by (simp add: lru_inv_def entries_def fun_eq_iff)
  from CacheLRU_operations [OF this, of 3 "''c''", THEN conjunct1] show ?thesis
    by (auto simp: entries_def to_front_def lru_exists_def)
qed

end
