(* ===== verification/Eckit_BTree.thy ===== *)
theory Eckit_BTree
  imports Eckit_Prelude "HOL-Library.AList"
begin

text \<open>
  The B+ tree of pages on a file, \<^verbatim>\<open>src/eckit/container/BTree.cc\<close>, with its cache of pages.  A page is a record; the
  entries of a page are the list of its first \<open>pcount\<close> entries, and writing beyond the capacity of the array is the
  error \<^const>\<open>OutOfBounds\<close>. The file is its bytes before the offset of the tree and the list of pages after it; the
  cache, a \<^verbatim>\<open>std::map\<close> from page numbers to copies of pages, is an association list.
  The template parameters are the type of the keys, a linear order, the type of the values, and the numbers
  \<open>page_size\<close>, \<open>maxNodeEntries\<close> and \<open>maxLeafEntries\<close> derived from them. The time stamp of a cached page is never read
  and left out. Recursion along page numbers and along the links between leaves may not end on a damaged file:
  these functions are partial; searching, inserting, ranges and counting are proved to return on the trees the class
  builds. The operations rely on the pages through the interface \<open>page_store\<close>, a locale at the end of this theory.
\<close>

section \<open>Pages\<close>

record ('k, 'v) page =
  pid :: nat
  is_node :: bool
  leftp :: nat
  rightp :: nat
  nentries :: "('k \<times> nat) list"
  lentries :: "('k \<times> 'v) list"

definition pcount :: "('k, 'v) page \<Rightarrow> nat" where
  "pcount p = (if is_node p then length (nentries p) else length (lentries p))"

definition zero_page :: "nat \<Rightarrow> ('k, 'v) page" where
  "zero_page n = \<lparr>pid = n, is_node = False, leftp = 0, rightp = 0, nentries = [], lentries = []\<rparr>"

record ('k, 'v) page_info =
  ipage :: "('k, 'v) page"
  uses :: nat
  dirty :: bool

definition PageInfo :: "('k, 'v) page \<Rightarrow> ('k, 'v) page_info" where
  "PageInfo p = \<lparr>ipage = p, uses = 0, dirty = False\<rparr>"

section \<open>The file and the cache\<close>

record ('k, 'v) btree =
  file_head :: nat
  file_pages :: "('k, 'v) page list"
  page_size :: nat
  maxNodeEntries :: nat
  maxLeafEntries :: nat
  offset :: nat
  readOnly :: bool
  cacheReads :: bool
  cacheWrites :: bool
  cache :: "(nat \<times> ('k, 'v) page_info) list"

definition seekEnd :: "('k, 'v) btree \<Rightarrow> nat" where
  "seekEnd t = file_head t + page_size t * length (file_pages t)"

definition file_read :: "nat \<Rightarrow> ('k, 'v) btree \<Rightarrow> ('k, 'v) page option" where
  "file_read pos t =
     (let i = (pos - file_head t) div page_size t in if i < length (file_pages t) then Some (file_pages t ! i) else None)"

text \<open>Writing beyond the end of the file leaves a hole, which reads as zeros.\<close>

definition file_write :: "nat \<Rightarrow> ('k, 'v) page \<Rightarrow> ('k, 'v) btree \<Rightarrow> ('k, 'v) btree" where
  "file_write pos p t =
     (let i = (pos - file_head t) div page_size t; ps = file_pages t in
      t\<lparr>file_pages := (if i < length ps then ps[i := p] else ps @ replicate (i - length ps) (zero_page 0) @ [p])\<rparr>)"

definition pageOffset :: "nat \<Rightarrow> ('k, 'v) btree \<Rightarrow> nat result" where
  "pageOffset n t = ASSERT (0 < n) (ok (page_size t * (n - 1) + offset t))"

definition loadPage_file :: "nat \<Rightarrow> ('k, 'v) btree \<Rightarrow> ('k, 'v) page result" where
  "loadPage_file n t =
     rbind (pageOffset n t) (\<lambda>pos.
       case file_read pos t of
         None \<Rightarrow> throw AssertionFailed
       | Some p \<Rightarrow> ASSERT (n = pid p) (ok p))"

definition loadPage :: "nat \<Rightarrow> ('k, 'v) btree \<Rightarrow> (('k, 'v) page \<times> ('k, 'v) btree) result" where
  "loadPage n t =
     (case map_of (cache t) n of
        Some i \<Rightarrow> ok (ipage i, t)
      | None \<Rightarrow>
          rbind (loadPage_file n t) (\<lambda>p.
            ok (p, if cacheReads t then t\<lparr>cache := AList.update (pid p) (PageInfo p) (cache t)\<rparr> else t)))"

definition savePage_file :: "('k, 'v) page \<Rightarrow> ('k, 'v) btree \<Rightarrow> ('k, 'v) btree result" where
  "savePage_file p t = ASSERT (\<not> readOnly t) (rbind (pageOffset (pid p) t) (\<lambda>pos. ok (file_write pos p t)))"

definition savePage :: "('k, 'v) page \<Rightarrow> ('k, 'v) btree \<Rightarrow> ('k, 'v) btree result" where
  "savePage p t =
     (case map_of (cache t) (pid p) of
        Some i \<Rightarrow> ok (t\<lparr>cache := AList.update (pid p) \<lparr>ipage = p, uses = uses i + 1, dirty = True\<rparr> (cache t)\<rparr>)
      | None \<Rightarrow>
          if cacheWrites t then ok (t\<lparr>cache := AList.update (pid p) \<lparr>ipage = p, uses = 1, dirty = True\<rparr> (cache t)\<rparr>)
          else savePage_file p t)"

text \<open>
  The number of a new page is computed from the end of the file. Positions in the file are not bounded here. On a file
  that is shorter than the offset the unsigned difference of the source wraps around; then the assertion below or the
  one of the constructor fails.
\<close>

definition newPage_file :: "('k, 'v) btree \<Rightarrow> (('k, 'v) page \<times> ('k, 'v) btree) result" where
  "newPage_file t =
     ASSERT (\<not> readOnly t)
       (let here = seekEnd t;
            n = (here - offset t) div page_size t + 1;
            p = zero_page n
        in rbind (pageOffset n t) (\<lambda>pos.
             ASSERT (pos = here) (ok (p, t\<lparr>file_pages := file_pages t @ [p]\<rparr>))))"

definition newPage :: "('k, 'v) btree \<Rightarrow> (('k, 'v) page \<times> ('k, 'v) btree) result" where
  "newPage t =
     rbind (newPage_file t) (\<lambda>(p, t).
       ok (p, if cacheReads t \<or> cacheWrites t then t\<lparr>cache := AList.update (pid p) (PageInfo p) (cache t)\<rparr> else t))"

text \<open>The constructor, on a file of which the bytes before the offset and the pages after it are given.\<close>

definition BTree :: "nat \<Rightarrow> nat \<Rightarrow> nat \<Rightarrow> bool \<Rightarrow> nat \<Rightarrow> nat \<Rightarrow> ('k, 'v) page list \<Rightarrow> ('k, 'v) btree result" where
  "BTree psize maxNode maxLeaf ro offs head pages =
     (let t = \<lparr>file_head = head, file_pages = pages, page_size = psize, maxNodeEntries = maxNode, maxLeafEntries = maxLeaf,
               offset = offs, readOnly = ro, cacheReads = True, cacheWrites = True, cache = []\<rparr>
      in if seekEnd t \<le> offs then rbind (newPage t) (\<lambda>(root, t). ASSERT (pid root = 1) (ok t)) else ok t)"

fun flush_pages :: "(nat \<times> ('k, 'v) page_info) list \<Rightarrow> ('k, 'v) btree \<Rightarrow> ('k, 'v) btree result" where
  "flush_pages [] t = ok t"
| "flush_pages ((n, i) # rest) t =
     (if dirty i
      then rbind (savePage_file (ipage i) t) (\<lambda>t. flush_pages rest (t\<lparr>cache := AList.update n (i\<lparr>dirty := False\<rparr>) (cache t)\<rparr>))
      else flush_pages rest t)"

definition bt_flush :: "('k, 'v) btree \<Rightarrow> ('k, 'v) btree result" where
  "bt_flush t = flush_pages (sort_key fst (cache t)) t"

text \<open>The destructor leaves the file behind.\<close>

definition bt_destroy :: "('k, 'v) btree \<Rightarrow> (nat \<times> ('k, 'v) page list) result" where
  "bt_destroy t = rbind (bt_flush t) (\<lambda>t. ok (file_head t, file_pages t))"

section \<open>Search\<close>

text \<open>\<^verbatim>\<open>std::lower_bound\<close> on entries sorted by key, as it requires.\<close>

definition bt_lower_bound :: "'k :: linorder \<Rightarrow> ('k \<times> 'a) list \<Rightarrow> nat" where
  "bt_lower_bound key es = length (takeWhile (\<lambda>e. fst e < key) es)"

definition bt_next :: "'k :: linorder \<Rightarrow> ('k, 'v) page \<Rightarrow> nat result" where
  "bt_next key p =
     ASSERT (is_node p) (let es = nentries p in
       ASSERT (es \<noteq> [])
         (if key < fst (es ! 0) then ok (leftp p)
          else
            let e = bt_lower_bound key es;
                e = (if e = length es \<or> key < fst (es ! e) then e - 1 else e)
            in ok (snd (es ! e))))"

partial_function (option) bt_search :: "nat \<Rightarrow> 'k :: linorder \<Rightarrow> ('k, 'v) btree \<Rightarrow> ('v option \<times> ('k, 'v) btree) comp" where
  "bt_search n key t =
     cbind (Some (loadPage n t)) (\<lambda>(p, t).
       if is_node p then cbind (Some (bt_next key p)) (\<lambda>n. bt_search n key t)
       else
         let es = lentries p; e = bt_lower_bound key es in
         Some (ok (if e \<noteq> length es \<and> fst (es ! e) = key then Some (snd (es ! e)) else None, t)))"

definition bt_get :: "'k :: linorder \<Rightarrow> ('k, 'v) btree \<Rightarrow> ('v option \<times> ('k, 'v) btree) comp" where
  "bt_get key t = bt_search 1 key t"

text \<open>
  The loop of the range search is at entry \<open>e\<close> of the leaf \<open>p\<close>; a leaf without entries would make it read beyond them.
\<close>

partial_function (option) range_loop ::
  "'k :: linorder \<Rightarrow> ('k, 'v) page \<Rightarrow> nat \<Rightarrow> ('k \<times> 'v) list \<Rightarrow> ('k, 'v) btree \<Rightarrow> (('k \<times> 'v) list \<times> ('k, 'v) btree) comp" where
  "range_loop key2 p e acc t =
     (if length (lentries p) \<le> e then Some (throw OutOfBounds)
      else if key2 < fst (lentries p ! e) then Some (ok (acc, t))
      else
        let acc = acc @ [lentries p ! e] in
        if e + 1 = length (lentries p) then
          if rightp p \<noteq> 0 then
            cbind (Some (loadPage (rightp p) t)) (\<lambda>(p, t).
              if is_node p then Some (throw AssertionFailed) else range_loop key2 p 0 acc t)
          else Some (ok (acc, t))
        else range_loop key2 p (e + 1) acc t)"

partial_function (option) search_range ::
  "nat \<Rightarrow> 'k :: linorder \<Rightarrow> 'k \<Rightarrow> ('k, 'v) btree \<Rightarrow> (('k \<times> 'v) list \<times> ('k, 'v) btree) comp" where
  "search_range n key1 key2 t =
     cbind (Some (loadPage n t)) (\<lambda>(p, t).
       if is_node p then cbind (Some (bt_next key1 p)) (\<lambda>n. search_range n key1 key2 t)
       else
         let e = bt_lower_bound key1 (lentries p) in
         if e = length (lentries p) then Some (ok ([], t)) else range_loop key2 p e [] t)"

definition bt_range :: "'k :: linorder \<Rightarrow> 'k \<Rightarrow> ('k, 'v) btree \<Rightarrow> (('k \<times> 'v) list \<times> ('k, 'v) btree) comp" where
  "bt_range key1 key2 t = search_range 1 key1 key2 t"

partial_function (option) preload_loop :: "('k, 'v) page \<Rightarrow> ('k, 'v) btree \<Rightarrow> ('k, 'v) btree comp" where
  "preload_loop p t =
     (if rightp p \<noteq> 0 then cbind (Some (loadPage (rightp p) t)) (\<lambda>(p, t). preload_loop p t) else Some (ok t))"

definition bt_preload :: "('k, 'v) btree \<Rightarrow> ('k, 'v) btree comp" where
  "bt_preload t = cbind (Some (loadPage 1 t)) (\<lambda>(p, t). preload_loop p t)"

text \<open>Sums over the children of a page, from left to right.\<close>

primrec sum_children :: "(nat \<Rightarrow> 's \<Rightarrow> (nat \<times> 's) comp) \<Rightarrow> nat list \<Rightarrow> nat \<Rightarrow> 's \<Rightarrow> (nat \<times> 's) comp" where
  "sum_children f [] c t = Some (ok (c, t))"
| "sum_children f (n # ns) c t = cbind (f n t) (\<lambda>(d, t). sum_children f ns (c + d) t)"

lemma sum_children_mono [partial_function_mono]:
  assumes "\<And>n t. mono_option (\<lambda>f. B n t f)"
  shows "mono_option (\<lambda>f. sum_children (\<lambda>n t. B n t f) ns c t)"
proof (induction ns arbitrary: c t)
  case Nil
  then show ?case by (simp add: option.const_mono)
next
  case (Cons n ns)
  have "mono_option (\<lambda>f. cbind (B n t f) (\<lambda>x. case x of (d, t) \<Rightarrow> sum_children (\<lambda>n t. B n t f) ns (c + d) t))"
    by (rule cbind_mono [OF assms]) (use Cons in \<open>auto split: prod.split\<close>)
  then show ?case by simp
qed

partial_function (option) count_page :: "nat \<Rightarrow> ('k, 'v) btree \<Rightarrow> (nat \<times> ('k, 'v) btree) comp" where
  "count_page n t =
     cbind (Some (loadPage n t)) (\<lambda>(p, t).
       if is_node p then sum_children (\<lambda>n t. count_page n t) (leftp p # map snd (nentries p)) 0 t
       else Some (ok (pcount p, t)))"

definition bt_count :: "('k, 'v) btree \<Rightarrow> (nat \<times> ('k, 'v) btree) comp" where
  "bt_count t = count_page 1 t"

section \<open>Insertion\<close>

text \<open>Inserting into the array of entries of a page, which has room for \<open>cap\<close> of them.\<close>

definition insert_at :: "nat \<Rightarrow> nat \<Rightarrow> 'a \<Rightarrow> 'a list \<Rightarrow> 'a list result" where
  "insert_at cap e x es = (if length es < cap then ok (take e es @ x # drop e es) else throw OutOfBounds)"

definition needs_split :: "('k, 'v) btree \<Rightarrow> ('k, 'v) page \<Rightarrow> bool" where
  "needs_split t p \<longleftrightarrow> is_node p \<and> pcount p = maxNodeEntries t \<or> \<not> is_node p \<and> pcount p = maxLeafEntries t"

text \<open>Splitting a page other than the root: the key that goes up, the new page, and the state with both pages saved.\<close>

definition split_node :: "('k, 'v) page \<Rightarrow> ('k, 'v) page \<Rightarrow> ('k \<times> ('k, 'v) page \<times> ('k, 'v) page) result" where
  "split_node p n =
     (let middle = pcount p div 2;
          n = n\<lparr>is_node := is_node p, nentries := nentries n @ drop (middle + 1) (nentries p)\<rparr>
      in ASSERT (pcount n = pcount p - middle - 1)
           (let (k, c) = nentries p ! middle
            in ok (k, n\<lparr>leftp := c\<rparr>, p\<lparr>nentries := take (pcount p - pcount n - 1) (nentries p)\<rparr>)))"

definition set_left :: "nat \<Rightarrow> nat \<Rightarrow> ('k, 'v) btree \<Rightarrow> ('k, 'v) btree result" where
  "set_left r n t = (if r \<noteq> 0 then rbind (loadPage r t) (\<lambda>(q, t). savePage (q\<lparr>leftp := n\<rparr>) t) else ok t)"

definition split_leaf ::
  "('k, 'v) page \<Rightarrow> ('k, 'v) page \<Rightarrow> ('k, 'v) btree \<Rightarrow> ('k \<times> ('k, 'v) page \<times> ('k, 'v) page \<times> ('k, 'v) btree) result" where
  "split_leaf p n t =
     (let middle = pcount p div 2;
          n = n\<lparr>is_node := is_node p, lentries := lentries n @ drop middle (lentries p)\<rparr>
      in ASSERT (pcount n = pcount p - middle)
           (let q = p\<lparr>lentries := take (pcount p - pcount n) (lentries p)\<rparr>;
                k = fst (lentries n ! 0)
            in rbind (set_left (rightp p) (pid n) t) (\<lambda>t.
                 ok (k, n\<lparr>rightp := rightp p, leftp := pid p\<rparr>, q\<lparr>rightp := pid n\<rparr>, t))))"

definition split_page :: "('k, 'v) page \<Rightarrow> ('k, 'v) btree \<Rightarrow> ('k \<times> nat \<times> ('k, 'v) btree) result" where
  "split_page p t =
     rbind (newPage t) (\<lambda>(n, t).
     rbind (if is_node p then rbind (split_node p n) (\<lambda>(k, n, p). ok (k, n, p, t)) else split_leaf p n t) (\<lambda>(k, n, p, t).
     rbind (savePage n t) (\<lambda>t.
     rbind (savePage p t) (\<lambda>t. ok (k, pid n, t)))))"

definition insert_parent ::
  "nat \<Rightarrow> 'k :: linorder \<Rightarrow> nat \<Rightarrow> ('k, 'v) btree \<Rightarrow> (('k, 'v) page \<times> ('k, 'v) btree) result" where
  "insert_parent page k n t =
     rbind (loadPage page t) (\<lambda>(p, t).
       ASSERT (is_node p)
         (let es = nentries p; e = bt_lower_bound k es in
          ASSERT (es \<noteq> []) (
          ASSERT (\<not> (e \<noteq> length es \<and> fst (es ! e) = k)) (
          rbind (insert_at (maxNodeEntries t) e (k, n) es) (\<lambda>es.
            let p = p\<lparr>nentries := es\<rparr> in rbind (savePage p t) (\<lambda>t. ok (p, t)))))))"

definition splitRoot :: "('k, 'v) btree \<Rightarrow> ('k, 'v) btree result" where
  "splitRoot t =
     rbind (loadPage 1 t) (\<lambda>(p, t).
     rbind (newPage t) (\<lambda>(pleft, t).
     rbind (newPage t) (\<lambda>(pright, t).
       let middle = pcount p div 2 in
       rbind
         (if is_node p then
            let (k, c) = nentries p ! middle
            in ok (k,
                   pleft\<lparr>is_node := True, leftp := leftp p, nentries := nentries pleft @ take middle (nentries p)\<rparr>,
                   pright\<lparr>is_node := True, leftp := c, nentries := nentries pright @ drop (middle + 1) (nentries p)\<rparr>)
          else
            let pleft = pleft\<lparr>is_node := False, lentries := lentries pleft @ take middle (lentries p)\<rparr>;
                pright = pright\<lparr>is_node := False, lentries := lentries pright @ drop middle (lentries p)\<rparr>
            in ASSERT (pcount pleft = middle) (
               ASSERT (pcount pright = pcount p - middle) (
               ok (fst (lentries pright ! 0), pleft\<lparr>rightp := pid pright\<rparr>, pright\<lparr>leftp := pid pleft\<rparr>))))
         (\<lambda>(key, pleft, pright).
            let p = (zero_page 1)\<lparr>is_node := True, leftp := pid pleft, nentries := [(key, pid pright)]\<rparr>
            in rbind (savePage pright t) (\<lambda>t. rbind (savePage pleft t) (\<lambda>t. savePage p t))))))"

text \<open>The path is the vector of the pages visited, the last one first.\<close>

function split_loop :: "nat list \<Rightarrow> ('k :: linorder, 'v) page \<Rightarrow> ('k, 'v) btree \<Rightarrow> (bool \<times> ('k, 'v) btree) result" where
  "split_loop path p t =
     (if needs_split t p then
        if pid p = 1 then rbind (splitRoot t) (\<lambda>t. ok (False, t))
        else rbind (split_page p t) (\<lambda>x.
          case path of
            [] \<Rightarrow> throw OutOfBounds
          | page # path \<Rightarrow>
              rbind (insert_parent page (fst x) (fst (snd x)) (snd (snd x))) (\<lambda>y. split_loop path (fst y) (snd y)))
      else ok (False, t))"
  by pat_completeness auto
termination by (relation "measure (\<lambda>(path, p, t). length path)") auto

declare split_loop.simps [simp del]

definition insert_leaf ::
  "'k :: linorder \<Rightarrow> 'v \<Rightarrow> nat list \<Rightarrow> ('k, 'v) page \<Rightarrow> ('k, 'v) btree \<Rightarrow> (bool \<times> ('k, 'v) btree) result" where
  "insert_leaf key v path p t =
     (let es = lentries p; e = bt_lower_bound key es in
      if e \<noteq> length es \<and> fst (es ! e) = key
      then rbind (savePage (p\<lparr>lentries := es[e := (fst (es ! e), v)]\<rparr>) t) (\<lambda>t. ok (True, t))
      else
        rbind (insert_at (maxLeafEntries t) e (key, v) es) (\<lambda>es.
          let p = p\<lparr>lentries := es\<rparr> in rbind (savePage p t) (\<lambda>t. split_loop path p t)))"

partial_function (option) bt_insert ::
  "nat \<Rightarrow> 'k :: linorder \<Rightarrow> 'v \<Rightarrow> nat list \<Rightarrow> ('k, 'v) btree \<Rightarrow> (bool \<times> ('k, 'v) btree) comp" where
  "bt_insert page key v path t =
     cbind (Some (loadPage page t)) (\<lambda>(p, t).
       if is_node p then cbind (Some (bt_next key p)) (\<lambda>n. bt_insert n key v (page # path) t)
       else Some (insert_leaf key v path p t))"

definition bt_set :: "'k :: linorder \<Rightarrow> 'v \<Rightarrow> ('k, 'v) btree \<Rightarrow> (bool \<times> ('k, 'v) btree) comp" where
  "bt_set key v t = bt_insert 1 key v [] t"

definition bt_remove :: "'k \<Rightarrow> ('k, 'v) btree \<Rightarrow> (bool \<times> ('k, 'v) btree) result" where
  "bt_remove key t = throw NotImplemented"

section \<open>Locks on the file\<close>

text \<open>
  The system call is a parameter: it returns the error number, if any. The locks taken by every operation through the
  policy of the template have no effect on the state and are left out.
\<close>

datatype lock_operation = LOCK_SH | LOCK_EX | LOCK_UN

datatype errno = ENOTSUP | ENOTSUPP | EOPNOTSUPP | EOTHER nat

definition lock_result :: "errno option \<Rightarrow> unit result" where
  "lock_result r =
     (case r of
        None \<Rightarrow> ok ()
      | Some e \<Rightarrow> let skip = (e = ENOTSUP \<or> e = ENOTSUPP \<or> e = EOPNOTSUPP) in if skip then ok () else throw UserError)"

definition bt_flock :: "(lock_operation \<Rightarrow> errno option) \<Rightarrow> ('k, 'v) btree \<Rightarrow> unit result" where
  "bt_flock sys t = lock_result (sys (if readOnly t then LOCK_EX else LOCK_SH))"

definition bt_funlock :: "(lock_operation \<Rightarrow> errno option) \<Rightarrow> ('k, 'v) btree \<Rightarrow> unit result" where
  "bt_funlock sys t = lock_result (sys LOCK_UN)"

declare bt_search.simps [code] range_loop.simps [code] search_range.simps [code] preload_loop.simps [code]
  count_page.simps [code] bt_insert.simps [code]

section \<open>The store of pages\<close>

text \<open>What the tree relies on: numbered pages that can be loaded, saved and added.\<close>

locale page_store =
  fixes load :: "nat \<Rightarrow> 's \<Rightarrow> ('p \<times> 's) result"
    and save :: "'p \<Rightarrow> 's \<Rightarrow> 's result"
    and alloc :: "'s \<Rightarrow> ('p \<times> 's) result"
    and page_view :: "'s \<Rightarrow> nat \<rightharpoonup> 'p"
    and inv :: "'s \<Rightarrow> bool"
    and writable :: "'s \<Rightarrow> bool"
    and conf :: "'s \<Rightarrow> 'c"
    and num :: "'p \<Rightarrow> nat"
    and blank :: "nat \<Rightarrow> 'p"
  assumes load_view: "inv t \<Longrightarrow> page_view t n = Some p \<Longrightarrow>
      \<exists>t'. load n t = ok (p, t') \<and> inv t' \<and> page_view t' = page_view t \<and> conf t' = conf t"
    and save_view: "inv t \<Longrightarrow> num p \<in> dom (page_view t) \<Longrightarrow>
      \<exists>t'. save p t = ok t' \<and> inv t' \<and> page_view t' = (page_view t)(num p \<mapsto> p) \<and> conf t' = conf t"
    and alloc_view: "inv t \<Longrightarrow> writable t \<Longrightarrow>
      \<exists>n t'. alloc t = ok (blank n, t') \<and> inv t' \<and> n \<noteq> 0 \<and> n \<notin> dom (page_view t) \<and> page_view t' = (page_view t)(n \<mapsto> blank n) \<and> conf t' = conf t"
    and writable_conf: "conf t' = conf t \<Longrightarrow> writable t' = writable t"
    and num_blank: "num (blank n) = n"
    and num_view: "inv t \<Longrightarrow> page_view t n = Some p \<Longrightarrow> num p = n \<and> n \<noteq> 0"
begin

lemma load_save:
  assumes "inv t" "num p \<in> dom (page_view t)" "save p t = ok t'"
  shows "\<exists>t''. load (num p) t' = ok (p, t'') \<and> page_view t'' = page_view t'"
  using save_view [OF assms(1,2)] load_view [of t' "num p" p] assms(3) by auto

lemma save_two:
  assumes "inv t" "num p \<in> dom (page_view t)" "num q \<in> dom (page_view t)"
  shows "\<exists>t'. rbind (save p t) (save q) = ok t' \<and> inv t' \<and> page_view t' = (page_view t)(num p \<mapsto> p, num q \<mapsto> q) \<and> conf t' = conf t"
proof -
  obtain t1 where t1: "save p t = ok t1" "inv t1" "page_view t1 = (page_view t)(num p \<mapsto> p)" "conf t1 = conf t"
    using save_view [OF assms(1,2)] by auto
  then have "num q \<in> dom (page_view t1)" using assms(3) by auto
  from save_view [OF t1(2) this] show ?thesis using t1 by auto
qed

lemma save_three:
  assumes "inv t" "num p \<in> dom (page_view t)" "num q \<in> dom (page_view t)" "num r \<in> dom (page_view t)"
  shows "\<exists>t'. rbind (save p t) (\<lambda>t. rbind (save q t) (\<lambda>t. save r t)) = ok t' \<and> inv t' \<and>
    page_view t' = (page_view t)(num p \<mapsto> p, num q \<mapsto> q, num r \<mapsto> r) \<and> conf t' = conf t"
proof -
  obtain t1 where t1: "save p t = ok t1" "inv t1" "page_view t1 = (page_view t)(num p \<mapsto> p)" "conf t1 = conf t"
    using save_view [OF assms(1,2)] by auto
  then have "num q \<in> dom (page_view t1)" "num r \<in> dom (page_view t1)" using assms(3,4) by auto
  from save_two [OF t1(2) this] show ?thesis using t1 by auto
qed

lemma alloc_two:
  assumes "inv t" "writable t"
  shows "\<exists>l r t1 t2. alloc t = ok (blank l, t1) \<and> alloc t1 = ok (blank r, t2) \<and> inv t2 \<and> l \<noteq> 0 \<and> r \<noteq> 0 \<and> l \<noteq> r \<and>
    l \<notin> dom (page_view t) \<and> r \<notin> dom (page_view t) \<and> page_view t2 = (page_view t)(l \<mapsto> blank l, r \<mapsto> blank r) \<and> conf t2 = conf t"
proof -
  obtain l t1 where l: "alloc t = ok (blank l, t1)" "inv t1" "l \<noteq> 0" "l \<notin> dom (page_view t)" "page_view t1 = (page_view t)(l \<mapsto> blank l)" "conf t1 = conf t"
    using alloc_view [OF assms] by auto
  then have "writable t1" using writable_conf assms(2) by blast
  from alloc_view [OF l(2) this] show ?thesis using l by auto
qed

end

definition page_view :: "('k, 'v) btree \<Rightarrow> nat \<rightharpoonup> ('k, 'v) page" where
  "page_view t n =
     (case map_of (cache t) n of
        Some i \<Rightarrow> Some (ipage i)
      | None \<Rightarrow> if 0 < n \<and> n \<le> length (file_pages t) then Some (file_pages t ! (n - 1)) else None)"

text \<open>Every cached copy is of a page of the file, and differs from the page only if it is marked.\<close>

definition store_inv :: "('k, 'v) btree \<Rightarrow> bool" where
  "store_inv t \<longleftrightarrow>
     0 < page_size t \<and> file_head t = offset t \<and> cacheReads t \<and> cacheWrites t \<and> distinct (map fst (cache t)) \<and>
     (\<forall>n i. map_of (cache t) n = Some i \<longrightarrow>
        0 < n \<and> n \<le> length (file_pages t) \<and> (\<not> dirty i \<longrightarrow> file_pages t ! (n - 1) = ipage i)) \<and>
     (\<forall>n p. page_view t n = Some p \<longrightarrow> pid p = n)"

definition conf :: "('k, 'v) btree \<Rightarrow> nat \<times> nat \<times> nat \<times> nat \<times> bool" where
  "conf t = (page_size t, maxNodeEntries t, maxLeafEntries t, offset t, readOnly t)"

lemma zero_page_simps [simp]:
  "pid (zero_page n) = n" "\<not> is_node (zero_page n)" "leftp (zero_page n) = 0" "rightp (zero_page n) = 0"
  "nentries (zero_page n) = []" "lentries (zero_page n) = []"
  by (simp_all add: zero_page_def)

lemma map_of_update: "map_of (AList.update k v xs) = (map_of xs)(k \<mapsto> v)"
  by (simp add: fun_eq_iff update_conv)

lemma view_dom: "store_inv t \<Longrightarrow> n \<in> dom (page_view t) \<longleftrightarrow> 0 < n \<and> n \<le> length (file_pages t)"
  by (auto simp: page_view_def store_inv_def split: option.splits if_splits)

lemma file_read_page: "store_inv t \<Longrightarrow> 0 < n \<Longrightarrow> n \<le> length (file_pages t) \<Longrightarrow>
    file_read (page_size t * (n - 1) + offset t) t = Some (file_pages t ! (n - 1))"
  by (auto simp: file_read_def store_inv_def Let_def)

text \<open>Adding a copy to the cache.\<close>

lemma store_inv_cache:
  assumes "store_inv t" "pid p = n" "n \<in> dom (page_view t)" "\<not> dirty i \<Longrightarrow> file_pages t ! (n - 1) = p" "ipage i = p"
    "t' = t\<lparr>cache := AList.update n i (cache t)\<rparr>"
  shows "store_inv t'" "page_view t' = (page_view t)(n \<mapsto> p)" "conf t' = conf t"
proof -
  show v: "page_view t' = (page_view t)(n \<mapsto> p)" using assms(5,6) by (auto simp: page_view_def fun_eq_iff map_of_update split: option.split)
  show "conf t' = conf t" by (simp add: assms(6) conf_def)
  have "0 < n \<and> n \<le> length (file_pages t)" using view_dom [OF assms(1)] assms(3) by simp
  then show "store_inv t'" using assms(1,2,4,5) v unfolding store_inv_def
    by (auto simp: assms(6) map_of_update distinct_update)
qed

lemma loadPage_view:
  assumes "store_inv t" "page_view t n = Some p"
  shows "\<exists>t'. loadPage n t = ok (p, t') \<and> store_inv t' \<and> page_view t' = page_view t \<and> conf t' = conf t"
proof (cases "map_of (cache t) n")
  case (Some i)
  then show ?thesis using assms by (auto simp: loadPage_def page_view_def)
next
  case None
  then have n: "0 < n" "n \<le> length (file_pages t)" "p = file_pages t ! (n - 1)"
    using assms(2) by (auto simp: page_view_def split: if_splits)
  have "pid p = n" using assms by (auto simp: store_inv_def)
  moreover from this have "loadPage_file n t = ok p"
    using n file_read_page [OF assms(1) n(1,2)] by (simp add: loadPage_file_def pageOffset_def)
  moreover have "cacheReads t" using assms(1) by (simp add: store_inv_def)
  moreover note store_inv_cache [OF assms(1) \<open>pid p = n\<close> domI [of "page_view t" n, OF assms(2)] _ _ refl, of "PageInfo p"]
  ultimately show ?thesis using None n(3) map_upd_triv [of "page_view t", OF assms(2)] by (auto simp: loadPage_def PageInfo_def)
qed

lemma savePage_view:
  assumes "store_inv t" "pid p \<in> dom (page_view t)"
  shows "\<exists>t'. savePage p t = ok t' \<and> store_inv t' \<and> page_view t' = (page_view t)(pid p \<mapsto> p) \<and> conf t' = conf t"
proof -
  have "cacheWrites t" using assms(1) by (simp add: store_inv_def)
  then obtain u where "savePage p t = ok (t\<lparr>cache := AList.update (pid p) \<lparr>ipage = p, uses = u, dirty = True\<rparr> (cache t)\<rparr>)"
    by (cases "map_of (cache t) (pid p)") (auto simp: savePage_def)
  then show ?thesis using store_inv_cache [OF assms(1) refl assms(2) _ _ refl, of "\<lparr>ipage = p, uses = u, dirty = True\<rparr>"] by simp
qed

lemma newPage_view:
  assumes "store_inv t" "\<not> readOnly t"
  shows "\<exists>n t'. newPage t = ok (zero_page n, t') \<and> store_inv t' \<and> n \<noteq> 0 \<and> n \<notin> dom (page_view t) \<and>
           page_view t' = (page_view t)(n \<mapsto> zero_page n) \<and> conf t' = conf t"
proof -
  let ?n = "length (file_pages t) + 1"
  let ?t = "t\<lparr>file_pages := file_pages t @ [zero_page ?n]\<rparr>"
  have c: "0 < page_size t" "file_head t = offset t" "cacheReads t" using assms(1) by (simp_all add: store_inv_def)
  have f: "newPage_file t = ok (zero_page ?n, ?t)"
    using c assms(2) by (simp add: newPage_file_def seekEnd_def pageOffset_def Let_def)
  have fresh: "?n \<notin> dom (page_view t)" using view_dom [OF assms(1)] by simp
  have cached: "map_of (cache t) ?n = None"
    using assms(1) unfolding store_inv_def by (metis not_less_eq_eq Suc_eq_plus1 order_refl option.exhaust)
  have v: "page_view ?t = (page_view t)(?n \<mapsto> zero_page ?n)"
    using cached by (auto simp: page_view_def fun_eq_iff nth_append split: option.split)
  have "0 < n \<and> n \<le> length (file_pages ?t) \<and> (\<not> dirty i \<longrightarrow> file_pages ?t ! (n - 1) = ipage i)"
    if "map_of (cache t) n = Some i" for n i
  proof -
    have "0 < n" "n \<le> length (file_pages t)" "\<not> dirty i \<longrightarrow> file_pages t ! (n - 1) = ipage i"
      using assms(1) that unfolding store_inv_def by blast+
    then show ?thesis by (simp add: nth_append)
  qed
  then have s: "store_inv ?t"
    using assms(1) v fresh unfolding store_inv_def by (simp add: zero_page_def del: map_of_eq_Some_iff)
  have "pid (zero_page ?n :: ('a, 'b) page) = ?n" by (simp add: zero_page_def)
  note u = store_inv_cache [OF s this _ _ _ refl, of "PageInfo (zero_page ?n)"]
  have "newPage t = ok (zero_page ?n, ?t\<lparr>cache := AList.update ?n (PageInfo (zero_page ?n)) (cache ?t)\<rparr>)"
    using f c(3) by (simp add: newPage_def zero_page_def)
  then show ?thesis using u v fresh by (auto simp: PageInfo_def nth_append conf_def)
qed

interpretation ps: page_store loadPage savePage newPage page_view store_inv "\<lambda>t. \<not> readOnly t" conf pid zero_page
proof unfold_locales
  show "pid p = n \<and> n \<noteq> 0" if "store_inv t" "page_view t n = Some p" for t :: "('a, 'b) btree" and n p
    using that view_dom [OF that(1), of n] by (auto simp: store_inv_def domIff)
  show "(\<not> readOnly t') = (\<not> readOnly t)" if "conf t' = conf t" for t t' :: "('a, 'b) btree"
    using that by (simp add: conf_def)
qed (fact loadPage_view savePage_view newPage_view zero_page_simps)+

end
