(* ===== verification/Eckit_BTree_Wf.thy ===== *)
theory Eckit_BTree_Wf
  imports Eckit_BTree
begin

text \<open>
  The invariant of the B+ tree of \<open>Eckit_BTree\<close>: every page has a parent, a level and an interval of keys, which a record of
  functions on page numbers supplies, and the leaves are linked in the order of their intervals. The theory shows
  that a key is in one leaf only, that every descent ends in that leaf (locale \<open>descent\<close>, interpreted for search, range
  search and insertion), and that splitting a leaf, a node or the root keeps the invariant.
\<close>

section \<open>Keys and intervals\<close>

text \<open>
  Every page covers an interval of keys, bounded below (inclusively) and above (exclusively) by keys or unbounded.
  The slots of a node are its children with the intervals its keys give them.
\<close>

definition at_least :: "'k :: linorder option \<Rightarrow> 'k \<Rightarrow> bool" where
  "at_least a k \<longleftrightarrow> (case a of None \<Rightarrow> True | Some x \<Rightarrow> x \<le> k)"

definition strictly_above :: "'k :: linorder option \<Rightarrow> 'k \<Rightarrow> bool" where
  "strictly_above a k \<longleftrightarrow> (case a of None \<Rightarrow> True | Some x \<Rightarrow> x < k)"

definition less_bound :: "'k :: linorder option \<Rightarrow> 'k \<Rightarrow> bool" where
  "less_bound b k \<longleftrightarrow> (case b of None \<Rightarrow> True | Some x \<Rightarrow> k < x)"

definition within :: "'k :: linorder option \<Rightarrow> 'k option \<Rightarrow> 'k \<Rightarrow> bool" where
  "within a b k \<longleftrightarrow> at_least a k \<and> less_bound b k"

definition sorted_keys :: "('k :: linorder \<times> 'a) list \<Rightarrow> bool" where
  "sorted_keys es \<longleftrightarrow> sorted_wrt (<) (map fst es)"

fun slots :: "'k option \<Rightarrow> 'k option \<Rightarrow> nat \<Rightarrow> ('k \<times> nat) list \<Rightarrow> ('k option \<times> nat \<times> 'k option) list" where
  "slots a b c [] = [(a, c, b)]"
| "slots a b c ((k, d) # es) = (a, c, Some k) # slots (Some k) b d es"

definition keys_between :: "'k :: linorder option \<Rightarrow> 'k option \<Rightarrow> ('k \<times> 'a) list \<Rightarrow> bool" where
  "keys_between a b es \<longleftrightarrow> (\<forall>k \<in> fst ` set es. strictly_above a k \<and> less_bound b k)"

lemma bounds_simps [simp]:
  "at_least None k" "at_least (Some x) k \<longleftrightarrow> x \<le> k" "strictly_above None k" "strictly_above (Some x) k \<longleftrightarrow> x < k"
  "less_bound None k" "less_bound (Some x) k \<longleftrightarrow> k < x"
  by (simp_all add: at_least_def strictly_above_def less_bound_def)

lemma strictly_above_at_least: "strictly_above a k \<Longrightarrow> at_least a k"
  by (cases a) auto

lemma above_trans: "at_least a k \<Longrightarrow> k \<le> k' \<Longrightarrow> at_least a k'" "strictly_above a k \<Longrightarrow> k \<le> k' \<Longrightarrow> strictly_above a k'"
  "at_least a k \<Longrightarrow> k < k' \<Longrightarrow> strictly_above a k'" "less_bound b k' \<Longrightarrow> k \<le> k' \<Longrightarrow> less_bound b k"
  by (cases a; auto)+ (cases b; auto)

lemma sorted_keys_simps [simp]:
  "sorted_keys []" "sorted_keys (e # es) \<longleftrightarrow> (\<forall>f \<in> set es. fst e < fst f) \<and> sorted_keys es"
  by (auto simp: sorted_keys_def)

lemma sorted_keys_append:
  "sorted_keys (xs @ ys) \<longleftrightarrow> sorted_keys xs \<and> sorted_keys ys \<and> (\<forall>x \<in> set xs. \<forall>y \<in> set ys. fst x < fst y)"
  by (induction xs) auto

lemma keys_between_simps [simp]:
  "keys_between a b []" "keys_between a b (e # es) \<longleftrightarrow> strictly_above a (fst e) \<and> less_bound b (fst e) \<and> keys_between a b es"
  "keys_between a b (xs @ ys) \<longleftrightarrow> keys_between a b xs \<and> keys_between a b ys"
  by (auto simp: keys_between_def)

lemma keys_between_tail:
  "sorted_keys ((k, d) # es) \<Longrightarrow> keys_between a b ((k, d) # es) \<Longrightarrow> keys_between (Some k) b es"
  by (auto simp: keys_between_def)

lemma keys_between_init:
  "sorted_keys (xs @ (k, d) # ys) \<Longrightarrow> keys_between a b (xs @ (k, d) # ys) \<Longrightarrow> keys_between a (Some k) xs"
  by (auto simp: keys_between_def sorted_keys_append)

lemma slots_append: "slots a b c (xs @ (k, d) # ys) = slots a (Some k) c xs @ slots (Some k) b d ys"
  by (induction a b c xs rule: slots.induct) auto

lemma slots_children: "map (\<lambda>(a, c, b). c) (slots a b c es) = c # map snd es"
  by (induction a b c es rule: slots.induct) auto

lemma slots_lower:
  "(x, d, y) \<in> set (slots a b c es) \<Longrightarrow> sorted_keys es \<Longrightarrow> keys_between a b es \<Longrightarrow> x = a \<or> (\<exists>k. x = Some k \<and> strictly_above a k)"
proof (induction a b c es rule: slots.induct)
  case (2 a b c k d' es)
  show ?case
  proof (cases "(x, d, y) = (a, c, Some k)")
    case False
    then have "x = Some k \<or> (\<exists>k'. x = Some k' \<and> strictly_above (Some k) k')"
      using 2 keys_between_tail [of k d' es a b] by auto
    then show ?thesis using 2(4) above_trans(2) [of a k] by auto
  qed auto
qed auto

lemma slots_distinct: "sorted_keys es \<Longrightarrow> keys_between a b es \<Longrightarrow> distinct (map fst (slots a b c es))"
proof (induction a b c es rule: slots.induct)
  case (2 a b c k d es)
  note t = keys_between_tail [OF 2(2,3)]
  have "a \<noteq> x" if "(x, e) \<in> set (slots (Some k) b d es)" for x e
    using slots_lower [of x "fst e" "snd e" "Some k" b d es] that 2(2,3) t by (cases a) auto
  then have "a \<notin> fst ` set (slots (Some k) b d es)" by force
  then show ?case using 2 t by simp
qed auto

lemma slots_within:
  "(x, d, y) \<in> set (slots a b c es) \<Longrightarrow> sorted_keys es \<Longrightarrow> keys_between a b es \<Longrightarrow> within x y k \<Longrightarrow> within a b k"
proof (induction a b c es rule: slots.induct)
  case (2 a b c k' d' es)
  show ?case
  proof (cases "(x, d, y) = (a, c, Some k')")
    case True
    then show ?thesis using 2(4,5) above_trans(4) [of b k' k] by (auto simp: within_def)
  next
    case False
    then have "within (Some k') b k" using 2 keys_between_tail [OF 2(3,4)] by auto
    then show ?thesis using 2(4) above_trans(1) [OF strictly_above_at_least, of a k' k] by (auto simp: within_def)
  qed
qed auto

lemma slots_unique:
  "(x, d, y) \<in> set (slots a b c es) \<Longrightarrow> (x', d', y') \<in> set (slots a b c es) \<Longrightarrow> sorted_keys es \<Longrightarrow> keys_between a b es \<Longrightarrow>
   within x y k \<Longrightarrow> within x' y' k \<Longrightarrow> (x, d, y) = (x', d', y')"
proof (induction a b c es rule: slots.induct)
  case (2 a b c k' e es)
  have "within (Some k') b k" if "(x, d, y) \<in> set (slots (Some k') b e es)" "within x y k" for x d y
    using slots_within [OF that(1) _ keys_between_tail [OF 2(4,5)] that(2)] 2(4) by simp
  moreover have "\<not> within (Some k') b k" if "within a (Some k') k" using that by (auto simp: within_def)
  ultimately show ?case using 2 keys_between_tail [OF 2(4,5)] by auto
qed auto

section \<open>The child for a key\<close>

fun child :: "'k :: linorder \<Rightarrow> nat \<Rightarrow> ('k \<times> nat) list \<Rightarrow> nat" where
  "child k c [] = c"
| "child k c ((k', d) # es) = (if k < k' then c else child k d es)"

lemma child_slot: "within a b k \<Longrightarrow> \<exists>x y. (x, child k c es, y) \<in> set (slots a b c es) \<and> within x y k"
proof (induction a b c es rule: slots.induct)
  case (2 a b c k' d es)
  show ?case
  proof (cases "k < k'")
    case True
    then have "within a (Some k') k" using 2(2) by (simp add: within_def)
    then show ?thesis using True by auto
  next
    case False
    then have "within (Some k') b k" using 2(2) by (simp add: within_def)
    from 2(1) [OF this] show ?thesis using False by auto
  qed
qed auto

lemma bt_lower_bound_simps [simp]:
  "bt_lower_bound k [] = 0" "bt_lower_bound k (e # es) = (if fst e < k then bt_lower_bound k es + 1 else 0)"
  by (simp_all add: bt_lower_bound_def)

lemma bt_lower_bound_le: "bt_lower_bound k es \<le> length es"
  by (simp add: bt_lower_bound_def length_takeWhile_le)

lemma bt_next_child:
  assumes "sorted_keys ((k0, d) # es)" "\<not> k < k0"
  shows "(let e = bt_lower_bound k ((k0, d) # es);
              e = (if e = length ((k0, d) # es) \<or> k < fst (((k0, d) # es) ! e) then e - 1 else e)
          in snd (((k0, d) # es) ! e)) = child k d es"
  using assms
proof (induction es arbitrary: k0 d)
  case (Cons f es)
  obtain k1 d1 where f: "f = (k1, d1)" by (cases f)
  have "k0 < k1" using Cons.prems(1) f by simp
  show ?case
  proof (cases "k < k1")
    case True
    then show ?thesis using Cons.prems f by auto
  next
    case False
    then have "k0 < k" using \<open>k0 < k1\<close> by simp
    then show ?thesis using Cons.IH [of k1 d1] Cons.prems(1) f False
      by (auto simp: Let_def nth_Cons' split: if_splits)
  qed
qed auto

lemma bt_next_eq:
  assumes "is_node p" "nentries p \<noteq> []" "sorted_keys (nentries p)"
  shows "bt_next k p = ok (child k (leftp p) (nentries p))"
proof -
  obtain k0 d es where e: "nentries p = (k0, d) # es" using assms(2) by (cases "nentries p") auto
  show ?thesis using assms bt_next_child [of k0 d es k] by (auto simp: bt_next_def e Let_def)
qed

lemma bt_lower_bound_split:
  assumes "sorted_keys es"
  shows "\<forall>x \<in> set (take (bt_lower_bound k es) es). fst x < k" "\<forall>x \<in> set (drop (bt_lower_bound k es) es). k \<le> fst x"
proof -
  show "\<forall>x \<in> set (take (bt_lower_bound k es) es). fst x < k" by (induction es) auto
  show "\<forall>x \<in> set (drop (bt_lower_bound k es) es). k \<le> fst x" using assms
  proof (induction es)
    case (Cons e es)
    then show ?case by (cases "fst e < k") (auto simp: not_less intro: order.strict_implies_order order.strict_trans1)
  qed simp
qed

lemma bt_lower_bound_hit:
  assumes "sorted_keys es"
  shows "bt_lower_bound k es \<noteq> length es \<and> fst (es ! bt_lower_bound k es) = k \<longleftrightarrow> k \<in> fst ` set es"
  using assms by (induction es) force+

lemma bt_lower_bound_value:
  assumes "sorted_keys es" "k \<in> fst ` set es"
  shows "map_of es k = Some (snd (es ! bt_lower_bound k es))"
  using assms by (induction es) force+

section \<open>Well-formed trees\<close>

text \<open>
  The invariant gives every page a parent, an interval of keys and a level. Leaves are at level 0 and are linked to the
  leaf that covers the next interval.
\<close>

record 'k ghost =
  par :: "nat \<Rightarrow> nat"
  lo :: "nat \<Rightarrow> 'k option"
  hi :: "nat \<Rightarrow> 'k option"
  lev :: "nat \<Rightarrow> nat"

definition children :: "('k, 'v) page \<Rightarrow> nat list" where
  "children p = leftp p # map snd (nentries p)"

definition slot_ok :: "nat set \<Rightarrow> 'k ghost \<Rightarrow> nat \<Rightarrow> 'k option \<times> nat \<times> 'k option \<Rightarrow> bool" where
  "slot_ok D G n s \<longleftrightarrow>
     (case s of (a, c, b) \<Rightarrow> c \<in> D \<and> c \<noteq> 1 \<and> par G c = n \<and> lo G c = a \<and> hi G c = b \<and> lev G c + 1 = lev G n)"

definition node_ok :: "nat set \<Rightarrow> 'k :: linorder ghost \<Rightarrow> nat \<Rightarrow> ('k, 'v) page \<Rightarrow> bool" where
  "node_ok D G n p \<longleftrightarrow> nentries p \<noteq> [] \<and> sorted_keys (nentries p) \<and> keys_between (lo G n) (hi G n) (nentries p) \<and>
     (\<forall>s \<in> set (slots (lo G n) (hi G n) (leftp p) (nentries p)). slot_ok D G n s)"

definition link_ok :: "nat set \<Rightarrow> 'k ghost \<Rightarrow> nat \<Rightarrow> nat \<Rightarrow> bool" where
  "link_ok D G n r \<longleftrightarrow> (if hi G n = None then r = 0 else r \<in> D \<and> lev G r = 0 \<and> lo G r = hi G n)"

definition leaf_ok :: "nat set \<Rightarrow> 'k :: linorder ghost \<Rightarrow> nat \<Rightarrow> ('k, 'v) page \<Rightarrow> bool" where
  "leaf_ok D G n p \<longleftrightarrow> lev G n = 0 \<and> sorted_keys (lentries p) \<and> (\<forall>e \<in> set (lentries p). within (lo G n) (hi G n) (fst e)) \<and>
     (lentries p = [] \<longrightarrow> n = 1) \<and> link_ok D G n (rightp p)"

definition page_ok :: "nat set \<Rightarrow> 'k :: linorder ghost \<Rightarrow> nat \<Rightarrow> ('k, 'v) page \<Rightarrow> bool" where
  "page_ok D G n p \<longleftrightarrow> pid p = n \<and> n \<noteq> 0 \<and> (if is_node p then node_ok D G n p else leaf_ok D G n p)"

definition has_parent :: "(nat \<rightharpoonup> ('k, 'v) page) \<Rightarrow> 'k ghost \<Rightarrow> nat \<Rightarrow> bool" where
  "has_parent V G n \<longleftrightarrow> (\<exists>p. V (par G n) = Some p \<and> is_node p \<and> n \<in> set (children p))"

definition wf_tree :: "(nat \<rightharpoonup> ('k :: linorder, 'v) page) \<Rightarrow> 'k ghost \<Rightarrow> bool" where
  "wf_tree V G \<longleftrightarrow> 1 \<in> dom V \<and> lo G 1 = None \<and> hi G 1 = None \<and> (\<forall>n p. V n = Some p \<longrightarrow> page_ok (dom V) G n p) \<and>
     (\<forall>n \<in> dom V. n \<noteq> 1 \<longrightarrow> lev G n < lev G 1 \<and> has_parent V G n)"

text \<open>What the leaves hold.\<close>

definition holds :: "(nat \<rightharpoonup> ('k, 'v) page) \<Rightarrow> 'k \<Rightarrow> 'v \<Rightarrow> bool" where
  "holds V k v \<longleftrightarrow> (\<exists>n p. V n = Some p \<and> \<not> is_node p \<and> (k, v) \<in> set (lentries p))"

fun chain :: "(nat \<Rightarrow> nat) \<Rightarrow> nat list \<Rightarrow> nat \<Rightarrow> bool" where
  "chain f [] n \<longleftrightarrow> n = 1"
| "chain f (q # path) n \<longleftrightarrow> n \<noteq> 1 \<and> f n = q \<and> chain f path q"

lemma wf_pageD: "wf_tree V G \<Longrightarrow> V n = Some p \<Longrightarrow> page_ok (dom V) G n p"
  by (simp add: wf_tree_def)

lemma wf_nodeD: "wf_tree V G \<Longrightarrow> V n = Some p \<Longrightarrow> is_node p \<Longrightarrow> node_ok (dom V) G n p"
  using wf_pageD by (fastforce simp: page_ok_def)

lemma wf_leafD: "wf_tree V G \<Longrightarrow> V n = Some p \<Longrightarrow> \<not> is_node p \<Longrightarrow> leaf_ok (dom V) G n p"
  using wf_pageD by (fastforce simp: page_ok_def)

lemma wf_parentD:
  "wf_tree V G \<Longrightarrow> n \<in> dom V \<Longrightarrow> n \<noteq> 1 \<Longrightarrow>
   lev G n < lev G 1 \<and> (\<exists>p. V (par G n) = Some p \<and> is_node p \<and> n \<in> set (children p))"
  unfolding wf_tree_def has_parent_def by blast

lemma slots_child: "c \<in> set (d # map snd es) \<Longrightarrow> \<exists>x y. (x, c, y) \<in> set (slots a b d es)"
  by (force simp: slots_children [of a b d es, symmetric])

lemma slots_childD: "(x, c, y) \<in> set (slots a b d es) \<Longrightarrow> c \<in> set (d # map snd es)"
  by (force simp: slots_children [of a b d es, symmetric])

text \<open>A child carries the interval and the level its parent gives it.\<close>

lemma child_slotD:
  assumes "wf_tree V G" "V n = Some p" "is_node p" "c \<in> set (children p)"
  shows "(lo G c, c, hi G c) \<in> set (slots (lo G n) (hi G n) (leftp p) (nentries p))"
    "c \<in> dom V" "c \<noteq> 1" "par G c = n" "lev G c + 1 = lev G n"
  using slots_child [of c "leftp p" "nentries p" "lo G n" "hi G n"] wf_nodeD [OF assms(1-3)] assms(4)
  by (fastforce simp: children_def node_ok_def slot_ok_def)+

lemma wf_next:
  assumes "wf_tree V G" "V n = Some p" "is_node p" "within (lo G n) (hi G n) k"
  shows "\<exists>c. bt_next k p = ok c \<and> c \<in> dom V \<and> c \<noteq> 1 \<and> within (lo G c) (hi G c) k \<and> par G c = n \<and> lev G c + 1 = lev G n"
proof -
  note w = wf_nodeD [OF assms(1-3), unfolded node_ok_def]
  obtain x y where s: "(x, child k (leftp p) (nentries p), y) \<in> set (slots (lo G n) (hi G n) (leftp p) (nentries p))" "within x y k"
    using child_slot [OF assms(4)] by blast
  then have "slot_ok (dom V) G n (x, child k (leftp p) (nentries p), y)" using w by blast
  then show ?thesis using bt_next_eq [OF assms(3)] w s(2) by (auto simp: slot_ok_def)
qed

text \<open>On every level a key belongs to the interval of one page only.\<close>

lemma wf_unique:
  "wf_tree V G \<Longrightarrow> n \<in> dom V \<Longrightarrow> m \<in> dom V \<Longrightarrow> lev G n = lev G m \<Longrightarrow>
   within (lo G n) (hi G n) k \<Longrightarrow> within (lo G m) (hi G m) k \<Longrightarrow> n = m"
proof (induction "lev G 1 - lev G n" arbitrary: n m rule: less_induct)
  case less
  show ?case
  proof (cases "n = 1 \<or> m = 1")
    case True
    then show ?thesis using less.prems(1-4) by (metis less_irrefl wf_tree_def)
  next
    case False
    then obtain p q where p: "V (par G n) = Some p" "is_node p" "n \<in> set (children p)"
      and q: "V (par G m) = Some q" "is_node q" "m \<in> set (children q)" and l: "lev G n < lev G 1"
      using wf_parentD [OF less.prems(1,2)] wf_parentD [OF less.prems(1,3)] by blast
    note cp = child_slotD [OF less.prems(1) p] and cq = child_slotD [OF less.prems(1) q]
    note wp = wf_nodeD [OF less.prems(1) p(1,2), unfolded node_ok_def] and wq = wf_nodeD [OF less.prems(1) q(1,2), unfolded node_ok_def]
    have "lev G 1 - lev G (par G n) < lev G 1 - lev G n" using cp(5) l by linarith
    then have "par G n = par G m"
      using less.hyps [of "par G n" "par G m"] less.prems p(1) q(1) cp(5) cq(5)
        slots_within [OF cp(1) _ _ less.prems(5)] slots_within [OF cq(1) _ _ less.prems(6)] wp wq by auto
    then have "(lo G m, m, hi G m) \<in> set (slots (lo G (par G n)) (hi G (par G n)) (leftp p) (nentries p))"
      using cq(1) p(1) q(1) by simp
    from slots_unique [OF cp(1) this _ _ less.prems(5,6)] show ?thesis using wp by simp
  qed
qed

lemma holds_leaf:
  assumes "wf_tree V G" "V n = Some p" "\<not> is_node p" "within (lo G n) (hi G n) k"
  shows "holds V k v \<longleftrightarrow> (k, v) \<in> set (lentries p)"
proof
  assume "holds V k v"
  then obtain m q where m: "V m = Some q" "\<not> is_node q" "(k, v) \<in> set (lentries q)" by (auto simp: holds_def)
  note q = wf_leafD [OF assms(1) m(1,2)]
  have "within (lo G m) (hi G m) k" using q m(3) by (force simp: leaf_ok_def)
  moreover have "lev G n = lev G m" using q wf_leafD [OF assms(1-3)] by (simp add: leaf_ok_def)
  ultimately have "n = m" using wf_unique [OF assms(1), of n m k] assms(2,4) m(1) by blast
  then show "(k, v) \<in> set (lentries p)" using m assms(2) by simp
qed (use assms in \<open>auto simp: holds_def\<close>)

lemma holds_leaf_key:
  assumes "wf_tree V G" "V n = Some p" "\<not> is_node p" "within (lo G n) (hi G n) k"
  shows "(\<exists>v. holds V k v) \<longleftrightarrow> k \<in> fst ` set (lentries p)"
  unfolding holds_leaf [OF assms] by (auto intro: rev_image_eqI)

section \<open>Descent to a leaf\<close>

text \<open>
  Search, range search and insertion go down the tree in the same way; \<open>F\<close> is one of them, called with the number of a
  page and the path to it, and \<open>L\<close> what it does at the leaf.
\<close>

locale descent =
  fixes k :: "'k :: linorder"
    and F :: "nat \<Rightarrow> nat list \<Rightarrow> ('k, 'v) btree \<Rightarrow> 'r comp"
    and L :: "nat list \<Rightarrow> ('k, 'v) page \<Rightarrow> ('k, 'v) btree \<Rightarrow> 'r comp"
  assumes F_unfold: "F n path t =
      cbind (Some (loadPage n t)) (\<lambda>(p, t). if is_node p then cbind (Some (bt_next k p)) (\<lambda>c. F c (n # path) t) else L path p t)"
begin

lemma to_leaf:
  "wf_tree (page_view t) G \<Longrightarrow> store_inv t \<Longrightarrow> n \<in> dom (page_view t) \<Longrightarrow> within (lo G n) (hi G n) k \<Longrightarrow> chain (par G) path n \<Longrightarrow>
   \<exists>m p path' t'. F n path t = L path' p t' \<and> page_view t' = page_view t \<and> store_inv t' \<and> conf t' = conf t \<and>
     page_view t m = Some p \<and> \<not> is_node p \<and> within (lo G m) (hi G m) k \<and> chain (par G) path' m"
proof (induction "lev G n" arbitrary: n path t rule: less_induct)
  case less
  obtain p where p: "page_view t n = Some p" using less.prems(3) by auto
  obtain t1 where t1: "loadPage n t = ok (p, t1)" "store_inv t1" "page_view t1 = page_view t" "conf t1 = conf t"
    using ps.load_view [OF less.prems(2) p] by auto
  show ?case
  proof (cases "is_node p")
    case True
    then obtain c where c: "bt_next k p = ok c" "c \<in> dom (page_view t)" "c \<noteq> 1" "within (lo G c) (hi G c) k" "par G c = n" "lev G c + 1 = lev G n"
      using wf_next [OF less.prems(1) p True less.prems(4)] by auto
    have "F n path t = F c (n # path) t1" using t1(1) True c(1) by (simp add: F_unfold [of n path t])
    then show ?thesis using less.hyps [of c t1 "n # path"] c less.prems t1 by simp
  next
    case False
    then have "F n path t = L path p t1" using t1(1) by (simp add: F_unfold [of n path t])
    then show ?thesis using False p t1 less.prems by blast
  qed
qed

lemma from_root:
  assumes "wf_tree (page_view t) G" "store_inv t"
  shows "\<exists>m p path' t'. F 1 [] t = L path' p t' \<and> page_view t' = page_view t \<and> store_inv t' \<and> conf t' = conf t \<and>
     page_view t m = Some p \<and> \<not> is_node p \<and> within (lo G m) (hi G m) k \<and> chain (par G) path' m"
  by (rule to_leaf [OF assms]) (use assms(1) in \<open>auto simp: wf_tree_def within_def\<close>)

end

interpretation searching: descent k "\<lambda>n path t. bt_search n k t"
  "\<lambda>path p t. let es = lentries p; e = bt_lower_bound k es in
     Some (ok (if e \<noteq> length es \<and> fst (es ! e) = k then Some (snd (es ! e)) else None, t))" for k
  by unfold_locales (subst bt_search.simps, rule refl)

interpretation ranging: descent k1 "\<lambda>n path t. search_range n k1 k2 t"
  "\<lambda>path p t. let e = bt_lower_bound k1 (lentries p) in
     if e = length (lentries p) then Some (ok ([], t)) else range_loop k2 p e [] t" for k1 k2
  by unfold_locales (subst search_range.simps, rule refl)

interpretation inserting: descent k "\<lambda>n path t. bt_insert n k v path t" "\<lambda>path p t. Some (insert_leaf k v path p t)" for k v
  by unfold_locales (subst bt_insert.simps, rule refl)

lemma get_holds:
  assumes "wf_tree (page_view t) G" "store_inv t"
  shows "\<exists>r t'. bt_get k t = Some (ok (r, t')) \<and> page_view t' = page_view t \<and> store_inv t' \<and> conf t' = conf t \<and>
    (\<forall>v. r = Some v \<longleftrightarrow> holds (page_view t) k v)"
proof -
  obtain m p t' where p: "page_view t' = page_view t" "store_inv t'" "conf t' = conf t" "page_view t m = Some p" "\<not> is_node p" "within (lo G m) (hi G m) k"
    "bt_search 1 k t = (let es = lentries p; e = bt_lower_bound k es in
     Some (ok (if e \<noteq> length es \<and> fst (es ! e) = k then Some (snd (es ! e)) else None, t')))"
    using searching.from_root [OF assms, of k] by blast
  define r where "r = map_of (lentries p) k"
  have s: "sorted_keys (lentries p)" using wf_leafD [OF assms(1) p(4,5)] by (simp add: leaf_ok_def)
  then have "distinct (map fst (lentries p))" by (auto simp: sorted_keys_def strict_sorted_iff)
  then have "\<forall>v. r = Some v \<longleftrightarrow> holds (page_view t) k v" using holds_leaf [OF assms(1) p(4-6)] by (simp add: r_def)
  moreover have "bt_get k t = Some (ok (r, t'))"
  proof (cases "k \<in> fst ` set (lentries p)")
    case True
    then show ?thesis using bt_lower_bound_hit [OF s, of k] bt_lower_bound_value [OF s, of k] p(7) by (simp add: bt_get_def Let_def r_def)
  next
    case False
    moreover from this have "r = None" by (simp add: r_def map_of_eq_None_iff)
    ultimately show ?thesis using bt_lower_bound_hit [OF s, of k] p(7) by (simp add: bt_get_def Let_def)
  qed
  ultimately show ?thesis using p(1-3) by blast
qed

section \<open>Changes that keep a tree well-formed\<close>

definition insert_sorted :: "'k :: linorder \<Rightarrow> 'a \<Rightarrow> ('k \<times> 'a) list \<Rightarrow> ('k \<times> 'a) list" where
  "insert_sorted k x es = take (bt_lower_bound k es) es @ (k, x) # drop (bt_lower_bound k es) es"

lemma insert_sorted_simps [simp]:
  "insert_sorted k x [] = [(k, x)]"
  "insert_sorted k x (e # es) = (if fst e < k then e # insert_sorted k x es else (k, x) # e # es)"
  by (simp_all add: insert_sorted_def)

lemma set_insert_sorted [simp]: "set (insert_sorted k x es) = insert (k, x) (set es)"
  by (induction es) auto

lemma length_insert_sorted [simp]: "length (insert_sorted k x es) = length es + 1"
  by (induction es) auto

lemma insert_sorted_not_Nil [simp]: "insert_sorted k x es \<noteq> []"
  by (metis length_insert_sorted list.size(3) add_is_0 zero_neq_one)

lemma sorted_insert_sorted: "sorted_keys es \<Longrightarrow> k \<notin> fst ` set es \<Longrightarrow> sorted_keys (insert_sorted k x es)"
proof (induction es)
  case (Cons e es)
  show ?case
  proof (cases "fst e < k")
    case False
    then have "k < fst e" using Cons.prems(2) by (auto simp: not_less order.strict_iff_order)
    moreover have "k < fst f" if "f \<in> set es" for f using Cons.prems(1) that calculation by (auto dest: order.strict_trans)
    ultimately show ?thesis using Cons.prems(1) by auto
  qed (use Cons in auto)
qed simp

lemma keys_between_insert_sorted:
  "keys_between a b es \<Longrightarrow> strictly_above a k \<Longrightarrow> less_bound b k \<Longrightarrow> keys_between a b (insert_sorted k x es)"
  by (auto simp: keys_between_def)

text \<open>A key inside the interval of a child splits its slot in two.\<close>

lemma slots_insert:
  "(a, i, b) \<in> set (slots l h c es) \<Longrightarrow> sorted_keys es \<Longrightarrow> keys_between l h es \<Longrightarrow> strictly_above a k \<Longrightarrow> less_bound b k \<Longrightarrow>
   k \<notin> fst ` set es \<and> strictly_above l k \<and> less_bound h k \<and>
   (\<exists>S1 S2. slots l h c es = S1 @ (a, i, b) # S2 \<and> slots l h c (insert_sorted k n es) = S1 @ (a, i, Some k) # (Some k, n, b) # S2)"
proof (induction l h c es rule: slots.induct)
  case (1 l h c)
  then show ?case by (auto intro: exI [of _ "[]"])
next
  case (2 l h c k1 d es)
  note t = keys_between_tail [OF 2(3,4)]
  have tail: "k1 < k" if "(a, i, b) \<in> set (slots (Some k1) h d es)"
    using slots_lower [OF that _ t] 2(3,5) by auto
  show ?case
  proof (cases "k < k1")
    case True
    then have "(a, i, b) = (l, c, Some k1)" using tail 2(2) by auto
    moreover have "k \<notin> fst ` set es" using True 2(3) by auto
    moreover have "less_bound h k" using 2(4) True above_trans(4) [of h k1 k] by auto
    ultimately show ?thesis using True 2(5) by (auto intro: exI [of _ "[]"])
  next
    case False
    then have m: "(a, i, b) \<in> set (slots (Some k1) h d es)" using 2(2,6) by auto
    then have "k1 < k" by (rule tail)
    obtain S1 S2 where S: "slots (Some k1) h d es = S1 @ (a, i, b) # S2"
        "slots (Some k1) h d (insert_sorted k n es) = S1 @ (a, i, Some k) # (Some k, n, b) # S2"
        "k \<notin> fst ` set es" "less_bound h k"
      using 2(1) [OF m _ t 2(5,6)] 2(3) by auto
    moreover have "strictly_above l k" using 2(4) \<open>k1 < k\<close> above_trans(2) [of l k1 k] by auto
    moreover have "slots l h c ((k1, d) # es) = ((l, c, Some k1) # S1) @ (a, i, b) # S2"
        "slots l h c (insert_sorted k n ((k1, d) # es)) = ((l, c, Some k1) # S1) @ (a, i, Some k) # (Some k, n, b) # S2"
      using S(1,2) \<open>k1 < k\<close> by simp_all
    moreover have "k \<notin> fst ` set ((k1, d) # es)" using S(3) \<open>k1 < k\<close> by auto
    ultimately show ?thesis by blast
  qed
qed

text \<open>A page stays in order when nothing changes around it.\<close>

lemma page_ok_frame:
  assumes "page_ok D G n p" "D \<subseteq> D'" "lo G' n = lo G n" "hi G' n = hi G n" "lev G' n = lev G n"
    "\<And>c. is_node p \<Longrightarrow> c \<in> D \<Longrightarrow> c \<noteq> 1 \<Longrightarrow> par G c = n \<Longrightarrow> par G' c = n \<and> lo G' c = lo G c \<and> hi G' c = hi G c \<and> lev G' c = lev G c"
    "\<And>r. \<not> is_node p \<Longrightarrow> r \<in> D \<Longrightarrow> lo G r \<noteq> None \<Longrightarrow> lo G' r = lo G r \<and> lev G' r = lev G r"
  shows "page_ok D' G' n p"
proof (cases "is_node p")
  case True
  have "slot_ok D' G' n s" if "slot_ok D G n s" for s
    using that assms(2,5) assms(6) [OF True] by (auto simp: slot_ok_def split: prod.splits)
  then show ?thesis using assms(1,3,4) True by (auto simp: page_ok_def node_ok_def)
next
  case False
  have "link_ok D' G' n (rightp p)" if "link_ok D G n (rightp p)"
    using that assms(2,4) assms(7) [OF False] by (auto simp: link_ok_def split: if_splits)
  then show ?thesis using assms(1,3-5) False by (auto simp: page_ok_def leaf_ok_def)
qed

lemma wf_tree_frame:
  assumes "wf_tree V G" "V n = Some p" "page_ok (dom V) G n p'" "is_node p' = is_node p" "is_node p \<Longrightarrow> children p' = children p"
  shows "wf_tree (V(n \<mapsto> p')) G"
proof -
  have d: "dom (V(n \<mapsto> p')) = dom V" using assms(2) by auto
  have "has_parent (V(n \<mapsto> p')) G m" if "has_parent V G m" for m
    using that assms(2,4,5) by (fastforce simp: has_parent_def)
  then show ?thesis using assms(1,3) unfolding wf_tree_def d by auto
qed

section \<open>Splitting a page\<close>

definition split_ghost :: "'k ghost \<Rightarrow> nat \<Rightarrow> nat \<Rightarrow> 'k \<Rightarrow> nat set \<Rightarrow> 'k ghost" where
  "split_ghost G i n k M =
     \<lparr>par = (\<lambda>c. if c = n then par G i else if c \<in> M then n else par G c),
      lo = (lo G)(n := Some k), hi = (hi G)(n := hi G i, i := Some k), lev = (lev G)(n := lev G i)\<rparr>"

lemma split_ghost_simps [simp]:
  "par (split_ghost G i n k M) c = (if c = n then par G i else if c \<in> M then n else par G c)"
  "lo (split_ghost G i n k M) = (lo G)(n := Some k)" "hi (split_ghost G i n k M) = (hi G)(n := hi G i, i := Some k)"
  "lev (split_ghost G i n k M) = (lev G)(n := lev G i)"
  by (simp_all add: split_ghost_def)

lemma split_parent:
  assumes "wf_tree V G" "V i = Some p" "i \<noteq> 1" "V q = Some pq" "q = par G i" "n \<notin> dom V"
    "strictly_above (lo G i) k" "less_bound (hi G i) k" "M \<subseteq> {c \<in> dom V. par G c = i}"
  shows "page_ok (insert n (dom V)) (split_ghost G i n k M) q (pq\<lparr>nentries := insert_sorted k n (nentries pq)\<rparr>)"
    "k \<notin> fst ` set (nentries pq)"
proof -
  let ?G = "split_ghost G i n k M"
  have pq: "is_node pq" "i \<in> set (children pq)" using wf_parentD [OF assms(1) _ assms(3)] assms(2,4,5) by auto
  note w = wf_nodeD [OF assms(1,4) pq(1), unfolded node_ok_def]
  note ci = child_slotD [OF assms(1,4) pq]
  have ne: "q \<noteq> n" "q \<noteq> i" "i \<noteq> n" "n \<noteq> 1" using assms(1,2,4,6) ci(5) by (auto simp: wf_tree_def)
  note I = slots_insert [OF ci(1) _ _ assms(7,8), of n]
  obtain S1 S2 where S: "slots (lo G q) (hi G q) (leftp pq) (nentries pq) = S1 @ (lo G i, i, hi G i) # S2"
      "slots (lo G q) (hi G q) (leftp pq) (insert_sorted k n (nentries pq)) = S1 @ (lo G i, i, Some k) # (Some k, n, hi G i) # S2"
    and k: "k \<notin> fst ` set (nentries pq)" "strictly_above (lo G q) k" "less_bound (hi G q) k"
    using I w by blast
  show "k \<notin> fst ` set (nentries pq)" by (rule k)
  have "distinct (map fst (S1 @ (lo G i, i, hi G i) # S2))" unfolding S(1) [symmetric] using w slots_distinct by blast
  then have di: "lo G i \<notin> fst ` (set S1 \<union> set S2)" by auto
  have old: "slot_ok (insert n (dom V)) ?G q s" if s: "s \<in> set S1 \<union> set S2" for s
  proof -
    obtain a c b where abc: "s = (a, c, b)" by (cases s)
    have sl: "slot_ok (dom V) G q s" using w S(1) s by auto
    then have c: "c \<in> dom V" "par G c = q" "lo G c = a" "hi G c = b" "lev G c + 1 = lev G q" "c \<noteq> 1" by (auto simp: slot_ok_def abc)
    have "a \<in> fst ` (set S1 \<union> set S2)" using s by (force simp: abc)
    then have "c \<noteq> i" using di c(3) by blast
    moreover have "c \<noteq> n" using c(1) assms(6) by blast
    moreover have "c \<notin> M" using assms(9) c(2) ne by auto
    ultimately show ?thesis using c ne by (simp add: slot_ok_def abc)
  qed
  have "i \<notin> M" using assms(9) ne(2) assms(5) by auto
  then have "slot_ok (insert n (dom V)) ?G q (lo G i, i, Some k)" "slot_ok (insert n (dom V)) ?G q (Some k, n, hi G i)"
    using ci(2,4,5) ne assms(3) by (auto simp: slot_ok_def)
  then have "node_ok (insert n (dom V)) ?G q (pq\<lparr>nentries := insert_sorted k n (nentries pq)\<rparr>)"
    unfolding node_ok_def using old S(2) w k ne sorted_insert_sorted [of "nentries pq" k n]
      keys_between_insert_sorted [of "lo G q" "hi G q" "nentries pq" k n] by auto
  then show "page_ok (insert n (dom V)) ?G q (pq\<lparr>nentries := insert_sorted k n (nentries pq)\<rparr>)"
    using wf_pageD [OF assms(1,4)] pq(1) by (simp add: page_ok_def)
qed

lemma split_wf:
  assumes "wf_tree V G" "V i = Some p" "i \<noteq> 1" "V q = Some pq" "q = par G i" "n \<notin> dom V"
    "strictly_above (lo G i) k" "less_bound (hi G i) k" "M \<subseteq> {c \<in> dom V. par G c = i}"
    "page_ok (insert n (dom V)) (split_ghost G i n k M) i p'" "page_ok (insert n (dom V)) (split_ghost G i n k M) n nn"
    "\<And>m. m \<in> dom V \<Longrightarrow> m \<noteq> 1 \<Longrightarrow> par G m = i \<Longrightarrow>
      (m \<in> M \<longrightarrow> is_node nn \<and> m \<in> set (children nn)) \<and> (m \<notin> M \<longrightarrow> is_node p' \<and> m \<in> set (children p'))"
  shows "wf_tree (V(i \<mapsto> p', n \<mapsto> nn, q \<mapsto> pq\<lparr>nentries := insert_sorted k n (nentries pq)\<rparr>)) (split_ghost G i n k M)"
proof -
  let ?G = "split_ghost G i n k M" and ?pq = "pq\<lparr>nentries := insert_sorted k n (nentries pq)\<rparr>"
  let ?V = "V(i \<mapsto> p', n \<mapsto> nn, q \<mapsto> ?pq)"
  have pq: "is_node pq" "i \<in> set (children pq)" using wf_parentD [OF assms(1) _ assms(3)] assms(2,4,5) by auto
  have ne: "q \<noteq> n" "q \<noteq> i" "i \<noteq> n" "n \<noteq> 1" and one: "1 \<in> dom V" "lo G 1 = None" "hi G 1 = None"
    using assms(1,2,4,6) child_slotD(5) [OF assms(1,4) pq] by (auto simp: wf_tree_def)
  have d: "dom ?V = insert n (dom V)" using assms(2,4) by auto
  have pages: "page_ok (insert n (dom V)) ?G m pm" if "?V m = Some pm" for m pm
  proof (cases "m \<in> {i, n, q}")
    case True
    then show ?thesis using that assms(10,11) split_parent(1) [OF assms(1-9)] ne by auto
  next
    case False
    then have Vm: "V m = Some pm" using that by simp
    have M: "c \<notin> M \<and> c \<noteq> i" if "par G c = m" for c using that False assms(5,9) by auto
    show ?thesis
      by (rule page_ok_frame [OF wf_pageD [OF assms(1) Vm]]) (use False assms(6) M in auto)
  qed
  have par: "lev ?G m < lev ?G 1 \<and> has_parent ?V ?G m" if m: "m \<in> dom ?V" "m \<noteq> 1" for m
  proof (cases "m = n")
    case True
    then show ?thesis
      using wf_parentD [OF assms(1) domI [of V, OF assms(2)] assms(3)] ne pq(1) assms(5) by (auto simp: has_parent_def children_def)
  next
    case False
    then have mV: "m \<in> dom V" using m(1) unfolding d by simp
    obtain pm where pm: "lev G m < lev G 1" "V (par G m) = Some pm" "is_node pm" "m \<in> set (children pm)"
      using wf_parentD [OF assms(1) mV m(2)] by blast
    have "has_parent ?V ?G m"
    proof (cases "par G m = i")
      case True
      then show ?thesis using assms(12) [OF mV m(2)] False ne by (auto simp: has_parent_def)
    next
      case parent: False
      then have "m \<notin> M" using assms(9) by auto
      moreover have "par G m \<noteq> n" using pm(2) assms(6) by auto
      moreover have "m \<in> set (children ?pq)" if "par G m = q" using pm that assms(4) by (auto simp: children_def)
      ultimately show ?thesis using False parent pm pq(1) by (auto simp: has_parent_def)
    qed
    then show ?thesis using pm(1) False ne by simp
  qed
  have "1 \<in> insert n (dom V)" "lo ?G 1 = None" "hi ?G 1 = None" using one ne assms(3) by simp_all
  then show ?thesis using pages par unfolding wf_tree_def d by blast
qed

lemma wf_no_children_of_leaf: "wf_tree V G \<Longrightarrow> V i = Some p \<Longrightarrow> \<not> is_node p \<Longrightarrow> m \<in> dom V \<Longrightarrow> m \<noteq> 1 \<Longrightarrow> par G m \<noteq> i"
  using wf_parentD by fastforce

lemma split_leaf_wf:
  assumes "wf_tree V G" "V i = Some p" "i \<noteq> 1" "V (par G i) = Some pq" "n \<notin> dom V" "n \<noteq> 0"
    "\<not> is_node p" "lentries p = xs @ ys" "xs \<noteq> []" "ys \<noteq> []" "k = fst (hd ys)"
    "\<not> is_node nn" "pid nn = n" "lentries nn = ys" "rightp nn = rightp p"
  shows "wf_tree (V(i \<mapsto> p\<lparr>lentries := xs, rightp := n\<rparr>, n \<mapsto> nn,
           par G i \<mapsto> pq\<lparr>nentries := insert_sorted k n (nentries pq)\<rparr>)) (split_ghost G i n k {})"
    "k \<notin> fst ` set (nentries pq)"
proof -
  note w = wf_leafD [OF assms(1,2,7), unfolded leaf_ok_def]
  have i: "i \<noteq> n" "i \<noteq> 0" "pid p = i" using assms(2,5) wf_pageD [OF assms(1,2)] by (auto simp: page_ok_def)
  have k: "fst x < k" if "x \<in> set xs" for x using w that assms(8,10,11) by (cases ys) (auto simp: sorted_keys_append)
  have ky: "k \<le> fst y" if "y \<in> set ys" for y using w that assms(8,10,11) by (cases ys) (auto simp: sorted_keys_append)
  have wi: "within (lo G i) (hi G i) (fst e)" if "e \<in> set xs \<union> set ys" for e using w that assms(8) by auto
  obtain x y where xy: "x \<in> set xs" "y \<in> set ys" "fst y = k" using assms(9-11) by (metis hd_in_set)
  have above: "strictly_above (lo G i) k" using wi [of x] k [OF xy(1)] xy(1) above_trans(3) by (auto simp: within_def)
  have less: "less_bound (hi G i) k" using wi [of y] xy by (auto simp: within_def)
  have p': "page_ok (insert n (dom V)) (split_ghost G i n k {}) i (p\<lparr>lentries := xs, rightp := n\<rparr>)"
    using w wi k i assms(7-9) by (auto simp: page_ok_def leaf_ok_def link_ok_def within_def sorted_keys_append)
  have "rightp p \<noteq> n" if "hi G i \<noteq> None" using w that assms(5) by (auto simp: link_ok_def)
  then have nn: "page_ok (insert n (dom V)) (split_ghost G i n k {}) n nn"
    using w wi ky i assms(6,8,10,12-15) by (auto simp: page_ok_def leaf_ok_def link_ok_def within_def sorted_keys_append split: if_splits)
  show "wf_tree (V(i \<mapsto> p\<lparr>lentries := xs, rightp := n\<rparr>, n \<mapsto> nn,
          par G i \<mapsto> pq\<lparr>nentries := insert_sorted k n (nentries pq)\<rparr>)) (split_ghost G i n k {})"
    by (rule split_wf [OF assms(1-4) refl assms(5) above less _ p' nn])
      (use wf_no_children_of_leaf [OF assms(1,2,7)] in auto)
  show "k \<notin> fst ` set (nentries pq)" using split_parent(2) [OF assms(1-4) refl assms(5) above less, of "{}"] by simp
qed

text \<open>The two halves of a node have different children.\<close>

lemma node_halves:
  assumes "wf_tree V G" "V i = Some p" "is_node p" "nentries p = xs @ (k, c) # ys" "d \<in> set (leftp p # map snd xs)"
  shows "d \<notin> set (c # map snd ys)"
proof
  assume "d \<in> set (c # map snd ys)"
  then obtain a b where 2: "(a, d, b) \<in> set (slots (Some k) (hi G i) c ys)" using slots_child by blast
  obtain a' b' where 1: "(a', d, b') \<in> set (slots (lo G i) (Some k) (leftp p) xs)" using slots_child [OF assms(5)] by blast
  note w = wf_nodeD [OF assms(1-3), unfolded node_ok_def]
  have "slot_ok (dom V) G i (a, d, b)" "slot_ok (dom V) G i (a', d, b')"
    using w 1 2 by (auto simp: assms(4) slots_append)
  then have "a = a'" by (simp add: slot_ok_def)
  moreover have "distinct (map fst (slots (lo G i) (Some k) (leftp p) xs @ slots (Some k) (hi G i) c ys))"
    using slots_distinct [of "nentries p" "lo G i" "hi G i" "leftp p"] w by (simp add: assms(4) slots_append)
  ultimately show False using 1 2 by (force simp: disjoint_iff)
qed

lemma node_children:
  assumes "wf_tree V G" "V i = Some p" "is_node p" "nentries p = xs @ (k, c) # ys"
  shows "keys_between (lo G i) (Some k) xs" "keys_between (Some k) (hi G i) ys" "sorted_keys xs" "sorted_keys ys"
    "strictly_above (lo G i) k" "less_bound (hi G i) k"
    "(a, d, b) \<in> set (slots (lo G i) (Some k) (leftp p) xs) \<Longrightarrow> slot_ok (dom V) G i (a, d, b) \<and> d \<notin> set (c # map snd ys)"
    "(a, d, b) \<in> set (slots (Some k) (hi G i) c ys) \<Longrightarrow> slot_ok (dom V) G i (a, d, b)"
    "set (children p) = set (leftp p # map snd xs) \<union> set (c # map snd ys)"
proof -
  note w = wf_nodeD [OF assms(1-3), unfolded node_ok_def assms(4)]
  show "keys_between (lo G i) (Some k) xs" using w keys_between_init [of xs k c ys "lo G i" "hi G i"] by blast
  show "keys_between (Some k) (hi G i) ys" "sorted_keys xs" "sorted_keys ys" "strictly_above (lo G i) k" "less_bound (hi G i) k"
    using w keys_between_tail [of k c ys "lo G i" "hi G i"] by (auto simp: sorted_keys_append)
  show "slot_ok (dom V) G i (a, d, b) \<and> d \<notin> set (c # map snd ys)" if "(a, d, b) \<in> set (slots (lo G i) (Some k) (leftp p) xs)"
    using w that node_halves [OF assms slots_childD [OF that]] by (auto simp: slots_append)
  show "slot_ok (dom V) G i (a, d, b)" if "(a, d, b) \<in> set (slots (Some k) (hi G i) c ys)"
    using w that by (auto simp: slots_append)
  show "set (children p) = set (leftp p # map snd xs) \<union> set (c # map snd ys)" by (auto simp: children_def assms(4))
qed

lemma split_node_wf:
  assumes "wf_tree V G" "V i = Some p" "i \<noteq> 1" "V (par G i) = Some pq" "n \<notin> dom V" "n \<noteq> 0"
    "is_node p" "nentries p = xs @ (k, c) # ys" "xs \<noteq> []" "ys \<noteq> []"
    "is_node nn" "pid nn = n" "nentries nn = ys" "leftp nn = c"
  shows "wf_tree (V(i \<mapsto> p\<lparr>nentries := xs\<rparr>, n \<mapsto> nn,
           par G i \<mapsto> pq\<lparr>nentries := insert_sorted k n (nentries pq)\<rparr>)) (split_ghost G i n k (set (c # map snd ys)))"
    "k \<notin> fst ` set (nentries pq)"
proof -
  let ?M = "set (c # map snd ys)" and ?G = "split_ghost G i n k (set (c # map snd ys))"
  note h = node_children [OF assms(1,2,7,8)]
  have i: "i \<noteq> n" "i \<noteq> 0" "pid p = i" using assms(2,5) wf_pageD [OF assms(1,2)] by (auto simp: page_ok_def)
  have kid: "d \<in> dom V" "d \<noteq> 1" "par G d = i" "d \<noteq> i" "d \<noteq> n" if "d \<in> set (children p)" for d
    using child_slotD [OF assms(1,2,7) that] assms(5) by auto
  have M: "?M \<subseteq> {c \<in> dom V. par G c = i}" using kid h(9) by blast
  have "slot_ok (insert n (dom V)) ?G i (a, d, b)" if "(a, d, b) \<in> set (slots (lo G i) (Some k) (leftp p) xs)" for a d b
    using h(7) [OF that] kid [of d] slots_childD [OF that] h(9) i(1) by (simp add: slot_ok_def)
  then have p': "page_ok (insert n (dom V)) ?G i (p\<lparr>nentries := xs\<rparr>)"
    using h(1,3) i assms(7,9) by (auto simp: page_ok_def node_ok_def)
  have "slot_ok (insert n (dom V)) ?G n (a, d, b)" if "(a, d, b) \<in> set (slots (Some k) (hi G i) c ys)" for a d b
  proof -
    have d: "d \<in> ?M" using slots_childD [OF that] by simp
    then have "d \<in> set (children p)" using h(9) by blast
    then show ?thesis using h(8) [OF that] kid [of d] d by (simp add: slot_ok_def)
  qed
  then have nn: "page_ok (insert n (dom V)) ?G n nn"
    using h(2,4) i assms(6,10-14) by (auto simp: page_ok_def node_ok_def)
  show "wf_tree (V(i \<mapsto> p\<lparr>nentries := xs\<rparr>, n \<mapsto> nn,
          par G i \<mapsto> pq\<lparr>nentries := insert_sorted k n (nentries pq)\<rparr>)) ?G"
  proof (rule split_wf [OF assms(1-4) refl assms(5) h(5,6) M p' nn])
    fix m assume "m \<in> dom V" "m \<noteq> 1" "par G m = i"
    then have "m \<in> set (children p)" using wf_parentD [OF assms(1), of m] assms(2) by auto
    then show "(m \<in> ?M \<longrightarrow> is_node nn \<and> m \<in> set (children nn)) \<and>
        (m \<notin> ?M \<longrightarrow> is_node (p\<lparr>nentries := xs\<rparr>) \<and> m \<in> set (children (p\<lparr>nentries := xs\<rparr>)))"
      using h(9) assms(7,11,13,14) by (auto simp: children_def)
  qed
  show "k \<notin> fst ` set (nentries pq)" using split_parent(2) [OF assms(1-4) refl assms(5) h(5,6) M] by simp
qed

section \<open>Splitting the root\<close>

definition root_ghost :: "'k ghost \<Rightarrow> nat \<Rightarrow> nat \<Rightarrow> 'k \<Rightarrow> nat set \<Rightarrow> 'k ghost" where
  "root_ghost G l r k M =
     \<lparr>par = (\<lambda>c. if c = l \<or> c = r then 1 else if c \<in> M then r else if par G c = 1 then l else par G c),
      lo = (lo G)(l := None, r := Some k), hi = (hi G)(l := Some k, r := None),
      lev = (lev G)(1 := lev G 1 + 1, l := lev G 1, r := lev G 1)\<rparr>"

lemma root_ghost_simps [simp]:
  "par (root_ghost G l r k M) c = (if c = l \<or> c = r then 1 else if c \<in> M then r else if par G c = 1 then l else par G c)"
  "lo (root_ghost G l r k M) = (lo G)(l := None, r := Some k)" "hi (root_ghost G l r k M) = (hi G)(l := Some k, r := None)"
  "lev (root_ghost G l r k M) = (lev G)(1 := lev G 1 + 1, l := lev G 1, r := lev G 1)"
  by (simp_all add: root_ghost_def)

definition root_page :: "'k \<Rightarrow> nat \<Rightarrow> nat \<Rightarrow> ('k, 'v) page" where
  "root_page k l r = (zero_page 1)\<lparr>is_node := True, leftp := l, nentries := [(k, r)]\<rparr>"

lemma root_wf:
  assumes "wf_tree V G" "l \<notin> dom V" "r \<notin> dom V" "l \<noteq> r" "M \<subseteq> {c \<in> dom V. c \<noteq> 1 \<and> par G c = 1}"
    "page_ok (insert l (insert r (dom V))) (root_ghost G l r k M) l pl"
    "page_ok (insert l (insert r (dom V))) (root_ghost G l r k M) r pr"
    "\<And>m. m \<in> dom V \<Longrightarrow> m \<noteq> 1 \<Longrightarrow> par G m = 1 \<Longrightarrow>
      (m \<in> M \<longrightarrow> is_node pr \<and> m \<in> set (children pr)) \<and> (m \<notin> M \<longrightarrow> is_node pl \<and> m \<in> set (children pl))"
  shows "wf_tree (V(r \<mapsto> pr, l \<mapsto> pl, 1 \<mapsto> root_page k l r)) (root_ghost G l r k M)"
proof -
  let ?G = "root_ghost G l r k M" and ?D = "insert l (insert r (dom V))"
  let ?V = "V(r \<mapsto> pr, l \<mapsto> pl, 1 \<mapsto> root_page k l r)"
  have one: "1 \<in> dom V" "lo G 1 = None" "hi G 1 = None" using assms(1) by (auto simp: wf_tree_def)
  have ne: "l \<noteq> 1" "r \<noteq> 1" using one assms(2,3) by auto
  have d: "dom ?V = ?D" using one by auto
  have root: "page_ok ?D ?G 1 (root_page k l r)"
    using ne one assms(4) by (auto simp: page_ok_def node_ok_def slot_ok_def root_page_def)
  have pages: "page_ok ?D ?G m pm" if "?V m = Some pm" for m pm
  proof (cases "m \<in> {1, l, r}")
    case True
    then show ?thesis using that assms(4,6,7) root ne by auto
  next
    case False
    then have Vm: "V m = Some pm" using that by simp
    have M: "c \<notin> M" if "par G c = m" for c using that False assms(5) by auto
    show ?thesis
      by (rule page_ok_frame [OF wf_pageD [OF assms(1) Vm]]) (use False assms(2,3) M one in auto)
  qed
  have par: "lev ?G m < lev ?G 1 \<and> has_parent ?V ?G m" if m: "m \<in> dom ?V" "m \<noteq> 1" for m
  proof (cases "m = l \<or> m = r")
    case True
    then show ?thesis using ne assms(4) by (auto simp: has_parent_def children_def root_page_def)
  next
    case False
    then have mV: "m \<in> dom V" using m unfolding d by simp
    obtain pm where pm: "lev G m < lev G 1" "V (par G m) = Some pm" "is_node pm" "m \<in> set (children pm)"
      using wf_parentD [OF assms(1) mV m(2)] by blast
    have "has_parent ?V ?G m"
    proof (cases "par G m = 1")
      case True
      then show ?thesis using assms(8) [OF mV m(2)] False ne assms(4) by (auto simp: has_parent_def)
    next
      case parent: False
      then have "m \<notin> M" using assms(5) by auto
      moreover have "par G m \<noteq> l" "par G m \<noteq> r" using pm(2) assms(2,3) by auto
      ultimately show ?thesis using False parent pm by (auto simp: has_parent_def)
    qed
    then show ?thesis using pm(1) False ne m(2) by simp
  qed
  have "1 \<in> ?D" "lo ?G 1 = None" "hi ?G 1 = None" using one ne by simp_all
  then show ?thesis using pages par unfolding wf_tree_def d by blast
qed

lemma root_leaf_wf:
  assumes "wf_tree V G" "V 1 = Some p" "l \<notin> dom V" "r \<notin> dom V" "l \<noteq> r" "l \<noteq> 0" "r \<noteq> 0"
    "\<not> is_node p" "lentries p = xs @ ys" "xs \<noteq> []" "ys \<noteq> []" "k = fst (hd ys)"
    "pl = (zero_page l)\<lparr>lentries := xs, rightp := r\<rparr>" "pr = (zero_page r)\<lparr>lentries := ys, leftp := l\<rparr>"
  shows "wf_tree (V(r \<mapsto> pr, l \<mapsto> pl, 1 \<mapsto> root_page k l r)) (root_ghost G l r k {})"
proof -
  note w = wf_leafD [OF assms(1,2,8), unfolded leaf_ok_def]
  have ne: "l \<noteq> 1" "r \<noteq> 1" using assms(2-4) by auto
  have k: "fst x < k" if "x \<in> set xs" for x using w that assms(9,11,12) by (cases ys) (auto simp: sorted_keys_append)
  have ky: "k \<le> fst y" if "y \<in> set ys" for y using w that assms(9,11,12) by (cases ys) (auto simp: sorted_keys_append)
  have pl: "page_ok (insert l (insert r (dom V))) (root_ghost G l r k {}) l pl"
    using w k ne assms(5-10) by (auto simp: assms(13) page_ok_def leaf_ok_def link_ok_def within_def sorted_keys_append)
  have pr: "page_ok (insert l (insert r (dom V))) (root_ghost G l r k {}) r pr"
    using w ky ne assms(5-9,11) by (auto simp: assms(14) page_ok_def leaf_ok_def link_ok_def within_def sorted_keys_append)
  show ?thesis
    by (rule root_wf [OF assms(1,3-5) _ pl pr]) (use wf_no_children_of_leaf [OF assms(1,2,8)] in auto)
qed

lemma root_node_wf:
  assumes "wf_tree V G" "V 1 = Some p" "l \<notin> dom V" "r \<notin> dom V" "l \<noteq> r" "l \<noteq> 0" "r \<noteq> 0"
    "is_node p" "nentries p = xs @ (k, c) # ys" "xs \<noteq> []" "ys \<noteq> []"
    "pl = (zero_page l)\<lparr>is_node := True, leftp := leftp p, nentries := xs\<rparr>"
    "pr = (zero_page r)\<lparr>is_node := True, leftp := c, nentries := ys\<rparr>"
  shows "wf_tree (V(r \<mapsto> pr, l \<mapsto> pl, 1 \<mapsto> root_page k l r)) (root_ghost G l r k (set (c # map snd ys)))"
proof -
  let ?M = "set (c # map snd ys)" and ?G = "root_ghost G l r k (set (c # map snd ys))" and ?D = "insert l (insert r (dom V))"
  note h = node_children [OF assms(1,2,8,9)]
  have one: "lo G 1 = None" "hi G 1 = None" using assms(1) by (auto simp: wf_tree_def)
  have ne: "l \<noteq> 1" "r \<noteq> 1" using assms(2-4) by auto
  have kid: "d \<in> dom V" "d \<noteq> 1" "par G d = 1" "d \<noteq> l" "d \<noteq> r" if "d \<in> set (children p)" for d
    using child_slotD [OF assms(1,2,8) that] assms(3,4) by auto
  have M: "?M \<subseteq> {c \<in> dom V. c \<noteq> 1 \<and> par G c = 1}" using kid h(9) by blast
  have "slot_ok ?D ?G l (a, d, b)" if "(a, d, b) \<in> set (slots None (Some k) (leftp p) xs)" for a d b
  proof -
    have "d \<in> set (children p)" using slots_childD [OF that] h(9) by blast
    then show ?thesis using h(7) [unfolded one, OF that] kid [of d] ne assms(5) by (simp add: slot_ok_def)
  qed
  then have pl: "page_ok ?D ?G l pl"
    using h(1,3) one ne assms(5,6,10) by (auto simp: assms(12) page_ok_def node_ok_def)
  have "slot_ok ?D ?G r (a, d, b)" if "(a, d, b) \<in> set (slots (Some k) None c ys)" for a d b
  proof -
    have d: "d \<in> ?M" using slots_childD [OF that] by simp
    then have "d \<in> set (children p)" using h(9) by blast
    then show ?thesis using h(8) [unfolded one, OF that] kid [of d] d ne by (simp add: slot_ok_def)
  qed
  then have pr: "page_ok ?D ?G r pr"
    using h(2,4) one ne assms(5,7,11) by (auto simp: assms(13) page_ok_def node_ok_def)
  show ?thesis
  proof (rule root_wf [OF assms(1,3-5) M pl pr])
    fix m assume "m \<in> dom V" "m \<noteq> 1" "par G m = 1"
    then have "m \<in> set (children p)" using wf_parentD [OF assms(1), of m] assms(2) by auto
    then show "(m \<in> ?M \<longrightarrow> is_node pr \<and> m \<in> set (children pr)) \<and> (m \<notin> ?M \<longrightarrow> is_node pl \<and> m \<in> set (children pl))"
      using h(9) by (auto simp: children_def assms(12,13))
  qed
qed

end
