(* ===== verification/Eckit_BTree_Map.thy ===== *)
theory Eckit_BTree_Map
  imports Eckit_BTree_Wf
begin

text \<open>
  The operations of the B+ tree implement a map: \<open>represents\<close> relates a tree to the map of its entries, and insertion with its
  cascade of splits, lookup, ranges, counting, flushing and opening the file again are proved against it.
\<close>

section \<open>Insertion\<close>

definition page_contents :: "(nat \<rightharpoonup> ('k, 'v) page) \<Rightarrow> nat \<Rightarrow> ('k \<times> 'v) set" where
  "page_contents V n = (case V n of None \<Rightarrow> {} | Some p \<Rightarrow> if is_node p then {} else set (lentries p))"

lemma holds_contents: "holds V k v \<longleftrightarrow> (\<exists>n. (k, v) \<in> page_contents V n)"
  unfolding holds_def page_contents_def by (auto split: option.splits if_splits)

lemma holds_moved:
  assumes "\<And>m. m \<notin> A \<Longrightarrow> page_contents V' m = page_contents V m" "(\<Union>m\<in>A. page_contents V' m) = (\<Union>m\<in>A. page_contents V m)"
  shows "holds V' k v \<longleftrightarrow> holds V k v"
proof -
  have "(\<exists>m\<in>A. (k, v) \<in> page_contents V' m) \<longleftrightarrow> (\<exists>m\<in>A. (k, v) \<in> page_contents V m)" using assms(2) by blast
  then show ?thesis unfolding holds_contents using assms(1) by metis
qed

definition page_capacity :: "('k, 'v) btree \<Rightarrow> ('k, 'v) page \<Rightarrow> nat" where
  "page_capacity t p = (if is_node p then maxNodeEntries t else maxLeafEntries t)"

text \<open>No page is full, except possibly the one that has just grown.\<close>

definition roomy :: "('k, 'v) btree \<Rightarrow> nat \<Rightarrow> bool" where
  "roomy t i \<longleftrightarrow> (\<forall>n p. page_view t n = Some p \<longrightarrow> n \<noteq> i \<longrightarrow> pcount p < page_capacity t p)"

definition sizes_ok :: "('k, 'v) btree \<Rightarrow> bool" where
  "sizes_ok t \<longleftrightarrow> 3 < maxNodeEntries t \<and> 3 < maxLeafEntries t \<and> \<not> readOnly t"

lemma conf_sizes:
  "conf t' = conf t \<Longrightarrow> sizes_ok t' = sizes_ok t" "conf t' = conf t \<Longrightarrow> page_capacity t' p = page_capacity t p"
  "conf t' = conf t \<Longrightarrow> maxNodeEntries t' = maxNodeEntries t" "conf t' = conf t \<Longrightarrow> maxLeafEntries t' = maxLeafEntries t"
  by (auto simp: conf_def sizes_ok_def page_capacity_def)

lemma chain_cong: "chain f path q \<Longrightarrow> (\<And>c. c \<in> set (q # path) \<Longrightarrow> f' c = f c) \<Longrightarrow> chain f' path q"
  by (induction path arbitrary: q) auto

lemma chain_levels: "wf_tree V G \<Longrightarrow> chain (par G) path q \<Longrightarrow> q \<in> dom V \<Longrightarrow> c \<in> set (q # path) \<Longrightarrow> c \<in> dom V \<and> lev G q \<le> lev G c"
proof (induction path arbitrary: q)
  case (Cons a path)
  obtain p where "V a = Some p" "is_node p" "q \<in> set (children p)"
    using wf_parentD [OF Cons.prems(1,3)] Cons.prems(2) by auto
  then have "a \<in> dom V" "lev G q \<le> lev G a" using child_slotD(5) [OF Cons.prems(1), of a p q] by auto
  then show ?case using Cons.IH [of a] Cons.prems by (cases "c = q") auto
qed simp

lemma chain_split:
  assumes "wf_tree V G" "chain (par G) (q # path) i" "i \<in> dom V" "n \<notin> dom V" "M \<subseteq> {c \<in> dom V. lev G c < lev G i}"
  shows "chain (par (split_ghost G i n k M)) path q"
proof (rule chain_cong)
  show "chain (par G) path q" using assms(2) by simp
  obtain p where "V q = Some p" "is_node p" "i \<in> set (children p)"
    using wf_parentD [OF assms(1,3)] assms(2) by auto
  then have q: "q \<in> dom V" "lev G i < lev G q" using child_slotD(5) [OF assms(1), of q p i] by auto
  fix c assume "c \<in> set (q # path)"
  from chain_levels [OF assms(1) _ q(1) this] have c: "c \<in> dom V" "lev G q \<le> lev G c" using assms(2) by auto
  then have "c \<notin> M" "c \<noteq> n" using assms(4,5) q(2) by auto
  then show "par (split_ghost G i n k M) c = par G c" by simp
qed

text \<open>What splitting a page does to the store.\<close>

lemma split_page_node:
  assumes "store_inv t" "\<not> readOnly t" "page_view t i = Some p" "is_node p" "nentries p = xs @ (k, c) # ys"
    "length xs = length (nentries p) div 2"
  shows "\<exists>n t'. split_page p t = ok (k, n, t') \<and> n \<notin> dom (page_view t) \<and> n \<noteq> 0 \<and> store_inv t' \<and> conf t' = conf t \<and>
    page_view t' = (page_view t)(i \<mapsto> p\<lparr>nentries := xs\<rparr>, n \<mapsto> (zero_page n)\<lparr>is_node := True, nentries := ys, leftp := c\<rparr>)"
proof -
  obtain n t1 where n: "newPage t = ok (zero_page n, t1)" "store_inv t1" "n \<noteq> 0" "n \<notin> dom (page_view t)"
      "page_view t1 = (page_view t)(n \<mapsto> zero_page n)" "conf t1 = conf t"
    using ps.alloc_view [OF assms(1,2)] by auto
  have i: "pid p = i" "i \<noteq> n" using ps.num_view [OF assms(1,3)] assms(3) n(4) by auto
  let ?n = "(zero_page n)\<lparr>is_node := True, nentries := ys, leftp := c\<rparr>" and ?p = "p\<lparr>nentries := xs\<rparr>"
  have "split_node p (zero_page n) = ok (k, ?n, ?p)"
    using assms(4-6) by (simp add: split_node_def pcount_def Let_def)
  moreover obtain t2 where "rbind (savePage ?n t1) (savePage ?p) = ok t2" "store_inv t2" "page_view t2 = (page_view t1)(n \<mapsto> ?n, i \<mapsto> ?p)" "conf t2 = conf t1"
    using ps.save_two [OF n(2), of ?n ?p] n(5) i assms(3) by auto
  moreover have "(page_view t)(n \<mapsto> zero_page n, n \<mapsto> ?n, i \<mapsto> ?p) = (page_view t)(i \<mapsto> ?p, n \<mapsto> ?n)" using i(2) by (auto simp: fun_eq_iff)
  ultimately show ?thesis
    using n assms(4) by (auto simp: split_page_def rbind_eq_Inr_iff)
qed

text \<open>The leaf to the right of a leaf that is split gets a new left neighbour.\<close>

definition relink :: "nat \<Rightarrow> nat \<Rightarrow> (nat \<rightharpoonup> ('k, 'v) page) \<Rightarrow> (nat \<rightharpoonup> ('k, 'v) page)" where
  "relink r n V = (if r = 0 then V else V(r \<mapsto> (the (V r))\<lparr>leftp := n\<rparr>))"

lemma relink_store:
  assumes "store_inv t" "r \<noteq> 0 \<Longrightarrow> r \<in> dom (page_view t)"
  shows "\<exists>t'. set_left r n t = ok t' \<and>
    store_inv t' \<and> page_view t' = relink r n (page_view t) \<and> conf t' = conf t"
proof (cases "r = 0")
  case False
  then obtain q where q: "page_view t r = Some q" using assms(2) by auto
  then obtain t1 where t1: "loadPage r t = ok (q, t1)" "store_inv t1" "page_view t1 = page_view t" "conf t1 = conf t"
    using ps.load_view [OF assms(1)] by blast
  have "pid q = r" using ps.num_view [OF assms(1) q] by simp
  then show ?thesis using ps.save_view [OF t1(2), of "q\<lparr>leftp := n\<rparr>"] t1 q False by (auto simp: relink_def set_left_def)
qed (use assms(1) in \<open>simp add: relink_def set_left_def\<close>)

lemma split_page_leaf:
  assumes "store_inv t" "\<not> readOnly t" "page_view t i = Some p" "\<not> is_node p" "lentries p = xs @ ys" "ys \<noteq> []"
    "length xs = length (lentries p) div 2" "rightp p \<noteq> 0 \<Longrightarrow> rightp p \<in> dom (page_view t) \<and> rightp p \<noteq> i"
  shows "\<exists>n t'. split_page p t = ok (fst (hd ys), n, t') \<and> n \<notin> dom (page_view t) \<and> n \<noteq> 0 \<and> store_inv t' \<and> conf t' = conf t \<and>
    page_view t' = (relink (rightp p) n (page_view t))(i \<mapsto> p\<lparr>lentries := xs, rightp := n\<rparr>,
      n \<mapsto> (zero_page n)\<lparr>lentries := ys, rightp := rightp p, leftp := i\<rparr>)"
proof -
  obtain n t1 where n: "newPage t = ok (zero_page n, t1)" "store_inv t1" "n \<noteq> 0" "n \<notin> dom (page_view t)"
      "page_view t1 = (page_view t)(n \<mapsto> zero_page n)" "conf t1 = conf t"
    using ps.alloc_view [OF assms(1,2)] by auto
  have i: "pid p = i" "i \<noteq> n" using ps.num_view [OF assms(1,3)] assms(3) n(4) by auto
  let ?n = "(zero_page n)\<lparr>lentries := ys, rightp := rightp p, leftp := i\<rparr>" and ?p = "p\<lparr>lentries := xs, rightp := n\<rparr>"
  obtain t2 where t2: "set_left (rightp p) n t1 = ok t2"
      "store_inv t2" "page_view t2 = relink (rightp p) n (page_view t1)" "conf t2 = conf t1"
    using relink_store [OF n(2), of "rightp p" n] assms(8) n(5) by auto
  have "fst (ys ! 0) = fst (hd ys)" using assms(6) by (simp add: hd_conv_nth)
  then have "split_leaf p (zero_page n) t1 = ok (fst (hd ys), ?n, ?p, t2)"
    using assms(4-7) t2(1) i(1) by (simp add: split_leaf_def pcount_def Let_def zero_page_def)
  moreover have nd: "n \<in> dom (page_view t2)" "i \<in> dom (page_view t2)" using t2(3) n(5) assms(3) by (auto simp: relink_def)
  then obtain t3 where "rbind (savePage ?n t2) (savePage ?p) = ok t3" "store_inv t3" "page_view t3 = (page_view t2)(n \<mapsto> ?n, i \<mapsto> ?p)" "conf t3 = conf t2"
    using ps.save_two [OF t2(2), of ?n ?p] i by auto
  moreover have "(relink (rightp p) n ((page_view t)(n \<mapsto> zero_page n)))(n \<mapsto> ?n, i \<mapsto> ?p) = (relink (rightp p) n (page_view t))(i \<mapsto> ?p, n \<mapsto> ?n)"
    using i(2) n(4) assms(8) by (auto simp: fun_eq_iff relink_def)
  ultimately show ?thesis
    using n t2 assms(4) by (auto simp: split_page_def rbind_eq_Inr_iff)
qed

lemma insert_parent_view:
  assumes "store_inv t" "page_view t q = Some pq" "is_node pq" "nentries pq \<noteq> []" "sorted_keys (nentries pq)"
    "k \<notin> fst ` set (nentries pq)" "length (nentries pq) < maxNodeEntries t"
  shows "\<exists>t'. insert_parent q k n t = ok (pq\<lparr>nentries := insert_sorted k n (nentries pq)\<rparr>, t') \<and> store_inv t' \<and> conf t' = conf t \<and>
    page_view t' = (page_view t)(q \<mapsto> pq\<lparr>nentries := insert_sorted k n (nentries pq)\<rparr>)"
proof -
  obtain t1 where t1: "loadPage q t = ok (pq, t1)" "store_inv t1" "page_view t1 = page_view t" "conf t1 = conf t"
    using ps.load_view [OF assms(1,2)] by blast
  have "pid pq = q" using ps.num_view [OF assms(1,2)] by simp
  then obtain t2 where t2: "savePage (pq\<lparr>nentries := insert_sorted k n (nentries pq)\<rparr>) t1 = ok t2" "store_inv t2"
      "page_view t2 = (page_view t1)(q \<mapsto> pq\<lparr>nentries := insert_sorted k n (nentries pq)\<rparr>)" "conf t2 = conf t1"
    using ps.save_view [OF t1(2), of "pq\<lparr>nentries := insert_sorted k n (nentries pq)\<rparr>"] t1(3) assms(2) by auto
  have "\<not> (bt_lower_bound k (nentries pq) \<noteq> length (nentries pq) \<and> fst (nentries pq ! bt_lower_bound k (nentries pq)) = k)"
    using bt_lower_bound_hit [OF assms(5)] assms(6) by blast
  moreover have "insert_at (maxNodeEntries t1) (bt_lower_bound k (nentries pq)) (k, n) (nentries pq) = ok (insert_sorted k n (nentries pq))"
    using assms(7) conf_sizes(3) [OF t1(4)] by (simp add: insert_at_def insert_sorted_def)
  ultimately show ?thesis using t1 t2 assms(3,4) by (auto simp: insert_parent_def Let_def)
qed

text \<open>One turn of the loop: the page is split and its parent gets a key.\<close>

definition tree_inv :: "('k :: linorder, 'v) btree \<Rightarrow> 'k ghost \<Rightarrow> nat \<Rightarrow> bool" where
  "tree_inv t G i \<longleftrightarrow> store_inv t \<and> sizes_ok t \<and> wf_tree (page_view t) G \<and> roomy t i \<and>
     (\<forall>p. page_view t i = Some p \<longrightarrow> pcount p \<le> page_capacity t p)"

definition same_entries :: "('k, 'v) page \<Rightarrow> ('k, 'v) page \<Rightarrow> bool" where
  "same_entries p q \<longleftrightarrow> is_node p = is_node q \<and> nentries p = nentries q \<and> lentries p = lentries q"

lemma same_entries_count: "same_entries p q \<Longrightarrow> pcount p = pcount q \<and> page_capacity t p = page_capacity t q"
  by (simp add: same_entries_def pcount_def page_capacity_def)

lemma same_entries_contents: "rel_option same_entries (V' m) (V m) \<Longrightarrow> page_contents V' m = page_contents V m"
  by (cases "V' m"; cases "V m") (auto simp: page_contents_def same_entries_def)

lemma wf_leaf_level: "wf_tree V G \<Longrightarrow> V n = Some p \<Longrightarrow> lev G n = 0 \<longleftrightarrow> \<not> is_node p"
proof (cases "is_node p")
  case True
  assume "wf_tree V G" "V n = Some p"
  then show ?thesis using child_slotD(5) [of V G n p "leftp p"] True by (auto simp: children_def)
qed (use wf_leafD in \<open>auto simp: leaf_ok_def\<close>)

lemma relink_wf:
  assumes "wf_tree V G" "V i = Some p" "\<not> is_node p" "lentries p \<noteq> []" "r = rightp p"
  shows "wf_tree (relink r n V) G" "dom (relink r n V) = dom V" "rel_option same_entries (relink r n V m) (V m)"
    "relink r n V i = Some p" "V q = Some pq \<Longrightarrow> is_node pq \<Longrightarrow> relink r n V q = Some pq"
    "r \<noteq> 0 \<Longrightarrow> r \<in> dom V \<and> r \<noteq> i"
proof -
  note w = wf_leafD [OF assms(1-3), unfolded leaf_ok_def]
  have r: "r \<in> dom V \<and> lev G r = 0 \<and> lo G r = hi G i \<and> hi G i \<noteq> None" if "r \<noteq> 0"
    using w that assms(5) by (auto simp: link_ok_def split: if_splits)
  have "lo G i \<noteq> hi G i" if "hi G i \<noteq> None"
    using w that assms(4) by (cases "lentries p") (auto simp: within_def)
  then show ri: "r \<in> dom V \<and> r \<noteq> i" if "r \<noteq> 0" using r [OF that] by auto
  show "relink r n V i = Some p" using ri assms(2) by (auto simp: relink_def)
  show "dom (relink r n V) = dom V" using ri by (auto simp: relink_def)
  show "rel_option same_entries (relink r n V m) (V m)"
    using ri by (auto simp: relink_def same_entries_def option.rel_refl)
  have leaf: "\<not> is_node pr" if "r \<noteq> 0" "V r = Some pr" for pr using r [OF that(1)] wf_leaf_level [OF assms(1) that(2)] by simp
  show "relink r n V q = Some pq" if "V q = Some pq" "is_node pq" using that leaf by (auto simp: relink_def)
  show "wf_tree (relink r n V) G"
  proof (cases "r = 0")
    case False
    then obtain pr where pr: "V r = Some pr" using ri by auto
    have "page_ok (dom V) G r (pr\<lparr>leftp := n\<rparr>)"
      using wf_pageD [OF assms(1) pr] leaf [OF False pr] by (simp add: page_ok_def leaf_ok_def)
    then show ?thesis using wf_tree_frame [OF assms(1) pr] leaf [OF False pr] False pr by (simp add: relink_def)
  qed (simp add: relink_def assms(1))
qed

lemma split_tree_inv:
  assumes "tree_inv t G i" "page_view t i = Some p" "pcount p = page_capacity t p" "page_view t q = Some pq" "is_node pq" "q \<noteq> i" "n \<notin> dom (page_view t)"
    "\<And>m. rel_option same_entries (V1 m) (page_view t m)"
    "page_view t' = V1(i \<mapsto> p', n \<mapsto> nn, q \<mapsto> pq\<lparr>nentries := insert_sorted k n (nentries pq)\<rparr>)"
    "is_node p' = is_node p" "is_node nn = is_node p" "pcount p' < pcount p" "pcount nn < pcount p"
    "\<not> is_node p \<Longrightarrow> set (lentries p) = set (lentries p') \<union> set (lentries nn)"
    "store_inv t'" "conf t' = conf t" "wf_tree (page_view t') G'"
  shows "tree_inv t' G' q" "holds (page_view t') x v \<longleftrightarrow> holds (page_view t) x v"
proof -
  let ?pq = "pq\<lparr>nentries := insert_sorted k n (nentries pq)\<rparr>"
  note I = assms(1) [unfolded tree_inv_def roomy_def]
  have c: "page_capacity t' = page_capacity t" using conf_sizes(2) [OF assms(16)] by (simp add: fun_eq_iff)
  have nq: "q \<noteq> n" "i \<noteq> n" using assms(2,4,7) by auto
  have "pcount pm < page_capacity t' pm" if m: "page_view t' m = Some pm" "m \<noteq> q" for m pm
  proof (cases "m = i \<or> m = n")
    case True
    then show ?thesis using m assms(3,9-13) nq by (auto simp: c page_capacity_def)
  next
    case False
    then have "V1 m = Some pm" using m assms(9) by simp
    then obtain pm' where "page_view t m = Some pm'" "same_entries pm pm'" using assms(8) [of m] by (cases "page_view t m") auto
    then show ?thesis using I False same_entries_count [of pm pm' t] by (auto simp: c)
  qed
  moreover have "pcount ?pq \<le> page_capacity t' ?pq" "page_view t' q = Some ?pq"
    using I assms(4-6,9) by (force simp: c pcount_def page_capacity_def)+
  ultimately show "tree_inv t' G' q"
    using I assms(15,17) conf_sizes(1) [OF assms(16)] by (auto simp: tree_inv_def roomy_def)
  show "holds (page_view t') x v \<longleftrightarrow> holds (page_view t) x v"
  proof (rule holds_moved [of "{i, n, q}"])
    show "page_contents (page_view t') m = page_contents (page_view t) m" if "m \<notin> {i, n, q}" for m
      using same_entries_contents [of V1 m "page_view t", OF assms(8)] that by (simp add: assms(9) page_contents_def)
    have "page_contents (page_view t) n = {}" using assms(7) by (auto simp: page_contents_def split: option.split)
    then show "(\<Union>m\<in>{i, n, q}. page_contents (page_view t') m) = (\<Union>m\<in>{i, n, q}. page_contents (page_view t) m)"
      using assms(2,4-6,9-11,14) nq by (auto simp: page_contents_def)
  qed
qed

lemma parent_page:
  assumes "tree_inv t G i" "page_view t i = Some p" "i \<noteq> 1" "chain (par G) (q # path) i"
  shows "\<exists>pq. page_view t q = Some pq \<and> is_node pq \<and> par G i = q \<and> q \<noteq> i \<and> nentries pq \<noteq> [] \<and> sorted_keys (nentries pq) \<and>
    length (nentries pq) < maxNodeEntries t"
proof -
  have I: "wf_tree (page_view t) G" "roomy t i" using assms(1) by (auto simp: tree_inv_def)
  have q: "par G i = q" using assms(4) by simp
  obtain pq where pq: "page_view t q = Some pq" "is_node pq" "i \<in> set (children pq)"
    using wf_parentD [OF I(1) domI [of "page_view t", OF assms(2)] assms(3)] q by auto
  have qi: "q \<noteq> i" using child_slotD(5) [OF I(1) pq] by auto
  have "pcount pq < page_capacity t pq" using I(2) pq(1) qi unfolding roomy_def by blast
  then have "length (nentries pq) < maxNodeEntries t" using pq(2) by (simp add: pcount_def page_capacity_def)
  then show ?thesis using pq q qi wf_nodeD [OF I(1) pq(1,2)] by (auto simp: node_ok_def)
qed

lemma split_step_node:
  assumes "tree_inv t G i" "page_view t i = Some p" "i \<noteq> 1" "pcount p = page_capacity t p" "chain (par G) (q # path) i" "is_node p"
  shows "\<exists>k n t1 t2 pq G'. split_page p t = ok (k, n, t1) \<and> insert_parent q k n t1 = ok (pq, t2) \<and> tree_inv t2 G' q \<and>
    conf t2 = conf t \<and> page_view t2 q = Some pq \<and> chain (par G') path q \<and> (\<forall>x v. holds (page_view t2) x v \<longleftrightarrow> holds (page_view t) x v)"
proof -
  have I: "store_inv t" "\<not> readOnly t" "3 < maxNodeEntries t" "wf_tree (page_view t) G" "roomy t i"
    using assms(1) by (auto simp: tree_inv_def sizes_ok_def)
  obtain pq where pq: "page_view t q = Some pq" "is_node pq" and q: "par G i = q" and qi: "q \<noteq> i"
    and w: "nentries pq \<noteq> []" "sorted_keys (nentries pq)" "length (nentries pq) < maxNodeEntries t"
    using parent_page [OF assms(1-3,5)] by auto
  define m where "m = length (nentries p) div 2"
  have len: "length (nentries p) = maxNodeEntries t" using assms(4,6) by (simp add: pcount_def page_capacity_def)
  then have m: "0 < m" "m + 1 < length (nentries p)" using I(3) by (auto simp: m_def)
  define xs ys where "xs = take m (nentries p)" and "ys = drop (m + 1) (nentries p)"
  obtain k c where kc: "nentries p ! m = (k, c)" by (cases "nentries p ! m")
  have e: "nentries p = xs @ (k, c) # ys" using m(2) kc id_take_nth_drop [of m "nentries p"] by (simp add: xs_def ys_def)
  have xy: "xs \<noteq> []" "ys \<noteq> []" "length xs = length (nentries p) div 2" using m by (auto simp: xs_def ys_def m_def)
  obtain n t1 where n: "split_page p t = ok (k, n, t1)" "n \<notin> dom (page_view t)" "n \<noteq> 0" "store_inv t1" "conf t1 = conf t"
      "page_view t1 = (page_view t)(i \<mapsto> p\<lparr>nentries := xs\<rparr>, n \<mapsto> (zero_page n)\<lparr>is_node := True, nentries := ys, leftp := c\<rparr>)"
    using split_page_node [OF I(1,2) assms(2,6) e xy(3)] by auto
  let ?n = "(zero_page n)\<lparr>is_node := True, nentries := ys, leftp := c\<rparr> :: ('a, 'b) page"
  note W = split_node_wf [OF I(4) assms(2,3) _ n(2,3) assms(6) e xy(1,2), of pq ?n, unfolded q, OF pq(1)]
  have "page_view t1 q = Some pq" using n(2,6) pq(1) qi by auto
  from insert_parent_view [OF n(4) this pq(2), of k n] obtain t2
    where t2: "insert_parent q k n t1 = ok (pq\<lparr>nentries := insert_sorted k n (nentries pq)\<rparr>, t2)" "store_inv t2" "conf t2 = conf t1"
      "page_view t2 = (page_view t1)(q \<mapsto> pq\<lparr>nentries := insert_sorted k n (nentries pq)\<rparr>)"
    using w W(2) conf_sizes(3) [OF n(5)] by auto
  let ?G = "split_ghost G i n k (set (c # map snd ys))"
  have wf: "wf_tree (page_view t2) ?G" using W(1) by (simp add: t2(4) n(6))
  have cf: "conf t2 = conf t" using t2(3) n(5) by simp
  have cnt: "pcount (p\<lparr>nentries := xs\<rparr>) < pcount p" "pcount ?n < pcount p" using assms(6) e by (simp_all add: pcount_def)
  have same: "rel_option same_entries (page_view t m) (page_view t m)" for m by (simp add: option.rel_refl same_entries_def)
  note T = split_tree_inv [OF assms(1,2,4) pq(1,2) qi n(2) same t2(4) [unfolded n(6)] _ _ cnt _ t2(2) cf wf]
  have "tree_inv t2 ?G q" "\<forall>x v. holds (page_view t2) x v \<longleftrightarrow> holds (page_view t) x v" using T assms(6) by simp_all
  moreover have "d \<in> dom (page_view t) \<and> lev G d < lev G i" if "d \<in> set (c # map snd ys)" for d
  proof -
    have "d \<in> set (children p)" using that e by (auto simp: children_def)
    from child_slotD(2,5) [OF I(4) assms(2,6) this] show ?thesis by simp
  qed
  then have "set (c # map snd ys) \<subseteq> {c \<in> dom (page_view t). lev G c < lev G i}" by blast
  then have "chain (par ?G) path q" using chain_split [OF I(4) assms(5) _ n(2)] assms(2) by blast
  ultimately show ?thesis using n(1) t2(1,4) cf by (metis fun_upd_same)
qed

lemma split_step_leaf:
  assumes "tree_inv t G i" "page_view t i = Some p" "i \<noteq> 1" "pcount p = page_capacity t p" "chain (par G) (q # path) i" "\<not> is_node p"
  shows "\<exists>k n t1 t2 pq G'. split_page p t = ok (k, n, t1) \<and> insert_parent q k n t1 = ok (pq, t2) \<and> tree_inv t2 G' q \<and>
    conf t2 = conf t \<and> page_view t2 q = Some pq \<and> chain (par G') path q \<and> (\<forall>x v. holds (page_view t2) x v \<longleftrightarrow> holds (page_view t) x v)"
proof -
  have I: "store_inv t" "\<not> readOnly t" "3 < maxLeafEntries t" "wf_tree (page_view t) G" "roomy t i"
    using assms(1) by (auto simp: tree_inv_def sizes_ok_def)
  obtain pq where pq: "page_view t q = Some pq" "is_node pq" and q: "par G i = q" and qi: "q \<noteq> i"
    and w: "nentries pq \<noteq> []" "sorted_keys (nentries pq)" "length (nentries pq) < maxNodeEntries t"
    using parent_page [OF assms(1-3,5)] by auto
  define m where "m = length (lentries p) div 2"
  have len: "length (lentries p) = maxLeafEntries t" using assms(4,6) by (simp add: pcount_def page_capacity_def)
  then have m: "0 < m" "m < length (lentries p)" using I(3) by (auto simp: m_def)
  define xs ys where "xs = take m (lentries p)" and "ys = drop m (lentries p)"
  have e: "lentries p = xs @ ys" by (simp add: xs_def ys_def)
  have xy: "xs \<noteq> []" "ys \<noteq> []" "length xs = length (lentries p) div 2" "lentries p \<noteq> []" using m by (auto simp: xs_def ys_def m_def)
  note R = relink_wf [OF I(4) assms(2,6) xy(4) refl]
  let ?k = "fst (hd ys)"
  obtain n t1 where n: "split_page p t = ok (?k, n, t1)" "n \<notin> dom (page_view t)" "n \<noteq> 0" "store_inv t1" "conf t1 = conf t"
      "page_view t1 = (relink (rightp p) n (page_view t))(i \<mapsto> p\<lparr>lentries := xs, rightp := n\<rparr>,
        n \<mapsto> (zero_page n)\<lparr>lentries := ys, rightp := rightp p, leftp := i\<rparr>)"
    using split_page_leaf [OF I(1,2) assms(2,6) e xy(2,3) R(6)] by auto
  let ?n = "(zero_page n)\<lparr>lentries := ys, rightp := rightp p, leftp := i\<rparr> :: ('a, 'b) page" and ?V = "relink (rightp p) n (page_view t)"
  have Vq: "?V q = Some pq" by (rule R(5) [OF pq(1,2)])
  have nV: "n \<notin> dom ?V" using n(2) unfolding R(2) .
  note W = split_leaf_wf [OF R(1,4) assms(3) _ nV n(3) assms(6) e xy(1,2) refl, of pq ?n, unfolded q, OF Vq]
  have "page_view t1 q = Some pq" using n(2,6) pq(1) qi Vq by auto
  from insert_parent_view [OF n(4) this pq(2), of ?k n] obtain t2
    where t2: "insert_parent q ?k n t1 = ok (pq\<lparr>nentries := insert_sorted ?k n (nentries pq)\<rparr>, t2)" "store_inv t2" "conf t2 = conf t1"
      "page_view t2 = (page_view t1)(q \<mapsto> pq\<lparr>nentries := insert_sorted ?k n (nentries pq)\<rparr>)"
    using w W(2) conf_sizes(3) [OF n(5)] by auto
  let ?G = "split_ghost G i n ?k {}"
  have wf: "wf_tree (page_view t2) ?G" using W(1) by (simp add: t2(4) n(6))
  have cf: "conf t2 = conf t" using t2(3) n(5) by simp
  have cnt: "pcount (p\<lparr>lentries := xs, rightp := n\<rparr>) < pcount p" "pcount ?n < pcount p"
    using assms(6) e xy by (simp_all add: pcount_def)
  note T = split_tree_inv [OF assms(1,2,4) pq(1,2) qi n(2) R(3) t2(4) [unfolded n(6)] _ _ cnt _ t2(2) cf wf]
  have "tree_inv t2 ?G q" "\<forall>x v. holds (page_view t2) x v \<longleftrightarrow> holds (page_view t) x v" using T assms(6) e by simp_all
  moreover have "chain (par ?G) path q" using chain_split [OF I(4) assms(5) _ n(2), of "{}"] assms(2) by blast
  ultimately show ?thesis using n(1) t2(1,4) cf by (metis fun_upd_same)
qed

lemma root_split_inv:
  assumes "tree_inv t G 1" "page_view t 1 = Some p" "pcount p = page_capacity t p" "l \<notin> dom (page_view t)" "r \<notin> dom (page_view t)" "l \<noteq> r"
    "store_inv t'" "conf t' = conf t" "page_view t' = (page_view t)(r \<mapsto> pr, l \<mapsto> pl, 1 \<mapsto> root_page k l r)" "wf_tree (page_view t') G'"
    "is_node pl = is_node p" "is_node pr = is_node p" "pcount pl < pcount p" "pcount pr < pcount p"
    "\<not> is_node p \<Longrightarrow> set (lentries p) = set (lentries pl) \<union> set (lentries pr)"
  shows "tree_inv t' G' 0" "holds (page_view t') x v \<longleftrightarrow> holds (page_view t) x v"
proof -
  have I: "3 < maxNodeEntries t" "roomy t 1" using assms(1) by (auto simp: tree_inv_def sizes_ok_def)
  have ne: "l \<noteq> 1" "r \<noteq> 1" using assms(2,4,5) by auto
  have c: "page_capacity t' = page_capacity t" using conf_sizes(2) [OF assms(8)] by (simp add: fun_eq_iff)
  have "pcount q < page_capacity t' q" if m: "page_view t' m = Some q" for m q
  proof (cases "m \<in> {1, l, r}")
    case True
    then consider "q = root_page k l r" | "q = pl" | "q = pr" using m assms(6,9) ne by auto
    then show ?thesis
      by cases (use assms(3,11-14) I(1) in \<open>auto simp: c page_capacity_def pcount_def root_page_def\<close>)
  next
    case False
    then have "page_view t m = Some q" "m \<noteq> 1" using m assms(9) by auto
    then show ?thesis using I(2) unfolding roomy_def c by blast
  qed
  moreover have "page_view t' 0 = None" using view_dom [OF assms(7), of 0] by auto
  ultimately show "tree_inv t' G' 0"
    using assms(1,7,10) conf_sizes(1) [OF assms(8)] by (auto simp: tree_inv_def roomy_def)
  show "holds (page_view t') x v \<longleftrightarrow> holds (page_view t) x v"
  proof (rule holds_moved [of "{1, l, r}"])
    show "page_contents (page_view t') m = page_contents (page_view t) m" if "m \<notin> {1, l, r}" for m using that assms(9) by (simp add: page_contents_def)
    have "page_contents (page_view t) l = {}" "page_contents (page_view t) r = {}" using assms(4,5) by (auto simp: page_contents_def split: option.split)
    then show "(\<Union>m\<in>{1, l, r}. page_contents (page_view t') m) = (\<Union>m\<in>{1, l, r}. page_contents (page_view t) m)"
      using assms(2,6,9,11,12,15) ne by (auto simp: page_contents_def root_page_def)
  qed
qed

lemma splitRoot_store:
  assumes "store_inv t" "\<not> readOnly t" "page_view t 1 = Some p"
  shows "\<exists>l r. l \<notin> dom (page_view t) \<and> r \<notin> dom (page_view t) \<and> l \<noteq> r \<and> l \<noteq> 0 \<and> r \<noteq> 0 \<and>
    (is_node p \<longrightarrow> (\<forall>xs k c ys. nentries p = xs @ (k, c) # ys \<longrightarrow> length xs = length (nentries p) div 2 \<longrightarrow>
       (\<exists>t'. splitRoot t = ok t' \<and> store_inv t' \<and> conf t' = conf t \<and> page_view t' = (page_view t)(
          r \<mapsto> (zero_page r)\<lparr>is_node := True, leftp := c, nentries := ys\<rparr>,
          l \<mapsto> (zero_page l)\<lparr>is_node := True, leftp := leftp p, nentries := xs\<rparr>, 1 \<mapsto> root_page k l r)))) \<and>
    (\<not> is_node p \<longrightarrow> (\<forall>xs ys. lentries p = xs @ ys \<longrightarrow> ys \<noteq> [] \<longrightarrow> length xs = length (lentries p) div 2 \<longrightarrow>
       (\<exists>t'. splitRoot t = ok t' \<and> store_inv t' \<and> conf t' = conf t \<and> page_view t' = (page_view t)(
          r \<mapsto> (zero_page r)\<lparr>lentries := ys, leftp := l\<rparr>,
          l \<mapsto> (zero_page l)\<lparr>lentries := xs, rightp := r\<rparr>, 1 \<mapsto> root_page (fst (hd ys)) l r))))"
proof -
  obtain t1 where t1: "loadPage 1 t = ok (p, t1)" "store_inv t1" "page_view t1 = page_view t" "conf t1 = conf t"
    using ps.load_view [OF assms(1,3)] by blast
  have ro: "\<not> readOnly t1" using ps.writable_conf [OF t1(4)] assms(2) by simp
  obtain l r t2 t3 where a: "newPage t1 = ok (zero_page l, t2)" "newPage t2 = ok (zero_page r, t3)" "store_inv t3"
      "l \<noteq> 0" "r \<noteq> 0" "l \<noteq> r" "l \<notin> dom (page_view t)" "r \<notin> dom (page_view t)"
      "page_view t3 = (page_view t)(l \<mapsto> zero_page l, r \<mapsto> zero_page r)" "conf t3 = conf t"
    using ps.alloc_two [OF t1(2) ro] unfolding t1(3,4) by blast
  have d: "1 \<in> dom (page_view t3)" "l \<in> dom (page_view t3)" "r \<in> dom (page_view t3)" using a(9) assms(3) by auto
  have save: "\<exists>t4. rbind (savePage pr t3) (\<lambda>t. rbind (savePage pl t) (\<lambda>t. savePage (root_page k l r) t)) = ok t4 \<and>
      store_inv t4 \<and> conf t4 = conf t \<and> page_view t4 = (page_view t)(r \<mapsto> pr, l \<mapsto> pl, 1 \<mapsto> root_page k l r)"
    if pp: "pid pl = l" "pid pr = r" for pl pr k
  proof -
    have "pid (root_page k l r :: ('a, 'b) page) = 1" by (simp add: root_page_def)
    then obtain t4 where "rbind (savePage pr t3) (\<lambda>t. rbind (savePage pl t) (\<lambda>t. savePage (root_page k l r) t)) = ok t4"
        "store_inv t4" "page_view t4 = (page_view t3)(r \<mapsto> pr, l \<mapsto> pl, 1 \<mapsto> root_page k l r)" "conf t4 = conf t3"
      using ps.save_three [OF a(3), of pr pl "root_page k l r"] d unfolding pp by metis
    moreover
    have "(page_view t)(l \<mapsto> zero_page l, r \<mapsto> zero_page r, r \<mapsto> pr, l \<mapsto> pl, 1 \<mapsto> root_page k l r) =
        (page_view t)(r \<mapsto> pr, l \<mapsto> pl, 1 \<mapsto> root_page k l r)"
      using a(6) by (auto simp: fun_eq_iff)
    ultimately show ?thesis using a(9,10) by auto
  qed
  have node: "\<exists>t'. splitRoot t = ok t' \<and> store_inv t' \<and> conf t' = conf t \<and> page_view t' = (page_view t)(
          r \<mapsto> (zero_page r)\<lparr>is_node := True, leftp := c, nentries := ys\<rparr>,
          l \<mapsto> (zero_page l)\<lparr>is_node := True, leftp := leftp p, nentries := xs\<rparr>, 1 \<mapsto> root_page k l r)"
    if "is_node p" "nentries p = xs @ (k, c) # ys" "length xs = length (nentries p) div 2" for xs k c ys
    using save [of "(zero_page l)\<lparr>is_node := True, leftp := leftp p, nentries := xs\<rparr>" "(zero_page r)\<lparr>is_node := True, leftp := c, nentries := ys\<rparr>" k]
      t1(1) a(1,2) that by (simp add: splitRoot_def pcount_def root_page_def)
  have leaf: "\<exists>t'. splitRoot t = ok t' \<and> store_inv t' \<and> conf t' = conf t \<and> page_view t' = (page_view t)(
          r \<mapsto> (zero_page r)\<lparr>lentries := ys, leftp := l\<rparr>,
          l \<mapsto> (zero_page l)\<lparr>lentries := xs, rightp := r\<rparr>, 1 \<mapsto> root_page (fst (hd ys)) l r)"
    if "\<not> is_node p" "lentries p = xs @ ys" "ys \<noteq> []" "length xs = length (lentries p) div 2" for xs ys
    using save [of "(zero_page l)\<lparr>lentries := xs, rightp := r\<rparr>" "(zero_page r)\<lparr>lentries := ys, leftp := l\<rparr>" "fst (hd ys)"]
      t1(1) a(1,2) that by (simp add: splitRoot_def pcount_def root_page_def zero_page_def hd_conv_nth Let_def)
  show ?thesis using a(4-8) node leaf by blast
qed

lemma splitRoot_inv:
  assumes "tree_inv t G 1" "page_view t 1 = Some p" "pcount p = page_capacity t p"
  shows "\<exists>t' G'. splitRoot t = ok t' \<and> tree_inv t' G' 0 \<and> conf t' = conf t \<and> (\<forall>x v. holds (page_view t') x v \<longleftrightarrow> holds (page_view t) x v)"
proof -
  have I: "store_inv t" "\<not> readOnly t" "3 < maxNodeEntries t" "3 < maxLeafEntries t" "wf_tree (page_view t) G"
    using assms(1) by (auto simp: tree_inv_def sizes_ok_def)
  obtain l r where lr: "l \<notin> dom (page_view t)" "r \<notin> dom (page_view t)" "l \<noteq> r" "l \<noteq> 0" "r \<noteq> 0"
    and S: "is_node p \<longrightarrow> (\<forall>xs k c ys. nentries p = xs @ (k, c) # ys \<longrightarrow> length xs = length (nentries p) div 2 \<longrightarrow>
       (\<exists>t'. splitRoot t = ok t' \<and> store_inv t' \<and> conf t' = conf t \<and> page_view t' = (page_view t)(
          r \<mapsto> (zero_page r)\<lparr>is_node := True, leftp := c, nentries := ys\<rparr>,
          l \<mapsto> (zero_page l)\<lparr>is_node := True, leftp := leftp p, nentries := xs\<rparr>, 1 \<mapsto> root_page k l r)))"
      "\<not> is_node p \<longrightarrow> (\<forall>xs ys. lentries p = xs @ ys \<longrightarrow> ys \<noteq> [] \<longrightarrow> length xs = length (lentries p) div 2 \<longrightarrow>
       (\<exists>t'. splitRoot t = ok t' \<and> store_inv t' \<and> conf t' = conf t \<and> page_view t' = (page_view t)(
          r \<mapsto> (zero_page r)\<lparr>lentries := ys, leftp := l\<rparr>,
          l \<mapsto> (zero_page l)\<lparr>lentries := xs, rightp := r\<rparr>, 1 \<mapsto> root_page (fst (hd ys)) l r)))"
    using splitRoot_store [OF I(1,2) assms(2)] by auto
  show ?thesis
  proof (cases "is_node p")
    case True
    define m where "m = length (nentries p) div 2"
    have "length (nentries p) = maxNodeEntries t" using assms(3) True by (simp add: pcount_def page_capacity_def)
    then have m: "0 < m" "m + 1 < length (nentries p)" using I(3) by (auto simp: m_def)
    obtain k c where kc: "nentries p ! m = (k, c)" by (cases "nentries p ! m")
    define xs ys where "xs = take m (nentries p)" and "ys = drop (m + 1) (nentries p)"
    have e: "nentries p = xs @ (k, c) # ys" using m(2) kc id_take_nth_drop [of m "nentries p"] by (simp add: xs_def ys_def)
    have xy: "xs \<noteq> []" "ys \<noteq> []" "length xs = length (nentries p) div 2" using m by (auto simp: xs_def ys_def m_def)
    obtain t' where t': "splitRoot t = ok t'" "store_inv t'" "conf t' = conf t" "page_view t' = (page_view t)(
          r \<mapsto> (zero_page r)\<lparr>is_node := True, leftp := c, nentries := ys\<rparr>,
          l \<mapsto> (zero_page l)\<lparr>is_node := True, leftp := leftp p, nentries := xs\<rparr>, 1 \<mapsto> root_page k l r)"
      using S(1) True e xy(3) by blast
    have wf: "wf_tree (page_view t') (root_ghost G l r k (set (c # map snd ys)))"
      unfolding t'(4) by (rule root_node_wf [OF I(5) assms(2) lr True e xy(1,2) refl refl])
    note R = root_split_inv [OF assms lr(1-3) t'(2-4) wf]
    show ?thesis using R t'(1,3) True e by (auto simp: pcount_def)
  next
    case False
    define m where "m = length (lentries p) div 2"
    have "length (lentries p) = maxLeafEntries t" using assms(3) False by (simp add: pcount_def page_capacity_def)
    then have m: "0 < m" "m < length (lentries p)" using I(4) by (auto simp: m_def)
    define xs ys where "xs = take m (lentries p)" and "ys = drop m (lentries p)"
    have e: "lentries p = xs @ ys" by (simp add: xs_def ys_def)
    have xy: "xs \<noteq> []" "ys \<noteq> []" "length xs = length (lentries p) div 2" using m by (auto simp: xs_def ys_def m_def)
    obtain t' where t': "splitRoot t = ok t'" "store_inv t'" "conf t' = conf t" "page_view t' = (page_view t)(
          r \<mapsto> (zero_page r)\<lparr>lentries := ys, leftp := l\<rparr>,
          l \<mapsto> (zero_page l)\<lparr>lentries := xs, rightp := r\<rparr>, 1 \<mapsto> root_page (fst (hd ys)) l r)"
      using S(2) False e xy(2,3) by blast
    have wf: "wf_tree (page_view t') (root_ghost G l r (fst (hd ys)) {})"
      unfolding t'(4) by (rule root_leaf_wf [OF I(5) assms(2) lr False e xy(1,2) refl refl refl])
    note R = root_split_inv [OF assms lr(1-3) t'(2-4) wf]
    show ?thesis using R t'(1,3) False e xy(1,2) by (auto simp: pcount_def)
  qed
qed

lemma needs_split_iff: "needs_split t p \<longleftrightarrow> pcount p = page_capacity t p"
  by (auto simp: needs_split_def page_capacity_def)

lemma tree_inv_not_full:
  assumes "tree_inv t G i" "page_view t i = Some p" "\<not> needs_split t p"
  shows "tree_inv t G 0"
proof -
  have p: "pcount p < page_capacity t p" using assms by (simp add: tree_inv_def needs_split_iff)
  have "pcount q < page_capacity t q" if "page_view t n = Some q" for n q
    using that p assms(1,2) unfolding tree_inv_def roomy_def by (cases "n = i") auto
  moreover have "page_view t 0 = None" using assms(1) view_dom [of t 0] by (auto simp: tree_inv_def)
  ultimately show ?thesis using assms(1) by (simp add: tree_inv_def roomy_def)
qed

lemma split_loop_inv:
  "tree_inv t G i \<Longrightarrow> page_view t i = Some p \<Longrightarrow> chain (par G) path i \<Longrightarrow>
   \<exists>t' G'. split_loop path p t = ok (False, t') \<and> tree_inv t' G' 0 \<and> conf t' = conf t \<and>
     (\<forall>x v. holds (page_view t') x v \<longleftrightarrow> holds (page_view t) x v)"
proof (induction path arbitrary: t G i p)
  case (Nil t G i p)
  then have i: "i = 1" "pid p = 1" using ps.num_view [of t i p] by (auto simp: tree_inv_def)
  show ?case
  proof (cases "needs_split t p")
    case True
    then show ?thesis using splitRoot_inv [of t G p] Nil i by (subst split_loop.simps) (auto simp: needs_split_iff)
  next
    case False
    then have "split_loop [] p t = ok (False, t)" by (subst split_loop.simps) simp
    moreover have "tree_inv t G 0" by (rule tree_inv_not_full [OF Nil(1,2) False])
    ultimately show ?thesis by blast
  qed
next
  case (Cons q path t G i p)
  then have i: "i \<noteq> 1" "pid p = i" using ps.num_view [of t i p] by (auto simp: tree_inv_def)
  show ?case
  proof (cases "needs_split t p")
    case True
    then have full: "pcount p = page_capacity t p" by (simp add: needs_split_iff)
    obtain k n t1 t2 pq G' where s: "split_page p t = ok (k, n, t1)" "insert_parent q k n t1 = ok (pq, t2)" "tree_inv t2 G' q"
        "conf t2 = conf t" "page_view t2 q = Some pq" "chain (par G') path q" "\<forall>x v. holds (page_view t2) x v \<longleftrightarrow> holds (page_view t) x v"
      using split_step_node [OF Cons.prems(1,2) i(1) full Cons.prems(3)] split_step_leaf [OF Cons.prems(1,2) i(1) full Cons.prems(3)]
      by blast
    have "split_loop (q # path) p t = split_loop path pq t2" using True i s(1,2) by (subst split_loop.simps) simp
    then show ?thesis using Cons.IH [OF s(3,5,6)] s(4,7) by simp
  next
    case False
    then have "split_loop (q # path) p t = ok (False, t)" by (subst split_loop.simps) simp
    moreover have "tree_inv t G 0" by (rule tree_inv_not_full [OF Cons.prems(1,2) False])
    ultimately show ?thesis by blast
  qed
qed

text \<open>Changing the entries of a leaf.\<close>

lemma leaf_update_holds:
  assumes "wf_tree V G" "V m = Some p" "\<not> is_node p" "within (lo G m) (hi G m) k"
    "\<And>x w. (x, w) \<in> set es \<longleftrightarrow> (if x = k then w = v else (x, w) \<in> set (lentries p))"
  shows "holds (V(m \<mapsto> p\<lparr>lentries := es\<rparr>)) x w \<longleftrightarrow> (if x = k then w = v else holds V x w)"
proof -
  let ?V = "V(m \<mapsto> p\<lparr>lentries := es\<rparr>)"
  have c: "page_contents ?V m = set es" "page_contents V m = set (lentries p)" "\<And>n. n \<noteq> m \<Longrightarrow> page_contents ?V n = page_contents V n"
    using assms(2,3) by (simp_all add: page_contents_def)
  have "(k, w) \<notin> page_contents V n" if "n \<noteq> m" for w n
  proof
    assume n: "(k, w) \<in> page_contents V n"
    then obtain q where q: "V n = Some q" "\<not> is_node q" "(k, w) \<in> set (lentries q)"
      by (auto simp: page_contents_def split: option.splits if_splits)
    then have "within (lo G n) (hi G n) k" "lev G n = lev G m"
      using wf_leafD [OF assms(1) q(1,2)] wf_leafD [OF assms(1-3)] by (force simp: leaf_ok_def)+
    then show False using wf_unique [OF assms(1), of n m k] q(1) assms(2,4) that by blast
  qed
  then have "(\<exists>n. (x, w) \<in> page_contents ?V n) \<longleftrightarrow> (if x = k then w = v else (\<exists>n. (x, w) \<in> page_contents V n))"
    using c assms(5) by (cases "x = k") (metis, metis)
  then show ?thesis by (simp add: holds_contents)
qed

lemma leaf_update_inv:
  assumes "tree_inv t G 0" "page_view t m = Some p" "\<not> is_node p" "sorted_keys es" "\<forall>e \<in> set es. within (lo G m) (hi G m) (fst e)" "es \<noteq> []"
    "length es \<le> maxLeafEntries t"
  shows "\<exists>t'. savePage (p\<lparr>lentries := es\<rparr>) t = ok t' \<and> tree_inv t' G m \<and> conf t' = conf t \<and>
    page_view t' = (page_view t)(m \<mapsto> p\<lparr>lentries := es\<rparr>)"
proof -
  have I: "store_inv t" "wf_tree (page_view t) G" "roomy t 0" using assms(1) by (auto simp: tree_inv_def)
  have "pid p = m" "m \<noteq> 0" using ps.num_view [OF I(1) assms(2)] by auto
  then obtain t' where t': "savePage (p\<lparr>lentries := es\<rparr>) t = ok t'" "store_inv t'" "page_view t' = (page_view t)(m \<mapsto> p\<lparr>lentries := es\<rparr>)" "conf t' = conf t"
    using ps.save_view [OF I(1), of "p\<lparr>lentries := es\<rparr>"] assms(2) by auto
  have "page_ok (dom (page_view t)) G m (p\<lparr>lentries := es\<rparr>)"
    using wf_pageD [OF I(2) assms(2)] assms(3-6) by (simp add: page_ok_def leaf_ok_def)
  then have "wf_tree (page_view t') G" using wf_tree_frame [OF I(2) assms(2)] assms(3) by (simp add: t'(3))
  moreover have "pcount q < page_capacity t' q" if "page_view t' n = Some q" "n \<noteq> m" for n q
  proof -
    have n: "page_view t n = Some q" using that by (simp add: t'(3))
    then have "n \<noteq> 0" using ps.num_view [OF I(1) n] by simp
    then show ?thesis using I(3) n conf_sizes(2) [OF t'(4)] unfolding roomy_def by simp
  qed
  ultimately have "tree_inv t' G m"
    using t' assms(1,3,7) conf_sizes(1,4) [OF t'(4)] by (simp add: tree_inv_def roomy_def pcount_def page_capacity_def)
  then show ?thesis using t' by blast
qed

lemma bt_lower_bound_update:
  "sorted_keys es \<Longrightarrow> k \<in> fst ` set es \<Longrightarrow>
   map fst (es[bt_lower_bound k es := (k, v)]) = map fst es \<and>
   ((x, w) \<in> set (es[bt_lower_bound k es := (k, v)]) \<longleftrightarrow> (if x = k then w = v else (x, w) \<in> set es))"
proof (induction es)
  case (Cons e es)
  show ?case
  proof (cases "fst e < k")
    case True
    then have "k \<in> fst ` set es" using Cons.prems(2) by auto
    then show ?thesis using Cons.IH Cons.prems(1) True by auto
  next
    case False
    then have "fst e = k" using Cons.prems by fastforce
    moreover from this have "(k, y) \<notin> set es" for y using Cons.prems(1) by auto
    ultimately show ?thesis by auto
  qed
qed simp

lemma insert_leaf_inv:
  assumes "tree_inv t G 0" "page_view t m = Some p" "\<not> is_node p" "within (lo G m) (hi G m) k" "chain (par G) path m"
  shows "\<exists>t' G'. insert_leaf k v path p t = ok (k \<in> fst ` set (lentries p), t') \<and> tree_inv t' G' 0 \<and> conf t' = conf t \<and>
    (\<forall>x w. holds (page_view t') x w \<longleftrightarrow> (if x = k then w = v else holds (page_view t) x w))"
proof -
  have I: "store_inv t" "wf_tree (page_view t) G" "roomy t 0" using assms(1) by (auto simp: tree_inv_def)
  note w = wf_leafD [OF I(2) assms(2,3), unfolded leaf_ok_def]
  have "m \<noteq> 0" using ps.num_view [OF I(1) assms(2)] by simp
  then have "pcount p < page_capacity t p" using I(3) assms(2) unfolding roomy_def by blast
  then have len: "length (lentries p) < maxLeafEntries t" using assms(3) by (simp add: pcount_def page_capacity_def)
  define e where "e = bt_lower_bound k (lentries p)"
  define hit where "hit = (k \<in> fst ` set (lentries p))"
  define es where "es = (if hit then (lentries p)[e := (k, v)] else insert_sorted k v (lentries p))"
  have hit: "e \<noteq> length (lentries p) \<and> fst (lentries p ! e) = k \<longleftrightarrow> hit" using w bt_lower_bound_hit [of "lentries p" k] by (simp add: e_def hit_def)
  have mem: "(x, y) \<in> set es \<longleftrightarrow> (if x = k then y = v else (x, y) \<in> set (lentries p))" for x y
    using bt_lower_bound_update [of "lentries p" k v x y] w by (force simp: es_def e_def hit_def)
  have "sorted_keys es" using bt_lower_bound_update [of "lentries p" k v] sorted_insert_sorted [of "lentries p" k v] w
    by (simp add: es_def e_def hit_def sorted_keys_def)
  moreover have "within (lo G m) (hi G m) (fst x)" if "x \<in> set es" for x
    using mem [of "fst x" "snd x"] that w assms(4) by (cases "fst x = k") force+
  moreover have "es \<noteq> []" using mem [of k v] by auto
  moreover have "length es \<le> maxLeafEntries t" using len by (simp add: es_def)
  ultimately obtain t1 where t1: "savePage (p\<lparr>lentries := es\<rparr>) t = ok t1" "tree_inv t1 G m" "conf t1 = conf t"
      "page_view t1 = (page_view t)(m \<mapsto> p\<lparr>lentries := es\<rparr>)"
    using leaf_update_inv [OF assms(1-3), of es] by blast
  note h = leaf_update_holds [OF I(2) assms(2-4) mem, folded t1(4)]
  have m1: "page_view t1 m = Some (p\<lparr>lentries := es\<rparr>)" by (simp add: t1(4))
  show ?thesis
  proof (cases hit)
    case True
    then have "insert_leaf k v path p t = ok (True, t1)" using hit t1(1) by (simp add: insert_leaf_def e_def [symmetric] es_def Let_def)
    moreover have "tree_inv t1 G 0"
      by (rule tree_inv_not_full [OF t1(2) m1]) (use True len assms(3) conf_sizes(4) [OF t1(3)] in \<open>simp add: needs_split_def pcount_def es_def\<close>)
    ultimately show ?thesis using h t1(3) True by (auto simp: hit_def)
  next
    case False
    then have "insert_leaf k v path p t = split_loop path (p\<lparr>lentries := es\<rparr>) t1"
      using hit t1(1) len by (auto simp: insert_leaf_def e_def [symmetric] es_def Let_def insert_at_def insert_sorted_def)
    then show ?thesis using split_loop_inv [OF t1(2) m1 assms(5)] h t1(3) False by (auto simp: hit_def)
  qed
qed

text \<open>The tree represents a map.\<close>

definition represents :: "('k :: linorder, 'v) btree \<Rightarrow> ('k \<rightharpoonup> 'v) \<Rightarrow> bool" where
  "represents t m \<longleftrightarrow> (\<exists>G. tree_inv t G 0 \<and> (\<forall>k v. holds (page_view t) k v \<longleftrightarrow> m k = Some v))"

lemma set_represents:
  assumes "represents t m"
  shows "\<exists>t'. bt_set k v t = Some (ok (k \<in> dom m, t')) \<and> represents t' (m(k \<mapsto> v)) \<and> conf t' = conf t"
proof -
  obtain G where G: "tree_inv t G 0" "\<And>k v. holds (page_view t) k v \<longleftrightarrow> m k = Some v" using assms by (auto simp: represents_def)
  have I: "wf_tree (page_view t) G" "store_inv t" using G(1) by (auto simp: tree_inv_def)
  obtain n p path t1 where p: "bt_insert 1 k v [] t = Some (insert_leaf k v path p t1)" "page_view t1 = page_view t" "store_inv t1" "conf t1 = conf t"
      "page_view t n = Some p" "\<not> is_node p" "within (lo G n) (hi G n) k" "chain (par G) path n"
    using inserting.from_root [OF I, of k v] by blast
  have "tree_inv t1 G 0" using G(1) p(2-4) conf_sizes [OF p(4)] by (simp add: tree_inv_def roomy_def)
  from insert_leaf_inv [OF this _ p(6-8), of v] obtain t' G' where t': "insert_leaf k v path p t1 = ok (k \<in> fst ` set (lentries p), t')" "tree_inv t' G' 0"
      "conf t' = conf t1" "\<And>x w. holds (page_view t') x w \<longleftrightarrow> (if x = k then w = v else holds (page_view t) x w)"
    using p(2,5) by auto
  have "k \<in> fst ` set (lentries p) \<longleftrightarrow> k \<in> dom m"
    using holds_leaf_key [OF I(1) p(5-7)] G(2) by auto
  moreover have "represents t' (m(k \<mapsto> v))" using t'(2,4) G(2) by (auto simp: represents_def)
  ultimately show ?thesis using p(1,4) t'(1,3) by (auto simp: bt_set_def)
qed

lemma get_represents:
  assumes "represents t m"
  shows "\<exists>t'. bt_get k t = Some (ok (m k, t')) \<and> represents t' m \<and> conf t' = conf t \<and> page_view t' = page_view t"
proof -
  obtain G where G: "tree_inv t G 0" "\<And>k v. holds (page_view t) k v \<longleftrightarrow> m k = Some v" using assms by (auto simp: represents_def)
  then obtain r t' where r: "bt_get k t = Some (ok (r, t'))" "page_view t' = page_view t" "store_inv t'" "conf t' = conf t" "\<forall>v. r = Some v \<longleftrightarrow> m k = Some v"
    using get_holds [of t G k] by (auto simp: tree_inv_def)
  then have "r = m k" by (metis option.exhaust)
  moreover have "tree_inv t' G 0" using G(1) r(2-4) conf_sizes [OF r(4)] by (simp add: tree_inv_def roomy_def)
  ultimately show ?thesis using r G(2) by (auto simp: represents_def)
qed

lemma new_represents:
  assumes "0 < s" "3 < maxNode" "3 < maxLeaf"
  shows "\<exists>t. BTree s maxNode maxLeaf False offs offs [] = ok t \<and> represents t Map.empty"
proof -
  let ?t = "\<lparr>file_head = offs, file_pages = [], page_size = s, maxNodeEntries = maxNode, maxLeafEntries = maxLeaf,
    offset = offs, readOnly = False, cacheReads = True, cacheWrites = True, cache = []\<rparr> :: ('a, 'b) btree"
  have s: "store_inv ?t" using assms(1) by (simp add: store_inv_def page_view_def)
  have v: "page_view ?t = Map.empty" by (auto simp: page_view_def fun_eq_iff)
  let ?u = "?t\<lparr>file_pages := [zero_page 1], cache := [(1, PageInfo (zero_page 1))]\<rparr>"
  have n: "newPage ?t = ok (zero_page 1, ?u)"
    using assms(1) by (simp add: newPage_def newPage_file_def pageOffset_def seekEnd_def Let_def)
  then have u: "store_inv ?u" "page_view ?u = [1 \<mapsto> zero_page 1]" using ps.alloc_view [OF s] v by (auto simp: zero_page_def)
  let ?G = "\<lparr>par = \<lambda>_. 0, lo = \<lambda>_. None, hi = \<lambda>_. None, lev = \<lambda>_. 0\<rparr> :: 'a ghost"
  have "tree_inv ?u ?G 0"
    using u assms(2,3) by (auto simp: tree_inv_def sizes_ok_def roomy_def wf_tree_def page_ok_def leaf_ok_def link_ok_def pcount_def page_capacity_def)
  moreover have "\<not> holds (page_view ?u) k v" for k v unfolding u(2) by (auto simp: holds_def split: if_splits)
  moreover have "BTree s maxNode maxLeaf False offs offs [] = ok ?u" using n by (simp add: BTree_def seekEnd_def)
  ultimately show ?thesis by (auto simp: represents_def)
qed

section \<open>Ranges\<close>

text \<open>The part of the range search within one leaf.\<close>

lemma range_loop_leaf:
  "e < length (lentries p) \<Longrightarrow>
   range_loop k2 p e acc t =
     (if \<exists>x \<in> set (drop e (lentries p)). k2 < fst x
      then Some (ok (acc @ takeWhile (\<lambda>x. \<not> k2 < fst x) (drop e (lentries p)), t))
      else if rightp p = 0 then Some (ok (acc @ drop e (lentries p), t))
      else cbind (Some (loadPage (rightp p) t)) (\<lambda>(q, t).
        if is_node q then Some (throw AssertionFailed) else range_loop k2 q 0 (acc @ drop e (lentries p)) t))"
proof (induction "length (lentries p) - e" arbitrary: e acc)
  case (Suc n)
  have d: "drop e (lentries p) = lentries p ! e # drop (e + 1) (lentries p)" using Suc.prems by (simp add: Cons_nth_drop_Suc)
  show ?case
  proof (cases "k2 < fst (lentries p ! e)")
    case True
    then show ?thesis using Suc.prems d by (subst range_loop.simps) auto
  next
    case less: False
    show ?thesis
    proof (cases "e + 1 = length (lentries p)")
      case True
      then have dd: "drop e (lentries p) = [lentries p ! e]" using d by simp
      show ?thesis unfolding dd using Suc.prems less True by (subst range_loop.simps) (simp add: Let_def)
    next
      case False
      then have "range_loop k2 p e acc t = range_loop k2 p (e + 1) (acc @ [lentries p ! e]) t"
        using Suc.prems less by (subst range_loop.simps) (simp add: Let_def)
      moreover have "n = length (lentries p) - (e + 1)" "e + 1 < length (lentries p)" using Suc.hyps(2) Suc.prems False by linarith+
      moreover have "(acc @ [lentries p ! e]) @ drop (e + 1) (lentries p) = acc @ drop e (lentries p)"
          "set (drop e (lentries p)) = insert (lentries p ! e) (set (drop (e + 1) (lentries p)))"
          "acc @ takeWhile (\<lambda>x. \<not> k2 < fst x) (drop e (lentries p)) =
             (acc @ [lentries p ! e]) @ takeWhile (\<lambda>x. \<not> k2 < fst x) (drop (e + 1) (lentries p))"
        using d less by simp_all
      ultimately show ?thesis using Suc.hyps(1) [of "e + 1" "acc @ [lentries p ! e]"] less by (simp only:) auto
    qed
  qed
qed simp

definition in_range :: "(nat \<rightharpoonup> ('k :: linorder, 'v) page) \<Rightarrow> 'k \<Rightarrow> 'k \<Rightarrow> ('k \<times> 'v) list \<Rightarrow> bool" where
  "in_range V a b es \<longleftrightarrow> sorted_keys es \<and> (\<forall>k v. (k, v) \<in> set es \<longleftrightarrow> holds V k v \<and> a \<le> k \<and> k \<le> b)"

text \<open>The leaves that cover keys from a given one on; there are fewer of them with every step to the right.\<close>

definition leaves_from :: "(nat \<rightharpoonup> ('k :: linorder, 'v) page) \<Rightarrow> 'k ghost \<Rightarrow> 'k option \<Rightarrow> nat set" where
  "leaves_from V G b = {m \<in> dom V. \<exists>x y. b = Some x \<and> lo G m = Some y \<and> x \<le> y}"

lemma leaves_from_less:
  assumes "finite (dom V)" "r \<in> dom V" "lo G r = Some b" "\<And>c. b' = Some c \<Longrightarrow> b < c"
  shows "card (leaves_from V G b') < card (leaves_from V G (Some b))"
proof (rule psubset_card_mono)
  show "finite (leaves_from V G (Some b))" using assms(1) by (simp add: leaves_from_def)
  have "r \<in> leaves_from V G (Some b)" "r \<notin> leaves_from V G b'" using assms by (auto simp: leaves_from_def)
  moreover have "leaves_from V G b' \<subseteq> leaves_from V G (Some b)" using assms(4) by (force simp: leaves_from_def)
  ultimately show "leaves_from V G b' \<subset> leaves_from V G (Some b)" by blast
qed

lemma sorted_keys_drop: "sorted_keys es \<Longrightarrow> sorted_keys (drop n es)"
  by (metis append_take_drop_id sorted_keys_append)

lemma takeWhile_keys:
  "sorted_keys es \<Longrightarrow> (k, v) \<in> set (takeWhile (\<lambda>x. \<not> b < fst x) es) \<longleftrightarrow> (k, v) \<in> set es \<and> k \<le> b"
  by (induction es) (auto simp: not_less dest: order.strict_trans1)

lemma sorted_keys_takeWhile: "sorted_keys es \<Longrightarrow> sorted_keys (takeWhile P es)"
  by (induction es) (auto dest: set_takeWhileD)

text \<open>From an entry of a leaf on, the loop collects every entry up to the second key.\<close>

lemma range_loop_collects:
  "wf_tree (page_view t) G \<Longrightarrow> store_inv t \<Longrightarrow> page_view t n = Some p \<Longrightarrow> \<not> is_node p \<Longrightarrow> e < length (lentries p) \<Longrightarrow>
   within (lo G n) (hi G n) a \<Longrightarrow> \<forall>x \<in> set (take e (lentries p)). fst x < a \<Longrightarrow> \<forall>x \<in> set (drop e (lentries p)). a \<le> fst x \<Longrightarrow>
   \<exists>es t'. range_loop k2 p e acc t = Some (ok (acc @ es, t')) \<and> page_view t' = page_view t \<and> store_inv t' \<and> conf t' = conf t \<and> in_range (page_view t) a k2 es"
proof (induction "card (leaves_from (page_view t) G (hi G n))" arbitrary: n p e a acc t rule: less_induct)
  case less
  let ?V = "page_view t" and ?ds = "drop e (lentries p)"
  note w = wf_leafD [OF less.prems(1,3,4), unfolded leaf_ok_def]
  have sd: "sorted_keys ?ds" using w sorted_keys_drop by blast
  have here: "(k, v) \<in> set ?ds \<longleftrightarrow> holds ?V k v \<and> a \<le> k" if "less_bound (hi G n) k" for k v
  proof -
    have "set (lentries p) = set (take e (lentries p)) \<union> set ?ds" by (metis append_take_drop_id set_append)
    moreover have "holds ?V k v \<longleftrightarrow> (k, v) \<in> set (lentries p)" if "a \<le> k"
      by (rule holds_leaf [OF less.prems(1,3,4)])
        (use that \<open>less_bound (hi G n) k\<close> less.prems(6) above_trans(1) [of "lo G n" a k] in \<open>auto simp: within_def\<close>)
    ultimately show ?thesis using less.prems(7,8) by force
  qed
  have inside: "less_bound (hi G n) (fst x)" if "x \<in> set ?ds" for x using w in_set_dropD [OF that] by (auto simp: within_def)
  show ?case
  proof (cases "\<exists>x \<in> set ?ds. k2 < fst x")
    case True
    then obtain x where x: "x \<in> set ?ds" "k2 < fst x" by blast
    have "less_bound (hi G n) k" if "k \<le> k2" for k using inside [OF x(1)] that x(2) above_trans(4) [of "hi G n" "fst x" k] by auto
    then have "in_range ?V a k2 (takeWhile (\<lambda>x. \<not> k2 < fst x) ?ds)"
      using here takeWhile_keys [OF sd] sorted_keys_takeWhile [OF sd] by (auto simp: in_range_def)
    then show ?thesis using range_loop_leaf [OF less.prems(5)] True less.prems(2) by auto
  next
    case all: False
    show ?thesis
    proof (cases "hi G n")
      case None
      then have "rightp p = 0" using w by (simp add: link_ok_def)
      moreover have "in_range ?V a k2 ?ds" using sd here None all by (force simp: in_range_def not_less)
      ultimately show ?thesis using range_loop_leaf [OF less.prems(5)] all less.prems(2) by auto
    next
      case (Some b)
      then have r: "rightp p \<in> dom ?V" "lev G (rightp p) = 0" "lo G (rightp p) = Some b" "rightp p \<noteq> 1" "rightp p \<noteq> 0"
        using w less.prems(1) view_dom [OF less.prems(2)] by (auto simp: link_ok_def wf_tree_def)
      then obtain q where q: "?V (rightp p) = Some q" by auto
      obtain t1 where t1: "loadPage (rightp p) t = ok (q, t1)" "store_inv t1" "page_view t1 = ?V" "conf t1 = conf t"
        using ps.load_view [OF less.prems(2) q] by blast
      have leaf: "\<not> is_node q" using wf_leaf_level [OF less.prems(1) q] r(2) by simp
      note wq = wf_leafD [OF less.prems(1) q leaf, unfolded leaf_ok_def]
      obtain y ys where y: "lentries q = y # ys" using wq r(4) by (cases "lentries q") auto
      have bq: "within (lo G (rightp p)) (hi G (rightp p)) b"
        using wq y r(3) above_trans(4) [of "hi G (rightp p)" "fst y" b] by (auto simp: within_def)
      have "card (leaves_from ?V G (hi G (rightp p))) < card (leaves_from ?V G (hi G n))"
        unfolding Some by (rule leaves_from_less [OF _ r(1,3)]) (use bq view_dom [OF less.prems(2)] in \<open>auto simp: within_def finite_nat_set_iff_bounded_le\<close>)
      then obtain es t' where es: "range_loop k2 q 0 (acc @ ?ds) t1 = Some (ok ((acc @ ?ds) @ es, t'))" "page_view t' = ?V" "store_inv t'" "conf t' = conf t"
          "in_range ?V b k2 es"
        using less.hyps [of t1 "rightp p" q 0 b "acc @ ?ds"] less.prems(1) t1 q leaf y bq wq r(3) by (auto simp: within_def)
      have "\<forall>x \<in> set ?ds. fst x < b" using inside Some by simp
      moreover have "(k, v) \<in> set (?ds @ es) \<longleftrightarrow> holds ?V k v \<and> a \<le> k \<and> k \<le> k2" for k v
      proof (cases "k < b")
        case True
        then show ?thesis using here [of k v] Some all es(5) by (force simp: in_range_def not_less)
      next
        case False
        moreover have "a < b" using less.prems(6) Some by (simp add: within_def)
        moreover have "(k, v) \<notin> set ?ds" using inside [of "(k, v)"] Some False by auto
        ultimately show ?thesis using es(5) by (auto simp: in_range_def)
      qed
      ultimately have "in_range ?V a k2 (?ds @ es)"
        using sd es(5) by (force simp: in_range_def sorted_keys_append)
      then show ?thesis using range_loop_leaf [OF less.prems(5), of k2 acc t] all r(5) t1(1) leaf es by auto
    qed
  qed
qed

lemma represents_conf: "represents t m \<Longrightarrow> page_view t' = page_view t \<Longrightarrow> store_inv t' \<Longrightarrow> conf t' = conf t \<Longrightarrow> represents t' m"
  using conf_sizes [of t' t] by (auto simp: represents_def tree_inv_def roomy_def)

text \<open>
  The entries between two keys. The search gives up when the leaf for the first key has no entry from that key on,
  even if the leaves to its right do.
\<close>

definition entries_between :: "('k :: linorder \<rightharpoonup> 'v) \<Rightarrow> 'k \<Rightarrow> 'k \<Rightarrow> ('k \<times> 'v) list \<Rightarrow> bool" where
  "entries_between m k1 k2 es \<longleftrightarrow> sorted_wrt (<) (map fst es) \<and> (\<forall>k v. (k, v) \<in> set es \<longleftrightarrow> m k = Some v \<and> k1 \<le> k \<and> k \<le> k2)"

lemma range_represents:
  assumes "represents t m"
  shows "\<exists>es t'. bt_range k1 k2 t = Some (ok (es, t')) \<and> represents t' m \<and> (es = [] \<or> entries_between m k1 k2 es) \<and>
    (k1 \<in> dom m \<longrightarrow> entries_between m k1 k2 es)"
proof -
  obtain G where G: "tree_inv t G 0" "\<And>k v. holds (page_view t) k v \<longleftrightarrow> m k = Some v" using assms by (auto simp: represents_def)
  have I: "wf_tree (page_view t) G" "store_inv t" using G(1) by (auto simp: tree_inv_def)
  obtain n p t1 where p: "page_view t1 = page_view t" "store_inv t1" "conf t1 = conf t" "page_view t n = Some p" "\<not> is_node p" "within (lo G n) (hi G n) k1"
    "search_range 1 k1 k2 t = (let e = bt_lower_bound k1 (lentries p) in
       if e = length (lentries p) then Some (ok ([], t1)) else range_loop k2 p e [] t1)"
    using ranging.from_root [OF I, of k1 k2] by blast
  define e where "e = bt_lower_bound k1 (lentries p)"
  have s: "sorted_keys (lentries p)" using wf_leafD [OF I(1) p(4,5)] by (simp add: leaf_ok_def)
  show ?thesis
  proof (cases "e = length (lentries p)")
    case True
    then have "bt_range k1 k2 t = Some (ok ([], t1))" using p(7) by (simp add: bt_range_def e_def [symmetric])
    moreover have "k1 \<notin> fst ` set (lentries p)" using bt_lower_bound_hit [OF s, of k1] True by (simp add: e_def)
    then have "k1 \<notin> dom m" using holds_leaf_key [OF I(1) p(4-6)] G(2) by auto
    ultimately show ?thesis using represents_conf [OF assms p(1-3)] by blast
  next
    case False
    then have "e < length (lentries p)" using bt_lower_bound_le [of k1 "lentries p"] by (simp add: e_def)
    then obtain es t' where "range_loop k2 p e [] t1 = Some (ok (es, t'))" "page_view t' = page_view t" "store_inv t'" "conf t' = conf t"
        "in_range (page_view t) k1 k2 es"
      using range_loop_collects [of t1 G n p e k1 k2 "[]"] I p bt_lower_bound_split [OF s, of k1] by (auto simp: e_def)
    moreover from this have "entries_between m k1 k2 es" using G(2) by (auto simp: in_range_def entries_between_def sorted_keys_def)
    ultimately show ?thesis using p(7) False represents_conf [OF assms, of t'] by (auto simp: bt_range_def e_def [symmetric])
  qed
qed

section \<open>Counting\<close>

lemma within_split:
  assumes "strictly_above a x" "less_bound b x"
  shows "{k \<in> H. within a b k} = {k \<in> H. within a (Some x) k} \<union> {k \<in> H. within (Some x) b k}"
  using assms above_trans(1) [OF strictly_above_at_least, of a x] above_trans(4) [of b x] by (auto simp: within_def not_less)

lemma slots_card:
  "finite H \<Longrightarrow> sorted_keys es \<Longrightarrow> keys_between a b es \<Longrightarrow>
   sum_list (map (\<lambda>(x, c, y). card {k \<in> H. within x y k}) (slots a b c es)) = card {k \<in> H. within a b k}"
proof (induction a b c es rule: slots.induct)
  case (2 a b c k d es)
  have "card {x \<in> H. within a b x} = card {x \<in> H. within a (Some k) x} + card {x \<in> H. within (Some k) b x}"
    using within_split [of a k b H] 2(4) by (subst card_Un_disjoint [symmetric]) (auto simp: 2(2) within_def)
  then show ?case using 2 keys_between_tail [OF 2(3,4)] by simp
qed simp

lemma sum_children_sum:
  assumes "\<And>c t. c \<in> set cs \<Longrightarrow> page_view t = V \<Longrightarrow> store_inv t \<Longrightarrow>
      \<exists>t'. f c t = Some (ok (g c, t')) \<and> page_view t' = V \<and> store_inv t' \<and> conf t' = conf t"
    "page_view t = V" "store_inv t"
  shows "\<exists>t'. sum_children f cs d t = Some (ok (d + sum_list (map g cs), t')) \<and> page_view t' = V \<and> store_inv t' \<and> conf t' = conf t"
  using assms
proof (induction cs arbitrary: d t)
  case (Cons c cs)
  obtain t1 where t1: "f c t = Some (ok (g c, t1))" "page_view t1 = V" "store_inv t1" "conf t1 = conf t"
    using Cons.prems(1) [of c t] Cons.prems(2,3) by auto
  then show ?case using Cons.IH [of t1 "d + g c"] Cons.prems(1) by (auto simp: add.assoc)
qed auto

lemma finite_held: "store_inv t \<Longrightarrow> finite {k. \<exists>v. holds (page_view t) k v}"
proof -
  assume "store_inv t"
  then have "finite (dom (page_view t))" using view_dom by (auto simp: finite_nat_set_iff_bounded_le)
  moreover have "n \<in> dom (page_view t)" if "e \<in> page_contents (page_view t) n" for n e using that by (cases "page_view t n") (auto simp: page_contents_def)
  then have "{k. \<exists>v. holds (page_view t) k v} \<subseteq> (\<Union>n \<in> dom (page_view t). fst ` page_contents (page_view t) n)"
    unfolding holds_contents by clarify (metis UN_iff fst_conv image_eqI)
  moreover have "finite (page_contents (page_view t) n)" for n by (auto simp: page_contents_def split: option.split)
  ultimately show ?thesis by (meson finite_UN_I finite_imageI finite_subset)
qed

lemma count_page_card:
  "wf_tree (page_view t) G \<Longrightarrow> store_inv t \<Longrightarrow> n \<in> dom (page_view t) \<Longrightarrow> H = {k. \<exists>v. holds (page_view t) k v} \<Longrightarrow>
   \<exists>t'. count_page n t = Some (ok (card {k \<in> H. within (lo G n) (hi G n) k}, t')) \<and> page_view t' = page_view t \<and> store_inv t' \<and> conf t' = conf t"
proof (induction "lev G n" arbitrary: n t rule: less_induct)
  case less
  obtain p where p: "page_view t n = Some p" using less.prems(3) by auto
  obtain t1 where t1: "loadPage n t = ok (p, t1)" "store_inv t1" "page_view t1 = page_view t" "conf t1 = conf t"
    using ps.load_view [OF less.prems(2) p] by auto
  show ?case
  proof (cases "is_node p")
    case True
    note w = wf_nodeD [OF less.prems(1) p True, unfolded node_ok_def]
    let ?g = "\<lambda>c. card {k \<in> H. within (lo G c) (hi G c) k}" and ?S = "slots (lo G n) (hi G n) (leftp p) (nentries p)"
    have cs: "leftp p # map snd (nentries p) = map (\<lambda>(a, c, b). c) ?S" by (simp add: slots_children)
    have IH: "\<exists>t'. count_page c u = Some (ok (?g c, t')) \<and> page_view t' = page_view t \<and> store_inv t' \<and> conf t' = conf u"
      if "c \<in> set (leftp p # map snd (nentries p))" "page_view u = page_view t" "store_inv u" for c u
      using less.hyps [of c u] child_slotD [OF less.prems(1) p True, of c] that less.prems(1,4) by (auto simp: children_def)
    obtain t' where t':
        "sum_children count_page (leftp p # map snd (nentries p)) 0 t1 = Some (ok (sum_list (map ?g (map (\<lambda>(a, c, b). c) ?S)), t'))"
        "page_view t' = page_view t" "store_inv t'" "conf t' = conf t"
      using sum_children_sum [of "leftp p # map snd (nentries p)" "page_view t" count_page ?g t1 0, OF IH t1(3,2)] t1(4) unfolding cs by auto
    have slot: "?g (case s of (a, c, b) \<Rightarrow> c) = (case s of (x, c, y) \<Rightarrow> card {k \<in> H. within x y k})" if "s \<in> set ?S" for s
    proof -
      have "slot_ok (dom (page_view t)) G n s" using w that by blast
      then show ?thesis by (cases s) (simp add: slot_ok_def)
    qed
    have g: "map ?g (map (\<lambda>(a, c, b). c) ?S) = map (\<lambda>(x, c, y). card {k \<in> H. within x y k}) ?S"
      unfolding map_map comp_def by (rule map_cong [OF refl slot])
    have fin: "finite H" "sorted_keys (nentries p)" "keys_between (lo G n) (hi G n) (nentries p)"
      using finite_held [OF less.prems(2)] w less.prems(4) by auto
    have "sum_list (map ?g (map (\<lambda>(a, c, b). c) ?S)) = card {k \<in> H. within (lo G n) (hi G n) k}"
      unfolding g by (rule slots_card [OF fin])
    moreover have "count_page n t = sum_children count_page (leftp p # map snd (nentries p)) 0 t1"
      using t1(1) True by (subst count_page.simps) simp
    ultimately show ?thesis using t' by (simp only:) simp
  next
    case False
    have "sorted_keys (lentries p)" using wf_leafD [OF less.prems(1) p False] by (simp add: leaf_ok_def)
    then have "distinct (map fst (lentries p))" by (auto simp: sorted_keys_def strict_sorted_iff)
    then have "card (fst ` set (lentries p)) = length (lentries p)" using distinct_card by fastforce
    moreover have "{k \<in> H. within (lo G n) (hi G n) k} = fst ` set (lentries p)"
      using holds_leaf_key [OF less.prems(1) p False] wf_leafD [OF less.prems(1) p False] unfolding less.prems(4) leaf_ok_def by blast
    ultimately show ?thesis using t1 False by (subst count_page.simps) (simp add: pcount_def)
  qed
qed

lemma count_represents:
  assumes "represents t m"
  shows "\<exists>t'. bt_count t = Some (ok (card (dom m), t')) \<and> represents t' m"
proof -
  obtain G where G: "tree_inv t G 0" "\<And>k v. holds (page_view t) k v \<longleftrightarrow> m k = Some v" using assms by (auto simp: represents_def)
  have I: "wf_tree (page_view t) G" "store_inv t" using G(1) by (auto simp: tree_inv_def)
  have r: "1 \<in> dom (page_view t)" "lo G 1 = None" "hi G 1 = None" using I(1) by (auto simp: wf_tree_def)
  have "{k. \<exists>v. holds (page_view t) k v} = dom m" using G(2) by auto
  then obtain t' where "count_page 1 t = Some (ok (card {k \<in> dom m. within None None k}, t'))" "page_view t' = page_view t" "store_inv t'" "conf t' = conf t"
    using count_page_card [OF I r(1) refl] unfolding r(2,3) by auto
  moreover have "{k \<in> dom m. within None None k} = dom m" by (auto simp: within_def)
  ultimately show ?thesis using represents_conf [OF assms] by (auto simp: bt_count_def)
qed

section \<open>The file\<close>

text \<open>Writing back a cached page does not change what the tree sees.\<close>

lemma flush_one:
  assumes "store_inv t" "\<not> readOnly t" "map_of (cache t) n = Some i"
  defines "t1 \<equiv> t\<lparr>file_pages := (file_pages t)[n - 1 := ipage i]\<rparr>"
  defines "t2 \<equiv> t1\<lparr>cache := AList.update n (i\<lparr>dirty := False\<rparr>) (cache t1)\<rparr>"
  shows "savePage_file (ipage i) t = ok t1" "store_inv t2" "page_view t2 = page_view t" "conf t2 = conf t" "file_head t2 = file_head t"
proof -
  have n: "0 < n" "n \<le> length (file_pages t)" using assms(1,3) unfolding store_inv_def by blast+
  have p: "page_view t n = Some (ipage i)" using assms(3) by (simp add: page_view_def)
  then have i: "pid (ipage i) = n" using ps.num_view [OF assms(1) p] by simp
  have s: "0 < page_size t" "file_head t = offset t" using assms(1) by (simp_all add: store_inv_def)
  show "savePage_file (ipage i) t = ok t1"
    using n i s assms(2) by (auto simp: savePage_file_def pageOffset_def file_write_def t1_def Let_def)
  have c: "map_of (cache t2) = (map_of (cache t))(n \<mapsto> i\<lparr>dirty := False\<rparr>)" by (simp add: t2_def t1_def map_of_update)
  have f: "file_pages t2 = (file_pages t)[n - 1 := ipage i]" by (simp add: t2_def t1_def)
  show v: "page_view t2 = page_view t"
  proof
    fix m
    show "page_view t2 m = page_view t m"
    proof (cases "m = n")
      case True
      then show ?thesis using p by (simp add: page_view_def c)
    next
      case False
      then have "0 < m \<Longrightarrow> m - 1 \<noteq> n - 1" using n(1) by linarith
      then have "0 < m \<Longrightarrow> file_pages t2 ! (m - 1) = file_pages t ! (m - 1)" by (metis f nth_list_update_neq)
      moreover have "length (file_pages t2) = length (file_pages t)" by (simp add: f)
      ultimately show ?thesis using False by (auto simp: page_view_def c split: option.split)
    qed
  qed
  show "conf t2 = conf t" "file_head t2 = file_head t" by (simp_all add: conf_def t2_def t1_def)
  have "0 < m \<and> m \<le> length (file_pages t2) \<and> (\<not> dirty j \<longrightarrow> file_pages t2 ! (m - 1) = ipage j)" if j: "map_of (cache t2) m = Some j" for m j
  proof (cases "m = n")
    case True
    then show ?thesis using j n by (auto simp: c f)
  next
    case False
    then have m: "0 < m" "m \<le> length (file_pages t)" "\<not> dirty j \<longrightarrow> file_pages t ! (m - 1) = ipage j"
      using assms(1) j c unfolding store_inv_def by auto
    then have "m - 1 \<noteq> n - 1" using n(1) False by linarith
    then show ?thesis using m by (simp add: f)
  qed
  moreover have "distinct (map fst (cache t2))" using assms(1) by (simp add: t2_def t1_def store_inv_def distinct_update)
  moreover have "page_size t2 = page_size t" "offset t2 = offset t" "file_head t2 = file_head t" "cacheReads t2 = cacheReads t" "cacheWrites t2 = cacheWrites t"
    by (simp_all add: t2_def t1_def)
  ultimately show "store_inv t2" using assms(1) v unfolding store_inv_def by simp
qed

lemma flush_pages_inv:
  "store_inv t \<Longrightarrow> \<not> readOnly t \<Longrightarrow> distinct (map fst is) \<Longrightarrow> \<forall>(n, i) \<in> set is. map_of (cache t) n = Some i \<Longrightarrow>
   \<exists>t'. flush_pages is t = ok t' \<and> store_inv t' \<and> page_view t' = page_view t \<and> conf t' = conf t \<and> file_head t' = file_head t \<and>
     dom (map_of (cache t')) = dom (map_of (cache t)) \<and>
     (\<forall>n i. map_of (cache t') n = Some i \<longrightarrow> dirty i \<longrightarrow> map_of (cache t) n = Some i \<and> n \<notin> fst ` set is)"
proof (induction "is" arbitrary: t)
  case (Cons x xs)
  obtain n i where x: "x = (n, i)" by (cases x)
  have i: "map_of (cache t) n = Some i" using Cons.prems(4) x by simp
  show ?case
  proof (cases "dirty i")
    case True
    let ?t1 = "t\<lparr>file_pages := (file_pages t)[n - 1 := ipage i]\<rparr>"
    let ?t2 = "?t1\<lparr>cache := AList.update n (i\<lparr>dirty := False\<rparr>) (cache ?t1)\<rparr>"
    note f = flush_one [OF Cons.prems(1,2) i]
    have c: "map_of (cache ?t2) = (map_of (cache t))(n \<mapsto> i\<lparr>dirty := False\<rparr>)" by (simp add: map_of_update)
    have "\<forall>(m, j) \<in> set xs. map_of (cache ?t2) m = Some j" unfolding c using Cons.prems(3,4) x by force
    from Cons.IH [OF f(2) _ _ this] obtain t' where t': "flush_pages xs ?t2 = ok t'" "store_inv t'" "page_view t' = page_view t" "conf t' = conf t"
        "file_head t' = file_head t" "dom (map_of (cache t')) = dom (map_of (cache ?t2))"
        "\<And>m j. map_of (cache t') m = Some j \<Longrightarrow> dirty j \<Longrightarrow> map_of (cache ?t2) m = Some j \<and> m \<notin> fst ` set xs"
      using Cons.prems(2,3) f(3-5) x by auto
    have "flush_pages (x # xs) t = ok t'" using f(1) t'(1) True x by simp
    moreover have "dom (map_of (cache t')) = dom (map_of (cache t))" using t'(6) i unfolding c by auto
    moreover have "map_of (cache t) m = Some j \<and> m \<notin> fst ` set (x # xs)" if "map_of (cache t') m = Some j" "dirty j" for m j
      using t'(7) [OF that] that(2) x unfolding c by (auto split: if_splits)
    ultimately show ?thesis using t'(2-5) by blast
  next
    case False
    obtain t' where t': "flush_pages xs t = ok t'" "store_inv t'" "page_view t' = page_view t" "conf t' = conf t"
        "file_head t' = file_head t" "dom (map_of (cache t')) = dom (map_of (cache t))"
        "\<And>m j. map_of (cache t') m = Some j \<Longrightarrow> dirty j \<Longrightarrow> map_of (cache t) m = Some j \<and> m \<notin> fst ` set xs"
      using Cons.IH [OF Cons.prems(1,2)] Cons.prems(3,4) by auto
    have "map_of (cache t) m = Some j \<and> m \<notin> fst ` set (x # xs)" if "map_of (cache t') m = Some j" "dirty j" for m j
      using t'(7) [OF that] that(2) x i False by auto
    moreover have "flush_pages (x # xs) t = ok t'" using t'(1) False x by simp
    ultimately show ?thesis using t'(2-6) by blast
  qed
qed auto

lemma destroy_pages:
  assumes "store_inv t" "\<not> readOnly t"
  shows "\<exists>ps. bt_destroy t = ok (file_head t, ps) \<and> 
    (\<forall>n. page_view t n = (if 0 < n \<and> n \<le> length ps then Some (ps ! (n - 1)) else None))"
proof -
  let ?is = "sort_key fst (cache t)"
  have d: "distinct (map fst ?is)" "\<forall>(n, i) \<in> set ?is. map_of (cache t) n = Some i"
    using assms(1) by (auto simp: store_inv_def distinct_map intro: inj_onI dest: inj_onD)
  obtain t' where t': "flush_pages ?is t = ok t'" "store_inv t'" "page_view t' = page_view t" "file_head t' = file_head t" "dom (map_of (cache t')) = dom (map_of (cache t))"
      "\<And>n i. map_of (cache t') n = Some i \<Longrightarrow> dirty i \<Longrightarrow> map_of (cache t) n = Some i \<and> n \<notin> fst ` set ?is"
    using flush_pages_inv [OF assms d] by auto
  have clean: "\<not> dirty i" if "map_of (cache t') n = Some i" for n i
    using t'(5,6) that by (metis domI dom_map_of_conv_image_fst set_sort)
  have v: "page_view t' n = (if 0 < n \<and> n \<le> length (file_pages t') then Some (file_pages t' ! (n - 1)) else None)" for n
  proof (cases "map_of (cache t') n")
    case (Some i)
    then have "0 < n" "n \<le> length (file_pages t')" "file_pages t' ! (n - 1) = ipage i"
      using t'(2) clean [OF Some] unfolding store_inv_def by blast+
    then show ?thesis using Some by (simp add: page_view_def)
  qed (simp add: page_view_def)
  have "bt_destroy t = ok (file_head t, file_pages t')" using t'(1,4) by (simp add: bt_destroy_def bt_flush_def)
  then show ?thesis using v unfolding t'(3) by blast
qed

text \<open>Opening the file again gives the same pages.\<close>

lemma reopen_represents:
  assumes "represents t m" "bt_destroy t = ok (h, ps)"
  shows "\<exists>t'. BTree (page_size t) (maxNodeEntries t) (maxLeafEntries t) ro (offset t) h ps = ok t' \<and> store_inv t' \<and> page_view t' = page_view t \<and>
    readOnly t' = ro \<and> (\<not> ro \<longrightarrow> represents t' m)"
proof -
  have I: "store_inv t" "sizes_ok t" "1 \<in> dom (page_view t)" using assms(1) by (auto simp: represents_def tree_inv_def wf_tree_def)
  have ro: "\<not> readOnly t" using I(2) by (simp add: sizes_ok_def)
  have h: "h = offset t" and v: "\<And>n. page_view t n = (if 0 < n \<and> n \<le> length ps then Some (ps ! (n - 1)) else None)"
    using destroy_pages [OF I(1) ro] assms(2) I(1) by (auto simp: store_inv_def)
  have s: "0 < page_size t" using I(1) by (simp add: store_inv_def)
  have "ps \<noteq> []" using I(3) v [of 1] by (auto split: if_splits)
  define t' where "t' = \<lparr>file_head = h, file_pages = ps, page_size = page_size t, maxNodeEntries = maxNodeEntries t,
    maxLeafEntries = maxLeafEntries t, offset = offset t, readOnly = ro, cacheReads = True, cacheWrites = True, cache = []\<rparr>"
  have "BTree (page_size t) (maxNodeEntries t) (maxLeafEntries t) ro (offset t) h ps = ok t'"
    using s h \<open>ps \<noteq> []\<close> by (simp add: BTree_def seekEnd_def t'_def)
  moreover have v': "page_view t' = page_view t" using v by (simp add: fun_eq_iff page_view_def t'_def)
  moreover have "store_inv t'"
  proof -
    have "pid p = n" if "page_view t' n = Some p" for n p using that ps.num_view [OF I(1), of n p] unfolding v' by simp
    then show ?thesis using s h by (simp add: store_inv_def t'_def)
  qed
  moreover have "represents t' m" if "\<not> ro"
    by (rule represents_conf [OF assms(1) v' \<open>store_inv t'\<close>]) (use ro that in \<open>simp add: conf_def t'_def\<close>)
  ultimately show ?thesis by (auto simp: t'_def)
qed

section \<open>Sequences of insertions\<close>

fun bt_sets :: "('k :: linorder \<times> 'v) list \<Rightarrow> ('k, 'v) btree \<Rightarrow> ('k, 'v) btree comp" where
  "bt_sets [] t = Some (ok t)"
| "bt_sets ((k, v) # kvs) t = cbind (bt_set k v t) (\<lambda>(replaced, t). bt_sets kvs t)"

lemma sets_represents:
  "represents t m \<Longrightarrow> \<exists>t'. bt_sets kvs t = Some (ok t') \<and> represents t' (m ++ map_of (rev kvs)) \<and> conf t' = conf t"
proof (induction kvs arbitrary: t m)
  case (Cons kv kvs)
  obtain k v where kv: "kv = (k, v)" by (cases kv)
  obtain t1 where t1: "bt_set k v t = Some (ok (k \<in> dom m, t1))" "represents t1 (m(k \<mapsto> v))" "conf t1 = conf t"
    using set_represents [OF Cons.prems, of k v] by auto
  have e: "m(k \<mapsto> v) ++ map_of (rev kvs) = m ++ map_of (rev (kv # kvs))" by (simp add: kv map_add_assoc [symmetric])
  have "bt_sets (kv # kvs) t = bt_sets kvs t1" using t1(1) kv by simp
  then show ?case using Cons.IH [OF t1(2)] t1(3) unfolding e by simp
qed simp

lemma built_represents:
  assumes "0 < s" "3 < maxNode" "3 < maxLeaf"
  shows "\<exists>t0 t. BTree s maxNode maxLeaf False offs offs [] = ok t0 \<and> bt_sets kvs t0 = Some (ok t) \<and> represents t (map_of (rev kvs)) \<and>
    conf t = (s, maxNode, maxLeaf, offs, False)"
proof -
  obtain t0 where t0: "BTree s maxNode maxLeaf False offs offs [] = ok t0" "represents t0 (Map.empty :: 'a \<rightharpoonup> 'b)"
    using new_represents [OF assms] by blast
  have "conf t0 = (s, maxNode, maxLeaf, offs, False)"
    using t0(1) assms(1) by (auto simp: BTree_def newPage_def newPage_file_def pageOffset_def seekEnd_def Let_def conf_def)
  then show ?thesis using t0 sets_represents [OF t0(2), of kvs] by auto
qed

section \<open>Properties\<close>

text \<open>
  C1. The B+ tree is a map. For every page size and every capacity of the pages above three, any sequence of insertions
  into a tree on an empty file returns, without an error and whatever splits of leaves, nodes and the root it causes.
  Afterwards \<open>get\<close> finds for every key the value inserted last, and nothing for other keys, \<open>count\<close> is the number of
  keys, and the next insertion tells whether its key was there.
\<close>

theorem BTree_is_map:
  assumes "0 < s" "3 < maxNode" "3 < maxLeaf"
  shows "\<exists>t0 t. BTree s maxNode maxLeaf False offs offs [] = ok t0 \<and> bt_sets kvs t0 = Some (ok t) \<and>
    (\<forall>k. \<exists>t'. bt_get k t = Some (ok (map_of (rev kvs) k, t'))) \<and>
    (\<exists>t'. bt_count t = Some (ok (card (fst ` set kvs), t'))) \<and>
    (\<forall>k v. \<exists>t'. bt_set k v t = Some (ok (k \<in> fst ` set kvs, t')))"
proof -
  obtain t0 t where t: "BTree s maxNode maxLeaf False offs offs [] = ok t0" "bt_sets kvs t0 = Some (ok t)" "represents t (map_of (rev kvs))"
    using built_represents [OF assms] by blast
  have d: "dom (map_of (rev kvs)) = fst ` set kvs" by (simp add: dom_map_of_conv_image_fst)
  have "\<exists>t'. bt_get k t = Some (ok (map_of (rev kvs) k, t'))" for k using get_represents [OF t(3), of k] by blast
  moreover have "\<exists>t'. bt_count t = Some (ok (card (fst ` set kvs), t'))" using count_represents [OF t(3)] unfolding d by blast
  moreover have "\<exists>t'. bt_set k v t = Some (ok (k \<in> fst ` set kvs, t'))" for k v using set_represents [OF t(3), of k v] unfolding d by blast
  ultimately show ?thesis using t(1,2) by blast
qed

theorem BTree_is_map_witness:
  "\<exists>t0 t. BTree 4096 4 4 False 0 0 [] = ok t0 \<and>
    bt_sets [(3, CHR ''a''), (1, CHR ''b''), (2, CHR ''c''), (3, CHR ''d''), (7, CHR ''e'')] t0 = Some (ok t) \<and>
    (\<exists>t'. bt_get (3 :: nat) t = Some (ok (Some CHR ''d'', t'))) \<and> (\<exists>t'. bt_count t = Some (ok (4, t')))"
proof -
  define kvs where "kvs = [(3 :: nat, CHR ''a''), (1, CHR ''b''), (2, CHR ''c''), (3, CHR ''d''), (7, CHR ''e'')]"
  have size: "0 < (4096 :: nat)" "3 < (4 :: nat)" by simp_all
  have "map_of (rev kvs) 3 = Some CHR ''d''" "card (fst ` set kvs) = 4" by (simp_all add: kvs_def card_insert_if)
  then show ?thesis unfolding kvs_def [symmetric] using BTree_is_map [OF size size(2), of 0 kvs] by metis
qed

text \<open>
  C15. What was inserted survives the destructor: the destructor writes back every page changed in the cache, and a tree opened on
  the file it leaves, read-only or not, with any pages in the cache still to be loaded, finds the same values.
\<close>

theorem BTree_survives_reopening:
  assumes "0 < s" "3 < maxNode" "3 < maxLeaf"
  shows "\<exists>t0 t h pages t1. BTree s maxNode maxLeaf False offs offs [] = ok t0 \<and> bt_sets kvs t0 = Some (ok t) \<and>
    bt_destroy t = ok (h, pages) \<and> BTree s maxNode maxLeaf ro offs h pages = ok t1 \<and>
    (\<forall>k. \<exists>t'. bt_get k t1 = Some (ok (map_of (rev kvs) k, t')))"
proof -
  obtain t0 t where t: "BTree s maxNode maxLeaf False offs offs [] = ok t0" "bt_sets kvs t0 = Some (ok t)" "represents t (map_of (rev kvs))"
      "conf t = (s, maxNode, maxLeaf, offs, False)"
    using built_represents [OF assms] by blast
  obtain G where G: "tree_inv t G 0" "\<And>k v. holds (page_view t) k v \<longleftrightarrow> map_of (rev kvs) k = Some v" using t(3) by (auto simp: represents_def)
  obtain h pages where d: "bt_destroy t = ok (h, pages)"
    using destroy_pages [of t] G(1) by (auto simp: tree_inv_def sizes_ok_def)
  obtain t1 where t1: "BTree s maxNode maxLeaf ro offs h pages = ok t1" "store_inv t1" "page_view t1 = page_view t"
    using reopen_represents [OF t(3) d, of ro] t(4) by (auto simp: conf_def)
  have "\<exists>t'. bt_get k t1 = Some (ok (map_of (rev kvs) k, t'))" for k
  proof -
    obtain r t' where "bt_get k t1 = Some (ok (r, t'))" "\<forall>v. r = Some v \<longleftrightarrow> map_of (rev kvs) k = Some v"
      using get_holds [OF _ t1(2), of G k] G unfolding t1(3) by (auto simp: tree_inv_def)
    moreover from this(2) have "r = map_of (rev kvs) k" by (metis option.exhaust)
    ultimately show ?thesis by blast
  qed
  then show ?thesis using t(1,2) d t1(1) by blast
qed

theorem BTree_survives_reopening_witness:
  "\<exists>t0 t h pages t1 t'. BTree 512 4 4 False 16 16 [] = ok t0 \<and> bt_sets [(1, True), (2 :: nat, False)] t0 = Some (ok t) \<and>
    bt_destroy t = ok (h, pages) \<and> BTree 512 4 4 True 16 h pages = ok t1 \<and> bt_get 2 t1 = Some (ok (Some False, t'))"
proof -
  define kvs where "kvs = [(1, True), (2 :: nat, False)]"
  have size: "0 < (512 :: nat)" "3 < (4 :: nat)" by simp_all
  have "map_of (rev kvs) 2 = Some False" by (simp add: kvs_def)
  then show ?thesis unfolding kvs_def [symmetric] using BTree_survives_reopening [OF size size(2), of 16 kvs True] by metis
qed

text \<open>
  C16. A range search returns, and what it collects is sorted by key. When the first key is in the tree it collects exactly the
  entries from the first to the second key, across the links between leaves; otherwise it collects them all or none.
\<close>

theorem BTree_range_collects:
  assumes "0 < s" "3 < maxNode" "3 < maxLeaf"
  shows "\<exists>t0 t es t'. BTree s maxNode maxLeaf False offs offs [] = ok t0 \<and> bt_sets kvs t0 = Some (ok t) \<and>
    bt_range k1 k2 t = Some (ok (es, t')) \<and> sorted_wrt (<) (map fst es) \<and>
    (k1 \<in> fst ` set kvs \<or> es \<noteq> [] \<longrightarrow> (\<forall>k v. (k, v) \<in> set es \<longleftrightarrow> map_of (rev kvs) k = Some v \<and> k1 \<le> k \<and> k \<le> k2))"
proof -
  obtain t0 t where t: "BTree s maxNode maxLeaf False offs offs [] = ok t0" "bt_sets kvs t0 = Some (ok t)" "represents t (map_of (rev kvs))"
    using built_represents [OF assms] by blast
  have d: "dom (map_of (rev kvs)) = fst ` set kvs" by (simp add: dom_map_of_conv_image_fst)
  obtain es t' where es: "bt_range k1 k2 t = Some (ok (es, t'))" "es = [] \<or> entries_between (map_of (rev kvs)) k1 k2 es"
      "k1 \<in> fst ` set kvs \<longrightarrow> entries_between (map_of (rev kvs)) k1 k2 es"
    using range_represents [OF t(3), of k1 k2] unfolding d by blast
  have "sorted_wrt (<) (map fst es)" using es(2) by (auto simp: entries_between_def)
  then show ?thesis using t(1,2) es unfolding entries_between_def by blast
qed

theorem BTree_range_collects_witness:
  "\<exists>t0 t es t'. BTree 512 4 4 False 0 0 [] = ok t0 \<and> bt_sets [(4, True), (2 :: nat, False)] t0 = Some (ok t) \<and>
    bt_range 2 5 t = Some (ok (es, t')) \<and> set es = {(2, False), (4, True)}"
proof -
  define kvs where "kvs = [(4, True), (2 :: nat, False)]"
  have size: "0 < (512 :: nat)" "3 < (4 :: nat)" by simp_all
  obtain t0 t es t' where t: "BTree 512 4 4 False 0 0 [] = ok t0" "bt_sets kvs t0 = Some (ok t)" "bt_range 2 5 t = Some (ok (es, t'))"
      "2 \<in> fst ` set kvs \<or> es \<noteq> [] \<longrightarrow> (\<forall>k v. (k, v) \<in> set es \<longleftrightarrow> map_of (rev kvs) k = Some v \<and> 2 \<le> k \<and> k \<le> 5)"
    using BTree_range_collects [OF size size(2), of 0 kvs 2 5] by blast
  have "2 \<in> fst ` set kvs" by (simp add: kvs_def)
  then have "x \<in> set es \<longleftrightarrow> map_of (rev kvs) (fst x) = Some (snd x) \<and> 2 \<le> fst x \<and> fst x \<le> 5" for x using t(4) by (cases x) simp
  then have "set es = {(2, False), (4, True)}" by (auto simp: kvs_def split: if_splits)
  then show ?thesis unfolding kvs_def [symmetric] using t(1-3) by blast
qed


end
