(* ===== verification/Eckit_Memory.thy ===== *)
theory Eckit_Memory
  imports Eckit_Prelude
begin

text \<open>
  Blocks of memory and the handles on them: \<^verbatim>\<open>Buffer\<close> of \<^verbatim>\<open>src/eckit/io/Buffer.{h,cc}\<close> and \<^verbatim>\<open>MemoryHandle\<close> of
  \<^verbatim>\<open>src/eckit/io/MemoryHandle.{h,cc}\<close>.  A block is the list of its bytes; what freshly allocated memory holds is the
  parameter \<open>fresh\<close>, and a copy beyond the end of a block is the error \<^const>\<open>OutOfBounds\<close>.  Sizes are natural numbers:
  the code computes them in \<^verbatim>\<open>size_t\<close>, and no block comes near that bound.

  The two locales at the start state what a client may rely on when it writes bytes to a device or reads them from
  one.  Memory handles here and the streams of the theory on serialisation interpret them.
\<close>

type_synonym byte = "8 word"
type_synonym bytes = "8 word list"

section \<open>Buffer\<close>

record buffer =
  block :: "bytes option"
  bsize :: nat

definition allocate :: "(nat \<Rightarrow> byte) \<Rightarrow> nat \<Rightarrow> bytes option" where
  "allocate fresh n = (if n = 0 then None else Some (map fresh [0..<n]))"

definition create :: "(nat \<Rightarrow> byte) \<Rightarrow> buffer \<Rightarrow> buffer" where
  "create fresh b = b\<lparr>block := allocate fresh (bsize b)\<rparr>"

definition destroy :: "buffer \<Rightarrow> buffer" where
  "destroy b = b\<lparr>block := None, bsize := 0\<rparr>"

definition Buffer :: "(nat \<Rightarrow> byte) \<Rightarrow> nat \<Rightarrow> buffer" where
  "Buffer fresh n = create fresh \<lparr>block = None, bsize = n\<rparr>"

definition copy :: "bytes \<Rightarrow> nat \<Rightarrow> buffer \<Rightarrow> buffer result" where
  "copy p at b =
     ASSERT (bsize b \<ge> at + length p)
       (case block b of
          Some m \<Rightarrow> if length p > 0 then ok (b\<lparr>block := Some (memcpy m at p (length p))\<rparr>) else ok b
        | None \<Rightarrow> ok b)"

definition Buffer_bytes :: "(nat \<Rightarrow> byte) \<Rightarrow> bytes \<Rightarrow> buffer result" where
  "Buffer_bytes fresh p = copy p 0 (create fresh \<lparr>block = None, bsize = length p\<rparr>)"

text \<open>\<^verbatim>\<open>strncpy\<close> stops at the first zero byte and fills the rest of its \<open>n\<close> bytes with zeros.\<close>

definition strncpy :: "bytes \<Rightarrow> bytes \<Rightarrow> nat \<Rightarrow> bytes" where
  "strncpy dst src n =
     (let str = take n (takeWhile (\<lambda>c. c \<noteq> 0) src) in memcpy dst 0 (str @ replicate (n - length str) 0) n)"

definition copy_string :: "bytes \<Rightarrow> buffer \<Rightarrow> buffer" where
  "copy_string s b =
     (case block b of
        Some m \<Rightarrow> b\<lparr>block := Some (strncpy m (s @ [0]) (min (bsize b) (length s + 1)))\<rparr>
      | None \<Rightarrow> b)"

definition Buffer_string :: "(nat \<Rightarrow> byte) \<Rightarrow> bytes \<Rightarrow> buffer" where
  "Buffer_string fresh s = copy_string s (create fresh \<lparr>block = None, bsize = length s + 1\<rparr>)"

text \<open>Moving a buffer returns the new buffer and what is left of the old one.\<close>

definition Buffer_move :: "buffer \<Rightarrow> buffer \<times> buffer" where
  "Buffer_move rhs = (\<lparr>block = block rhs, bsize = bsize rhs\<rparr>, rhs\<lparr>block := None, bsize := 0\<rparr>)"

definition Buffer_assign :: "buffer \<Rightarrow> buffer \<Rightarrow> buffer \<times> buffer" where
  "Buffer_assign b rhs = (b\<lparr>block := block rhs, bsize := bsize rhs\<rparr>, rhs\<lparr>block := None, bsize := 0\<rparr>)"

definition zero :: "buffer \<Rightarrow> buffer" where
  "zero b = (case block b of Some m \<Rightarrow> b\<lparr>block := Some (replicate (bsize b) 0)\<rparr> | None \<Rightarrow> b)"

definition resize :: "(nat \<Rightarrow> byte) \<Rightarrow> nat \<Rightarrow> bool \<Rightarrow> buffer \<Rightarrow> buffer" where
  "resize fresh n preserveData b =
     (if n \<noteq> bsize b then
        if preserveData then
          let newbuffer = map_option (\<lambda>m. memcpy m 0 (case block b of Some old \<Rightarrow> old | None \<Rightarrow> []) (min (bsize b) n)) (allocate fresh n)
          in b\<lparr>bsize := n, block := newbuffer\<rparr>
        else b\<lparr>bsize := n, block := allocate fresh n\<rparr>
      else b)"

section \<open>MemoryHandle\<close>

record mhandle =
  address :: bytes
  hsize :: nat
  capacity :: nat
  opened :: bool
  readOnly :: bool
  reading :: bool
  grow :: bool
  owned :: bool
  position :: nat

definition MemoryHandle_const :: "bytes \<Rightarrow> mhandle" where
  "MemoryHandle_const m =
     \<lparr>address = m, hsize = length m, capacity = length m, opened = False, readOnly = True, reading = False, grow = False,
      owned = False, position = 0\<rparr>"

definition MemoryHandle_memory :: "bytes \<Rightarrow> mhandle" where
  "MemoryHandle_memory m =
     \<lparr>address = m, hsize = length m, capacity = length m, opened = False, readOnly = False, reading = False, grow = False,
      owned = False, position = 0\<rparr>"

definition view :: "buffer \<Rightarrow> bytes" where
  "view b = (case block b of Some m \<Rightarrow> m | None \<Rightarrow> [])"

definition MemoryHandle_const_Buffer :: "buffer \<Rightarrow> mhandle" where
  "MemoryHandle_const_Buffer b =
     \<lparr>address = view b, hsize = bsize b, capacity = bsize b, opened = False, readOnly = True, reading = False, grow = False,
      owned = False, position = 0\<rparr>"

definition MemoryHandle_Buffer :: "buffer \<Rightarrow> mhandle" where
  "MemoryHandle_Buffer b =
     \<lparr>address = view b, hsize = bsize b, capacity = bsize b, opened = False, readOnly = False, reading = False, grow = False,
      owned = False, position = 0\<rparr>"

definition MemoryHandle :: "(nat \<Rightarrow> byte) \<Rightarrow> nat \<Rightarrow> bool \<Rightarrow> mhandle" where
  "MemoryHandle fresh n growing =
     \<lparr>address = map fresh [0..<n], hsize = 0, capacity = n, opened = False, readOnly = False, reading = False, grow = growing,
      owned = True, position = 0\<rparr>"

definition openForRead :: "mhandle \<Rightarrow> nat \<times> mhandle" where
  "openForRead h = (hsize h, h\<lparr>reading := True, position := 0, opened := True\<rparr>)"

definition openForWrite :: "mhandle \<Rightarrow> mhandle result" where
  "openForWrite h = ASSERT (\<not> readOnly h) (ok (h\<lparr>reading := False, position := 0, opened := True\<rparr>))"

definition openForAppend :: "mhandle \<Rightarrow> mhandle result" where
  "openForAppend h = throw NotImplemented"

definition mh_position :: "mhandle \<Rightarrow> nat result" where
  "mh_position h = ASSERT (opened h) (ok (position h))"

text \<open>A negative offset becomes a \<^verbatim>\<open>size_t\<close> above every size.\<close>

definition mh_seek :: "int \<Rightarrow> mhandle \<Rightarrow> (nat \<times> mhandle) result" where
  "mh_seek off h =
     ASSERT (opened h) (ASSERT (0 \<le> off \<and> nat off \<le> hsize h) (ok (nat off, h\<lparr>position := nat off\<rparr>)))"

definition mh_skip :: "int \<Rightarrow> mhandle \<Rightarrow> mhandle result" where
  "mh_skip len h =
     ASSERT (reading h) (rbind (mh_position h) (\<lambda>p. rbind (mh_seek (int p + len) h) (\<lambda>(_, h). ok h)))"

definition mh_read :: "int \<Rightarrow> mhandle \<Rightarrow> (int \<times> bytes \<times> mhandle) result" where
  "mh_read len h =
     ASSERT (opened h) (ASSERT (reading h) (ASSERT (len \<ge> 0)
       (let left = hsize h - position h;
            n = min left (nat len)
        in if position h + n > length (address h) then throw OutOfBounds
           else ok (int n, take n (drop (position h) (address h)), h\<lparr>position := position h + n\<rparr>))))"

definition mh_grow :: "(nat \<Rightarrow> byte) \<Rightarrow> nat \<Rightarrow> mhandle \<Rightarrow> mhandle" where
  "mh_grow fresh len h =
     (if grow h \<and> hsize h - position h < len then
        (let h1 = (if capacity h - position h < len then
                     let newcapacity = round_to (capacity h + len) (1024 * 1024)
                     in h\<lparr>address := memcpy (map fresh [0..<newcapacity]) 0 (address h) (position h), capacity := newcapacity\<rparr>
                   else h)
         in h1\<lparr>hsize := hsize h1 + len\<rparr>)
      else h)"

definition mh_write :: "(nat \<Rightarrow> byte) \<Rightarrow> bytes \<Rightarrow> mhandle \<Rightarrow> (int \<times> mhandle) result" where
  "mh_write fresh bs h =
     ASSERT (opened h) (ASSERT (\<not> reading h)
       (let h1 = mh_grow fresh (length bs) h;
            left = hsize h1 - position h1;
            n = min left (length bs)
        in if position h1 + n > length (address h1) then throw OutOfBounds
           else ok (int n, h1\<lparr>address := memcpy (address h1) (position h1) bs n, position := position h1 + n\<rparr>)))"

definition mh_close :: "mhandle \<Rightarrow> mhandle" where
  "mh_close h = h\<lparr>opened := False\<rparr>"

definition mh_flush :: "mhandle \<Rightarrow> mhandle" where
  "mh_flush h = h"



definition mh_estimate :: "mhandle \<Rightarrow> nat" where
  "mh_estimate h = hsize h"

definition mh_print :: "mhandle \<Rightarrow> string" where
  "mh_print h = ''MemoryHandle[size='' @ nat_to_string (hsize h) @ '']''"

definition mh_str :: "mhandle \<Rightarrow> bytes result" where
  "mh_str h = (if position h > length (address h) then throw OutOfBounds else ok (take (position h) (address h)))"

definition mh_clone :: "(nat \<Rightarrow> byte) \<Rightarrow> mhandle \<Rightarrow> mhandle result" where
  "mh_clone fresh h =
     (if owned h then
        let c = MemoryHandle fresh (hsize h) (grow h)
        in if hsize h > length (address h) then throw OutOfBounds
           else ok (c\<lparr>address := memcpy (address c) 0 (address h) (hsize h), hsize := hsize h\<rparr>)
      else if readOnly h then ok (MemoryHandle_const (take (hsize h) (address h)))
      else ok (MemoryHandle_memory (take (hsize h) (address h))))"

section \<open>Sinks and sources of bytes\<close>

text \<open>
  A sink with room for a block takes it whole and appends it to what it has taken; without room it reports a short count.
  A source hands out what is pending, as much as is asked for or is left.
\<close>

locale byte_sink =
  fixes wr :: "bytes \<Rightarrow> 'd \<Rightarrow> (int \<times> 'd) result"
    and fits :: "'d \<Rightarrow> nat \<Rightarrow> bool"
    and taken :: "'d \<Rightarrow> bytes"
    and good :: "'d \<Rightarrow> bool"
  assumes sink_write: "good d \<Longrightarrow> fits d (length bs) \<Longrightarrow>
      \<exists>d'. wr bs d = ok (int (length bs), d') \<and> good d' \<and> taken d' = taken d @ bs \<and> (\<forall>n. fits d' n \<longleftrightarrow> fits d (length bs + n))"
    and sink_short: "good d \<Longrightarrow> \<not> fits d (length bs) \<Longrightarrow> \<exists>n d'. wr bs d = ok (n, d') \<and> n < int (length bs)"
    and sink_less: "fits d (m + n) \<Longrightarrow> fits d m"
    and sink_none: "good d \<Longrightarrow> fits d 0"
begin

lemma sink_writes:
  "good d \<Longrightarrow> fits d (length (concat bss)) \<Longrightarrow>
   \<exists>d'. foldl (\<lambda>r bs. rbind r (\<lambda>d. rbind (wr bs d) (\<lambda>(_, d). ok d))) (ok d) bss = ok d' \<and> good d' \<and> taken d' = taken d @ concat bss"
proof (induction bss arbitrary: d)
  case (Cons bs bss)
  then have "fits d (length bs)" by (auto intro: sink_less)
  then obtain d' where d': "wr bs d = ok (int (length bs), d')" "good d'" "taken d' = taken d @ bs" "fits d' (length (concat bss))"
    using sink_write [OF Cons(2)] Cons(3) by auto
  then show ?case using Cons(1) [of d'] by simp
qed simp

end

locale byte_source =
  fixes rd :: "nat \<Rightarrow> 'd \<Rightarrow> (int \<times> bytes \<times> 'd) result"
    and pending :: "'d \<Rightarrow> bytes"
    and good :: "'d \<Rightarrow> bool"
  assumes source_read: "good d \<Longrightarrow>
      \<exists>d'. rd n d = ok (int (length (take n (pending d))), take n (pending d), d') \<and> good d' \<and> pending d' = drop n (pending d)"
begin

lemma source_reads:
  "good d \<Longrightarrow>
   \<exists>d'. foldl (\<lambda>r n. rbind r (\<lambda>(out, d). rbind (rd n d) (\<lambda>(_, bs, d). ok (out @ bs, d)))) (ok (out, d)) ns = ok (out @ take (sum_list ns) (pending d), d') \<and>
     good d' \<and> pending d' = drop (sum_list ns) (pending d)"
proof (induction ns arbitrary: d out)
  case (Cons n ns)
  obtain d' where d': "rd n d = ok (int (length (take n (pending d))), take n (pending d), d')" "good d'" "pending d' = drop n (pending d)"
    using source_read [OF Cons(2)] by blast
  then show ?case using Cons(1) [OF d'(2), of "out @ take n (pending d)"] by (simp add: take_add add.commute)
qed simp

end

section \<open>Buffers\<close>

text \<open>A buffer owns a block of exactly its size, and no block when it is empty.\<close>

definition buffer_inv :: "buffer \<Rightarrow> bool" where
  "buffer_inv b \<longleftrightarrow> (case block b of Some m \<Rightarrow> length m = bsize b \<and> 0 < bsize b | None \<Rightarrow> bsize b = 0)"

lemma length_memcpy: "off + n \<le> length dst \<Longrightarrow> n \<le> length src \<Longrightarrow> length (memcpy dst off src n) = length dst"
  by (simp add: memcpy_def)

lemma memcpy_all: "length p = n \<Longrightarrow> length dst = n \<Longrightarrow> memcpy dst 0 p n = p"
  by (simp add: memcpy_def)

lemma view_length: "buffer_inv b \<Longrightarrow> length (view b) = bsize b"
  by (auto simp: buffer_inv_def view_def split: option.splits)

lemma resize_spec:
  assumes "buffer_inv b"
  shows "buffer_inv (resize fresh n keep b)" "bsize (resize fresh n keep b) = n"
    "keep \<Longrightarrow> take (min (bsize b) n) (view (resize fresh n keep b)) = take n (view b)"
proof -
  have v: "length (case block b of Some old \<Rightarrow> old | None \<Rightarrow> []) = bsize b" using view_length [OF assms] by (simp add: view_def)
  show "buffer_inv (resize fresh n keep b)"
    using assms v by (auto simp: resize_def allocate_def buffer_inv_def Let_def memcpy_def split: option.splits)
  show "bsize (resize fresh n keep b) = n" by (simp add: resize_def Let_def)
  show "take (min (bsize b) n) (view (resize fresh n keep b)) = take n (view b)" if keep
    using that v view_length [OF assms]
    by (cases "n = bsize b") (auto simp: resize_def allocate_def view_def memcpy_def min_def split: option.splits)
qed

lemma copy_spec:
  assumes "buffer_inv b"
  shows "copy p at b = (if at + length p \<le> bsize b then ok (if p = [] then b else b\<lparr>block := Some (memcpy (view b) at p (length p))\<rparr>)
     else throw AssertionFailed)"
  using assms by (auto simp: copy_def ASSERT_def buffer_inv_def view_def split: option.splits)

section \<open>Memory handles\<close>

text \<open>
  The invariant of a handle whose memory is consistent.  Writing keeps it as long as growth only ever happens at the end of the
  data, which is how handles are used: opened for writing once, then written sequentially.
\<close>

definition mh_inv :: "mhandle \<Rightarrow> bool" where
  "mh_inv h \<longleftrightarrow> length (address h) = capacity h \<and> hsize h \<le> capacity h \<and> position h \<le> hsize h"

definition mh_fits :: "mhandle \<Rightarrow> nat \<Rightarrow> bool" where
  "mh_fits h n \<longleftrightarrow> grow h \<or> position h + n \<le> hsize h"

definition mh_writable :: "mhandle \<Rightarrow> bool" where
  "mh_writable h \<longleftrightarrow> mh_inv h \<and> opened h \<and> \<not> reading h \<and> (grow h \<longrightarrow> position h = hsize h)"

definition mh_readable :: "mhandle \<Rightarrow> bool" where
  "mh_readable h \<longleftrightarrow> mh_inv h \<and> opened h \<and> reading h"

definition mh_written :: "mhandle \<Rightarrow> bytes" where
  "mh_written h = take (position h) (address h)"

definition mh_pending :: "mhandle \<Rightarrow> bytes" where
  "mh_pending h = drop (position h) (take (hsize h) (address h))"

lemma mh_grow_spec:
  assumes "mh_writable h" "grow h"
  defines "g \<equiv> \<lambda>n fresh. mh_grow fresh n h"
  shows "mh_inv (g n fresh)" "position (g n fresh) = position h" "hsize (g n fresh) = hsize h + n"
    "take (position h) (address (g n fresh)) = take (position h) (address h)" "opened (g n fresh) = opened h"
    "reading (g n fresh) = reading h" "grow (g n fresh)"
proof -
  have r: "capacity h + n \<le> round_to (capacity h + n) (1024 * 1024)" by (rule round_to_ge) simp
  have c: "length (address h) = capacity h" "hsize h \<le> capacity h" "position h = hsize h" using assms by (simp_all add: mh_writable_def mh_inv_def)
  show "position (g n fresh) = position h" "hsize (g n fresh) = hsize h + n" "opened (g n fresh) = opened h"
    "reading (g n fresh) = reading h" "grow (g n fresh)"
    using c assms(2) by (auto simp: mh_grow_def g_def Let_def)
  show "mh_inv (g n fresh)" using c assms(2) r by (auto simp: mh_grow_def g_def Let_def mh_inv_def memcpy_def)
  show "take (position h) (address (g n fresh)) = take (position h) (address h)"
    using c assms(2) r by (auto simp: mh_grow_def g_def Let_def memcpy_def)
qed

lemma mh_write_spec:
  assumes "mh_writable h" "mh_fits h (length bs)"
  shows "\<exists>h'. mh_write fresh bs h = ok (int (length bs), h') \<and> mh_writable h' \<and> mh_written h' = mh_written h @ bs \<and>
     (\<forall>n. mh_fits h' n \<longleftrightarrow> mh_fits h (length bs + n))"
proof -
  define g where "g = mh_grow fresh (length bs) h"
  have g: "mh_inv g \<and> position g = position h \<and> position h + length bs \<le> hsize g \<and>
    take (position h) (address g) = take (position h) (address h) \<and> opened g \<and> \<not> reading g \<and> grow g = grow h \<and>
    (if grow h then position g + length bs = hsize g else hsize g = hsize h)"
  proof (cases "grow h")
    case True
    then show ?thesis using mh_grow_spec [OF assms(1) True] assms(1) by (simp add: g_def mh_writable_def)
  next
    case False
    then have "g = h" by (simp add: g_def mh_grow_def)
    then show ?thesis using assms False by (simp add: mh_writable_def mh_fits_def)
  qed
  let ?h = "g\<lparr>address := memcpy (address g) (position g) bs (length bs), position := position g + length bs\<rparr>"
  have l: "position g + length bs \<le> length (address g)" using g by (simp add: mh_inv_def)
  have "min (hsize g - position g) (length bs) = length bs" using g by auto
  then have "mh_write fresh bs h = ok (int (length bs), ?h)"
    using assms(1) l unfolding mh_write_def Let_def g_def [symmetric] by (simp add: mh_writable_def)
  moreover have "mh_writable ?h" using g l by (simp add: mh_writable_def mh_inv_def length_memcpy split: if_splits)
  moreover have "mh_written ?h = mh_written h @ bs" using assms(1) g l by (simp add: mh_written_def memcpy_def mh_writable_def mh_inv_def)
  moreover have "\<forall>n. mh_fits ?h n \<longleftrightarrow> mh_fits h (length bs + n)" using g by (simp add: mh_fits_def add.assoc split: if_splits)
  ultimately show ?thesis by blast
qed

lemma mh_read_spec:
  assumes "mh_readable h"
  shows "\<exists>h'. mh_read (int n) h = ok (int (length (take n (mh_pending h))), take n (mh_pending h), h') \<and> mh_readable h' \<and>
     mh_pending h' = drop n (mh_pending h)"
proof -
  define k where "k = min (hsize h - position h) n"
  have h: "opened h" "reading h" "length (address h) = capacity h" "hsize h \<le> capacity h" "position h \<le> hsize h"
    using assms by (simp_all add: mh_readable_def mh_inv_def)
  then have k: "position h + k \<le> hsize h" by (simp add: k_def)
  have l: "length (take n (mh_pending h)) = k" using h by (simp add: mh_pending_def k_def)
  have t: "take k (drop (position h) (address h)) = take n (mh_pending h)"
    using h by (simp add: mh_pending_def k_def drop_take min.commute)
  have "mh_read (int n) h = ok (int k, take n (mh_pending h), h\<lparr>position := position h + k\<rparr>)"
    using h k t by (simp add: mh_read_def k_def [symmetric])
  moreover have "mh_readable (h\<lparr>position := position h + k\<rparr>)" using h k by (simp add: mh_readable_def mh_inv_def)
  moreover have "mh_pending (h\<lparr>position := position h + k\<rparr>) = drop n (mh_pending h)"
    using h by (simp add: mh_pending_def k_def min_def add.commute)
  ultimately show ?thesis unfolding l by blast
qed

lemma mh_write_short:
  assumes "mh_writable h" "\<not> mh_fits h (length bs)"
  shows "\<exists>n h'. mh_write fresh bs h = ok (n, h') \<and> n < int (length bs)"
proof -
  have "mh_grow fresh (length bs) h = h" using assms(2) by (simp add: mh_fits_def mh_grow_def)
  moreover have "position h + min (hsize h - position h) (length bs) \<le> length (address h)"
    "min (hsize h - position h) (length bs) < length bs"
    using assms by (auto simp: mh_writable_def mh_inv_def mh_fits_def)
  ultimately show ?thesis using assms(1) unfolding mh_write_def Let_def by (simp add: mh_writable_def)
qed

interpretation mhs: byte_sink "mh_write fresh" mh_fits mh_written mh_writable
proof
  show "mh_fits h (m + n) \<Longrightarrow> mh_fits h m" for h m n by (auto simp: mh_fits_def)
  show "mh_writable h \<Longrightarrow> mh_fits h 0" for h by (simp add: mh_fits_def mh_writable_def mh_inv_def)
qed (use mh_write_spec mh_write_short in blast)+

interpretation mhr: byte_source "\<lambda>n. mh_read (int n)" mh_pending mh_readable
  by unfold_locales (rule mh_read_spec)

lemma mh_new_writable: "\<exists>h. openForWrite (MemoryHandle fresh n g) = ok h \<and> mh_writable h \<and> mh_written h = [] \<and> grow h = g"
  by (simp add: openForWrite_def MemoryHandle_def mh_writable_def mh_inv_def mh_written_def)

lemma mh_reopen:
  assumes "mh_writable h" "grow h"
  shows "mh_readable (snd (openForRead (mh_close h)))" "mh_pending (snd (openForRead (mh_close h))) = mh_written h"
    "fst (openForRead (mh_close h)) = length (mh_written h)"
  using assms by (simp_all add: openForRead_def mh_close_def mh_readable_def mh_writable_def mh_inv_def mh_pending_def mh_written_def)

lemma grow_mh_grow [simp]: "grow (mh_grow fresh n h) = grow h"
  by (simp add: mh_grow_def Let_def)

lemma mh_write_keeps_grow: "mh_write fresh bs h = ok (n, h') \<Longrightarrow> grow h' = grow h"
  unfolding mh_write_def Let_def by (auto simp: ASSERT_eq_Inr_iff split: if_splits)

lemma mh_writes_keep_grow:
  "foldl (\<lambda>r bs. rbind r (\<lambda>h. rbind (mh_write fresh bs h) (\<lambda>(_, h). ok h))) (ok h) bss = ok h' \<Longrightarrow> grow h' = grow h"
proof (induction bss arbitrary: h' rule: rev_induct)
  case (snoc bs bss)
  then show ?case by (auto simp: rbind_eq_Inr_iff dest: mh_write_keeps_grow)
qed simp

section \<open>Properties\<close>

text \<open>
  C27. A growing memory handle is a faithful store: opening a new handle for writing and writing any blocks to it succeeds
  whatever the initial size and whatever the blocks, every block being accepted in full, and after closing and opening for
  reading, \<^verbatim>\<open>openForRead\<close> reports the number of bytes written and reads of any sizes return the concatenation of the
  blocks in order, ending where the data ends.
\<close>
theorem MemoryHandle_roundtrip:
  "\<exists>h1 h2 h3 h4. openForWrite (MemoryHandle fresh n True) = ok h1 \<and>
     foldl (\<lambda>r bs. rbind r (\<lambda>h. rbind (mh_write fresh bs h) (\<lambda>(_, h). ok h))) (ok h1) bss = ok h2 \<and>
     openForRead (mh_close h2) = (length (concat bss), h3) \<and>
     foldl (\<lambda>r n. rbind r (\<lambda>(out, h). rbind (mh_read (int n) h) (\<lambda>(_, bs, h). ok (out @ bs, h)))) (ok ([], h3)) ns =
       ok (take (sum_list ns) (concat bss), h4)"
proof -
  obtain h1 where h1: "openForWrite (MemoryHandle fresh n True) = ok h1" "mh_writable h1" "mh_written h1 = []" "grow h1"
    using mh_new_writable by metis
  then have "mh_fits h1 (length (concat bss))" by (simp add: mh_fits_def)
  then obtain h2 where h2: "foldl (\<lambda>r bs. rbind r (\<lambda>h. rbind (mh_write fresh bs h) (\<lambda>(_, h). ok h))) (ok h1) bss = ok h2"
    "mh_writable h2" "mh_written h2 = concat bss"
    using mhs.sink_writes [OF h1(2)] h1(3) by auto
  have "grow h2" using mh_writes_keep_grow [OF h2(1)] h1(4) by simp
  note r = mh_reopen [OF h2(2) this]
  obtain h3 where h3: "openForRead (mh_close h2) = (length (concat bss), h3)" "mh_readable h3" "mh_pending h3 = concat bss"
    using r h2(3) by (cases "openForRead (mh_close h2)") auto
  then show ?thesis using h1(1) h2(1) mhr.source_reads [OF h3(2), of "[]" ns] by auto
qed


text \<open>
  A buffer always owns exactly as many bytes as its size says: construction, \<^verbatim>\<open>resize\<close>, \<^verbatim>\<open>zero\<close> and \<^verbatim>\<open>copy\<close> keep it so,
  resizing with preservation keeps the common prefix of the data, and \<^verbatim>\<open>copy\<close> either replaces exactly the addressed
  range or fails its assertion and writes nothing.
\<close>
theorem Buffer_operations:
  assumes "buffer_inv b"
  shows "buffer_inv (Buffer fresh n) \<and> buffer_inv (destroy b) \<and> buffer_inv (zero b) \<and> buffer_inv (resize fresh n keep b) \<and>
    bsize (resize fresh n keep b) = n \<and>
    (keep \<longrightarrow> take (min (bsize b) n) (view (resize fresh n keep b)) = take n (view b)) \<and>
    (case copy p at b of
       Inl e \<Rightarrow> e = AssertionFailed \<and> bsize b < at + length p
     | Inr b' \<Rightarrow> buffer_inv b' \<and> view b' = take at (view b) @ p @ drop (at + length p) (view b))"
proof -
  have "buffer_inv (Buffer fresh n)" "buffer_inv (destroy b)" "buffer_inv (zero b)"
    using assms by (auto simp: Buffer_def create_def allocate_def destroy_def zero_def buffer_inv_def split: option.splits)
  moreover have "case copy p at b of
       Inl e \<Rightarrow> e = AssertionFailed \<and> bsize b < at + length p
     | Inr b' \<Rightarrow> buffer_inv b' \<and> view b' = take at (view b) @ p @ drop (at + length p) (view b)"
    using assms view_length [OF assms] unfolding copy_spec [OF assms]
    by (auto simp: buffer_inv_def memcpy_def view_def split: option.splits)
  ultimately show ?thesis using resize_spec [OF assms] by simp
qed

theorem Buffer_operations_witness:
  "(case copy [7, 8] 1 \<lparr>block = Some [1, 2, 3], bsize = 3\<rparr> of Inl e \<Rightarrow> False | Inr b' \<Rightarrow> view b' = [1, 7, 8])"
proof -
  have inv: "buffer_inv \<lparr>block = Some [1, 2, 3], bsize = 3\<rparr>" by (simp add: buffer_inv_def)
  show ?thesis
    using Buffer_operations [OF inv, where p = "[7, 8]" and at = 1] by (auto simp: view_def split: sum.splits)
qed

end
