(* ===== verification/Eckit_Stream.thy ===== *)
theory Eckit_Stream
  imports Eckit_Memory
begin

text \<open>
  The typed binary streams of \<^verbatim>\<open>src/eckit/serialisation/\<close>: the class \<^verbatim>\<open>Stream\<close> (\<^verbatim>\<open>Stream.{h,cc}\<close>), which writes every
  value behind a tag byte and checks the tag when reading, the streams on memory (\<^verbatim>\<open>MemoryStream.cc\<close>,
  \<^verbatim>\<open>ResizableMemoryStream.cc\<close>) and on data handles (\<^verbatim>\<open>HandleStream.h\<close>), and the container operators of
  \<^verbatim>\<open>src/eckit/types/Types.cc\<close>.  Nothing is proved here; the laws are in the theory \<^verbatim>\<open>Eckit_Serialisation\<close>.

  Every operation takes the virtual functions of the concrete class as its first argument.  Output operations return a
  result; input operations may also loop for ever on a device that never stops delivering end-of-object tags, and
  have the type of computations that may not return.  Log output is left out.
\<close>

unbundle bit_operations_syntax

section \<open>State\<close>

text \<open>The tags are the enumeration \<^verbatim>\<open>Stream::tag\<close>; \<open>raw_tag\<close> is a byte from the stream that is none of its values.\<close>

datatype tag =
    tag_zero | tag_start_obj | tag_end_obj | tag_char | tag_unsigned_char | tag_int | tag_unsigned_int | tag_short
  | tag_unsigned_short | tag_long | tag_unsigned_long | tag_long_long | tag_unsigned_long_long | tag_float | tag_double
  | tag_string | tag_blob | tag_exception | tag_start_rec | tag_end_rec | tag_eof | tag_large_blob | last_tag
  | raw_tag byte

definition all_tags :: "tag list" where
  "all_tags =
     [tag_zero, tag_start_obj, tag_end_obj, tag_char, tag_unsigned_char, tag_int, tag_unsigned_int, tag_short,
      tag_unsigned_short, tag_long, tag_unsigned_long, tag_long_long, tag_unsigned_long_long, tag_float, tag_double,
      tag_string, tag_blob, tag_exception, tag_start_rec, tag_end_rec, tag_eof, tag_large_blob, last_tag]"

fun tag_code :: "tag \<Rightarrow> byte" where
  "tag_code tag_zero = 0"
| "tag_code tag_start_obj = 1"
| "tag_code tag_end_obj = 2"
| "tag_code tag_char = 3"
| "tag_code tag_unsigned_char = 4"
| "tag_code tag_int = 5"
| "tag_code tag_unsigned_int = 6"
| "tag_code tag_short = 7"
| "tag_code tag_unsigned_short = 8"
| "tag_code tag_long = 9"
| "tag_code tag_unsigned_long = 10"
| "tag_code tag_long_long = 11"
| "tag_code tag_unsigned_long_long = 12"
| "tag_code tag_float = 13"
| "tag_code tag_double = 14"
| "tag_code tag_string = 15"
| "tag_code tag_blob = 16"
| "tag_code tag_exception = 17"
| "tag_code tag_start_rec = 18"
| "tag_code tag_end_rec = 19"
| "tag_code tag_eof = 20"
| "tag_code tag_large_blob = 21"
| "tag_code last_tag = 22"
| "tag_code (raw_tag c) = c"

definition tag_of :: "byte \<Rightarrow> tag" where
  "tag_of c = (if unat c < length all_tags then all_tags ! unat c else raw_tag c)"

definition tag_names :: "string list" where
  "tag_names =
     [''0'', ''start of object'', ''end of object'', ''char'', ''unsigned char'', ''int'', ''unsigned int'', ''short'',
      ''unsigned short'', ''long'', ''unsigned long'', ''long long'', ''unsigned long long'', ''float'', ''double'',
      ''string'', ''blob'', ''exception'', ''start of record'', ''end of record'', ''end of file'', ''large blob'']"

definition tag_count :: nat where
  "tag_count = length tag_names"

definition print_tag :: "tag \<Rightarrow> string" where
  "print_tag t =
     (let c = unat (tag_code t) in
      if c < tag_count then [CHR 0x27] @ tag_names ! c @ [CHR 0x27]
      else [CHR 0x27] @ nat_to_string c @ [CHR 0x27])"

text \<open>
  The virtual functions a concrete stream overrides.  \<open>vt_write\<close> and \<open>vt_read\<close> return the count the C++ functions
  return; a device may throw.
\<close>

record 'd vtable =
  vt_write :: "bytes \<Rightarrow> 'd \<Rightarrow> (int \<times> 'd) result"
  vt_read :: "nat \<Rightarrow> 'd \<Rightarrow> (int \<times> bytes \<times> 'd) result"
  vt_name :: string
  vt_print :: string

record 'd stream =
  dev :: 'd
  lastTag :: tag
  writeCount :: int

definition Stream :: "'d \<Rightarrow> 'd stream" where
  "Stream d = \<lparr>dev = d, lastTag = tag_zero, writeCount = 0\<rparr>"

definition be32 :: "32 word \<Rightarrow> bytes" where
  "be32 n = [ucast (drop_bit 24 n), ucast (drop_bit 16 n), ucast (drop_bit 8 n), ucast n]"

definition of_be32 :: "bytes \<Rightarrow> 32 word" where
  "of_be32 bs = foldl (\<lambda>n b. push_bit 8 n OR ucast b) 0 bs"

definition bytes_of :: "string \<Rightarrow> bytes" where
  "bytes_of s = map (\<lambda>c. of_nat (of_char c)) s"

definition string_of :: "bytes \<Rightarrow> string" where
  "string_of bs = map (\<lambda>b. char_of (unat b)) bs"

section \<open>Bytes, numbers and tags\<close>

text \<open>
  \<^verbatim>\<open>putBytes\<close> and \<^verbatim>\<open>getBytes\<close> call the overridden \<^verbatim>\<open>write\<close> and \<^verbatim>\<open>read\<close> and turn a short count into an exception.
  \<^verbatim>\<open>putLong\<close> takes an \<^verbatim>\<open>unsigned long\<close> but sends its low 32 bits only.
\<close>

definition putBytes :: "'d vtable \<Rightarrow> bytes \<Rightarrow> 'd stream \<Rightarrow> 'd stream result" where
  "putBytes vt bs s =
     (let s1 = s\<lparr>writeCount := writeCount s + int (length bs)\<rparr> in
      rbind (vt_write vt bs (dev s1)) (\<lambda>(n, d).
        if n \<noteq> int (length bs) then throw WriteError else ok (s1\<lparr>dev := d\<rparr>)))"

definition getBytes :: "'d vtable \<Rightarrow> nat \<Rightarrow> 'd stream \<Rightarrow> (bytes \<times> 'd stream) comp" where
  "getBytes vt len s =
     Some (rbind (vt_read vt len (dev s)) (\<lambda>(n, bs, d).
       if n \<noteq> int len then throw ReadError else ok (bs, s\<lparr>dev := d\<rparr>)))"

definition putChar :: "'d vtable \<Rightarrow> byte \<Rightarrow> 'd stream \<Rightarrow> 'd stream result" where
  "putChar vt p = putBytes vt [p]"

definition getChar :: "'d vtable \<Rightarrow> 'd stream \<Rightarrow> (byte \<times> 'd stream) comp" where
  "getChar vt s = cbind (getBytes vt 1 s) (\<lambda>(bs, s). Some (ok (hd bs, s)))"

definition putLong :: "'d vtable \<Rightarrow> 64 word \<Rightarrow> 'd stream \<Rightarrow> 'd stream result" where
  "putLong vt p = putBytes vt (be32 (ucast p))"

definition getLong :: "'d vtable \<Rightarrow> 'd stream \<Rightarrow> (64 word \<times> 'd stream) comp" where
  "getLong vt s = cbind (getBytes vt 4 s) (\<lambda>(bs, s). Some (ok (ucast (of_be32 bs), s)))"

fun getChars :: "'d vtable \<Rightarrow> nat \<Rightarrow> 'd stream \<Rightarrow> (bytes \<times> 'd stream) comp" where
  "getChars vt 0 s = Some (ok ([], s))"
| "getChars vt (Suc n) s =
     cbind (getChar vt s) (\<lambda>(c, s). cbind (getChars vt n s) (\<lambda>(cs, s). Some (ok (c # cs, s))))"

definition badTag :: "'d vtable \<Rightarrow> tag \<Rightarrow> tag \<Rightarrow> 'd stream \<Rightarrow> 'a comp" where
  "badTag vt need got s =
     (let os = ''Bad tag found in stream '' @ vt_print vt @ ''. Expecting a '' @ print_tag need @ '', got a '' @ print_tag got in
      if got = tag_string then
        cbind (getLong vt s) (\<lambda>(len, s). cbind (getChars vt (unat len) s) (\<lambda>_. Some (throw (BadTag os))))
      else Some (throw (BadTag os)))"

definition nextTag :: "'d vtable \<Rightarrow> 'd stream \<Rightarrow> (tag \<times> 'd stream) comp" where
  "nextTag vt s =
     (if lastTag s \<noteq> tag_zero then Some (ok (lastTag s, s\<lparr>lastTag := tag_zero\<rparr>))
      else
        Some (rbind (vt_read vt 1 (dev s)) (\<lambda>(len, bs, d).
          if len = 0 then ok (tag_eof, s\<lparr>dev := d\<rparr>)
          else if len = -1 then throw ShortFile
          else ok (tag_of (hd (bs @ [0])), s\<lparr>dev := d\<rparr>))))"

text \<open>
  \<^verbatim>\<open>readTag\<close> skips end-of-object tags.  When it finds an exception it reads the message with \<^verbatim>\<open>operator>>(std::string&)\<close>, which
  calls \<^verbatim>\<open>readTag\<close> again: the recursive call is written out here, with \<open>getString\<close> for the rest of that operator.
\<close>

partial_function (option) skip_end_obj :: "'d vtable \<Rightarrow> 'd stream \<Rightarrow> (tag \<times> 'd stream) comp" where
  "skip_end_obj vt s =
     cbind (nextTag vt s) (\<lambda>(t, s). if t = tag_end_obj then skip_end_obj vt s else Some (ok (t, s)))"

definition getString :: "'d vtable \<Rightarrow> 'd stream \<Rightarrow> (string \<times> 'd stream) comp" where
  "getString vt s =
     cbind (getLong vt s) (\<lambda>(len, s). cbind (getBytes vt (unat len) s) (\<lambda>(bs, s). Some (ok (string_of bs, s))))"

partial_function (option) readTag :: "'d vtable \<Rightarrow> tag \<Rightarrow> 'd stream \<Rightarrow> (tag \<times> 'd stream) comp" where
  "readTag vt need s =
     cbind (skip_end_obj vt s) (\<lambda>(t, s).
       if t = tag_exception then
         cbind (readTag vt tag_string s) (\<lambda>(_, s).
           cbind (getString vt s) (\<lambda>(str, s). Some (throw (RemoteException str (vt_name vt)))))
       else if need \<noteq> t then badTag vt need t s
       else Some (ok (t, s)))"

definition writeTag :: "'d vtable \<Rightarrow> tag \<Rightarrow> 'd stream \<Rightarrow> 'd stream result" where
  "writeTag vt t = putBytes vt [tag_code t]"

section \<open>Output\<close>

text \<open>
  One definition per overload.  The unions that reinterpret signed as unsigned numbers are the identity on words; \<^verbatim>\<open>double\<close>
  is its 64-bit pattern, of which \<^verbatim>\<open>hi\<close> is the first half in memory, the low half on the little-endian hosts eckit runs on.
\<close>

definition out_char :: "'d vtable \<Rightarrow> 8 word \<Rightarrow> 'd stream \<Rightarrow> 'd stream result" where
  "out_char vt x s = rbind (writeTag vt tag_char s) (putChar vt x)"

definition out_unsigned_char :: "'d vtable \<Rightarrow> 8 word \<Rightarrow> 'd stream \<Rightarrow> 'd stream result" where
  "out_unsigned_char vt x s = rbind (writeTag vt tag_unsigned_char s) (putChar vt x)"

definition out_int :: "'d vtable \<Rightarrow> 32 word \<Rightarrow> 'd stream \<Rightarrow> 'd stream result" where
  "out_int vt x s = rbind (writeTag vt tag_int s) (putLong vt (ucast x))"

definition out_bool :: "'d vtable \<Rightarrow> bool \<Rightarrow> 'd stream \<Rightarrow> 'd stream result" where
  "out_bool vt x = out_int vt (if x then 1 else 0)"

definition out_unsigned_int :: "'d vtable \<Rightarrow> 32 word \<Rightarrow> 'd stream \<Rightarrow> 'd stream result" where
  "out_unsigned_int vt x s = rbind (writeTag vt tag_unsigned_int s) (putLong vt (ucast x))"

definition out_long :: "'d vtable \<Rightarrow> 64 word \<Rightarrow> 'd stream \<Rightarrow> 'd stream result" where
  "out_long vt x s =
     (let u = (ucast x :: 32 word) in rbind (writeTag vt tag_long s) (putLong vt (ucast u)))"

definition out_unsigned_long :: "'d vtable \<Rightarrow> 64 word \<Rightarrow> 'd stream \<Rightarrow> 'd stream result" where
  "out_unsigned_long vt x s = rbind (writeTag vt tag_unsigned_long s) (putLong vt x)"

definition out_long_long :: "'d vtable \<Rightarrow> 64 word \<Rightarrow> 'd stream \<Rightarrow> 'd stream result" where
  "out_long_long vt x s =
     rbind (writeTag vt tag_long_long s) (\<lambda>s. rbind (putLong vt (drop_bit 32 x) s) (putLong vt (x AND 0xffffffff)))"

definition out_unsigned_long_long :: "'d vtable \<Rightarrow> 64 word \<Rightarrow> 'd stream \<Rightarrow> 'd stream result" where
  "out_unsigned_long_long vt x s =
     rbind (writeTag vt tag_unsigned_long_long s) (\<lambda>s. rbind (putLong vt (drop_bit 32 x) s) (putLong vt (x AND 0xffffffff)))"

definition out_short :: "'d vtable \<Rightarrow> 16 word \<Rightarrow> 'd stream \<Rightarrow> 'd stream result" where
  "out_short vt x s = rbind (writeTag vt tag_short s) (putLong vt (ucast x))"

definition out_unsigned_short :: "'d vtable \<Rightarrow> 16 word \<Rightarrow> 'd stream \<Rightarrow> 'd stream result" where
  "out_unsigned_short vt x s = rbind (writeTag vt tag_unsigned_short s) (putLong vt (ucast x))"

definition out_float :: "'d vtable \<Rightarrow> 32 word \<Rightarrow> 'd stream \<Rightarrow> 'd stream result" where
  "out_float vt x s = rbind (writeTag vt tag_float s) (\<lambda>_. throw NotImplemented)"

record Double =
  hi :: "32 word"
  lo :: "32 word"

definition Double_of :: "64 word \<Rightarrow> Double" where
  "Double_of x = \<lparr>hi = ucast x, lo = ucast (drop_bit 32 x)\<rparr>"

definition of_Double :: "Double \<Rightarrow> 64 word" where
  "of_Double d = push_bit 32 (ucast (lo d)) OR ucast (hi d)"

definition out_double :: "'d vtable \<Rightarrow> 64 word \<Rightarrow> 'd stream \<Rightarrow> 'd stream result" where
  "out_double vt x s =
     rbind (writeTag vt tag_double s) (\<lambda>s.
       let d = Double_of x in rbind (putLong vt (ucast (hi d)) s) (putLong vt (ucast (lo d))))"

definition out_string :: "'d vtable \<Rightarrow> string \<Rightarrow> 'd stream \<Rightarrow> 'd stream result" where
  "out_string vt x s =
     rbind (writeTag vt tag_string s) (\<lambda>s. rbind (putLong vt (of_nat (length x)) s) (putBytes vt (bytes_of x)))"

definition out_chars :: "'d vtable \<Rightarrow> string option \<Rightarrow> 'd stream \<Rightarrow> 'd stream result" where
  "out_chars vt x s =
     rbind (writeTag vt tag_string s) (\<lambda>s.
       case x of
         None \<Rightarrow> throw AssertionFailed
       | Some p \<Rightarrow>
           let x = takeWhile (\<lambda>c. c \<noteq> CHR 0x00) p
           in rbind (putLong vt (of_nat (length x)) s) (putBytes vt (bytes_of x)))"

function put_chunks :: "'d vtable \<Rightarrow> nat \<Rightarrow> bytes \<Rightarrow> 'd stream \<Rightarrow> 'd stream result" where
  "put_chunks vt n p s =
     (if length p > 0 \<and> n > 0 then
        let l = (if length p > n then n else length p)
        in rbind (putBytes vt (take l p) s) (put_chunks vt n (drop l p))
      else ok s)"
  by pat_completeness auto
termination by (relation "measure (\<lambda>(vt, n, p, s). length p)") auto

declare put_chunks.simps [simp del]

definition chunk :: nat where
  "chunk = 0x80000000"

definition writeLargeBlob :: "'d vtable \<Rightarrow> bytes \<Rightarrow> 'd stream \<Rightarrow> 'd stream result" where
  "writeLargeBlob vt buffer s =
     rbind (writeTag vt tag_large_blob s) (\<lambda>s.
       let len = (of_nat (length buffer) :: 64 word) in
       ASSERT (unat len = length buffer)
         (rbind (putLong vt (drop_bit 32 len) s) (\<lambda>s.
            rbind (putLong vt (len AND 0xffffffff) s) (put_chunks vt chunk buffer))))"

definition writeBlob :: "'d vtable \<Rightarrow> bytes \<Rightarrow> 'd stream \<Rightarrow> 'd stream result" where
  "writeBlob vt buffer s =
     rbind (writeTag vt tag_blob s) (\<lambda>s.
       let len = (of_nat (length buffer) :: 64 word) in
       ASSERT (unat len = length buffer)
         (ASSERT (sint len \<ge> 0) (rbind (putLong vt len s) (putBytes vt buffer))))"

definition out_Buffer :: "'d vtable \<Rightarrow> bytes \<Rightarrow> 'd stream \<Rightarrow> 'd stream result" where
  "out_Buffer vt x = writeBlob vt x"

definition out_exception :: "'d vtable \<Rightarrow> string \<Rightarrow> 'd stream \<Rightarrow> 'd stream result" where
  "out_exception vt e s = rbind (writeTag vt tag_exception s) (out_string vt e)"

section \<open>Input\<close>

definition in_char :: "'d vtable \<Rightarrow> 'd stream \<Rightarrow> (8 word \<times> 'd stream) comp" where
  "in_char vt s = cbind (readTag vt tag_char s) (\<lambda>(_, s). getChar vt s)"

definition in_unsigned_char :: "'d vtable \<Rightarrow> 'd stream \<Rightarrow> (8 word \<times> 'd stream) comp" where
  "in_unsigned_char vt s = cbind (readTag vt tag_unsigned_char s) (\<lambda>(_, s). getChar vt s)"

definition in_int :: "'d vtable \<Rightarrow> 'd stream \<Rightarrow> (32 word \<times> 'd stream) comp" where
  "in_int vt s = cbind (readTag vt tag_int s) (\<lambda>(_, s). cbind (getLong vt s) (\<lambda>(u, s). Some (ok (ucast u, s))))"

definition in_bool :: "'d vtable \<Rightarrow> 'd stream \<Rightarrow> (bool \<times> 'd stream) comp" where
  "in_bool vt s = cbind (in_int vt s) (\<lambda>(n, s). Some (ok (n \<noteq> 0, s)))"

definition in_unsigned_int :: "'d vtable \<Rightarrow> 'd stream \<Rightarrow> (32 word \<times> 'd stream) comp" where
  "in_unsigned_int vt s =
     cbind (readTag vt tag_unsigned_int s) (\<lambda>(_, s). cbind (getLong vt s) (\<lambda>(u, s). Some (ok (ucast u, s))))"

definition in_short :: "'d vtable \<Rightarrow> 'd stream \<Rightarrow> (16 word \<times> 'd stream) comp" where
  "in_short vt s =
     cbind (readTag vt tag_short s) (\<lambda>(_, s). cbind (getLong vt s) (\<lambda>(u, s). Some (ok (ucast u, s))))"

definition in_unsigned_short :: "'d vtable \<Rightarrow> 'd stream \<Rightarrow> (16 word \<times> 'd stream) comp" where
  "in_unsigned_short vt s =
     cbind (readTag vt tag_unsigned_short s) (\<lambda>(_, s). cbind (getLong vt s) (\<lambda>(u, s). Some (ok (ucast u, s))))"

definition in_long :: "'d vtable \<Rightarrow> 'd stream \<Rightarrow> (64 word \<times> 'd stream) comp" where
  "in_long vt s =
     cbind (readTag vt tag_long s) (\<lambda>(_, s).
       cbind (getLong vt s) (\<lambda>(u, s). let u' = (ucast u :: 32 word) in Some (ok (scast u', s))))"

definition in_unsigned_long :: "'d vtable \<Rightarrow> 'd stream \<Rightarrow> (64 word \<times> 'd stream) comp" where
  "in_unsigned_long vt s = cbind (readTag vt tag_unsigned_long s) (\<lambda>(_, s). getLong vt s)"

definition in_long_long :: "'d vtable \<Rightarrow> 'd stream \<Rightarrow> (64 word \<times> 'd stream) comp" where
  "in_long_long vt s =
     cbind (readTag vt tag_long_long s) (\<lambda>(_, s).
       cbind (getLong vt s) (\<lambda>(u1, s). cbind (getLong vt s) (\<lambda>(u2, s). Some (ok (push_bit 32 u1 OR u2, s)))))"

definition in_unsigned_long_long :: "'d vtable \<Rightarrow> 'd stream \<Rightarrow> (64 word \<times> 'd stream) comp" where
  "in_unsigned_long_long vt s =
     cbind (readTag vt tag_unsigned_long_long s) (\<lambda>(_, s).
       cbind (getLong vt s) (\<lambda>(u1, s). cbind (getLong vt s) (\<lambda>(u2, s). Some (ok (push_bit 32 u1 OR u2, s)))))"

definition in_float :: "'d vtable \<Rightarrow> 'd stream \<Rightarrow> (32 word \<times> 'd stream) comp" where
  "in_float vt s = cbind (readTag vt tag_float s) (\<lambda>_. Some (throw NotImplemented))"

function get_chunks :: "'d vtable \<Rightarrow> nat \<Rightarrow> nat \<Rightarrow> 'd stream \<Rightarrow> (bytes \<times> 'd stream) comp" where
  "get_chunks vt n sz s =
     (if sz > 0 \<and> n > 0 then
        let l = (if sz > n then n else sz)
        in cbind (getBytes vt l s) (\<lambda>(bs, s). cbind (get_chunks vt n (sz - l) s) (\<lambda>(rest, s). Some (ok (bs @ rest, s))))
      else Some (ok ([], s)))"
  by pat_completeness auto
termination by (relation "measure (\<lambda>(vt, n, sz, s). sz)") auto

declare get_chunks.simps [simp del]

definition readLargeBlob :: "'d vtable \<Rightarrow> nat \<Rightarrow> 'd stream \<Rightarrow> (bytes \<times> 'd stream) comp" where
  "readLargeBlob vt sz s =
     cbind (readTag vt tag_large_blob s) (\<lambda>(_, s).
       cbind (getLong vt s) (\<lambda>(u1, s). cbind (getLong vt s) (\<lambda>(u2, s).
         let len = push_bit 32 u1 OR u2 in
         if unat len = sz then get_chunks vt chunk sz s else Some (throw AssertionFailed))))"

definition rewind :: "'d stream \<Rightarrow> 'd stream result" where
  "rewind s = throw NotImplemented"

definition closeOutput :: "'d stream \<Rightarrow> 'd stream result" where
  "closeOutput s = throw NotImplemented"

definition closeInput :: "'d stream \<Rightarrow> 'd stream result" where
  "closeInput s = throw NotImplemented"

definition readBlob :: "'d vtable \<Rightarrow> nat \<Rightarrow> 'd stream \<Rightarrow> (bytes \<times> 'd stream) comp" where
  "readBlob vt sz s =
     cbind (readTag vt tag_blob s) (\<lambda>(_, s).
       cbind (getLong vt s) (\<lambda>(len, s).
         if sint len < 0 then Some (throw AssertionFailed)
         else if unat len \<noteq> sz then Some (throw AssertionFailed)
         else getBytes vt (unat len) s))"

definition blobSize :: "'d vtable \<Rightarrow> 'd stream \<Rightarrow> (nat \<times> 'd stream) comp" where
  "blobSize vt s =
     cbind (readTag vt tag_blob s) (\<lambda>(_, s).
       cbind (getLong vt s) (\<lambda>(len, s). if sint len < 0 then Some (throw AssertionFailed) else Some (ok (unat len, s))))"

definition in_Buffer :: "'d vtable \<Rightarrow> nat \<Rightarrow> 'd stream \<Rightarrow> (bytes \<times> 'd stream) comp" where
  "in_Buffer vt sz = readBlob vt sz"

definition in_string :: "'d vtable \<Rightarrow> 'd stream \<Rightarrow> (string \<times> 'd stream) comp" where
  "in_string vt s = cbind (readTag vt tag_string s) (\<lambda>(_, s). getString vt s)"

fun in_pairs :: "'d vtable \<Rightarrow> nat \<Rightarrow> (string \<rightharpoonup> string) \<Rightarrow> 'd stream \<Rightarrow> ((string \<rightharpoonup> string) \<times> 'd stream) comp" where
  "in_pairs vt 0 m s = Some (ok (m, s))"
| "in_pairs vt (Suc n) m s =
     cbind (in_string vt s) (\<lambda>(k, s). cbind (in_string vt s) (\<lambda>(v, s). in_pairs vt n (m(k \<mapsto> v)) s))"

definition in_string_map :: "'d vtable \<Rightarrow> 'd stream \<Rightarrow> ((string \<rightharpoonup> string) \<times> 'd stream) comp" where
  "in_string_map vt s = cbind (in_unsigned_long vt s) (\<lambda>(n, s). in_pairs vt (unat n) Map.empty s)"

definition in_double :: "'d vtable \<Rightarrow> 'd stream \<Rightarrow> (64 word \<times> 'd stream) comp" where
  "in_double vt s =
     cbind (readTag vt tag_double s) (\<lambda>(_, s).
       cbind (getLong vt s) (\<lambda>(h, s). cbind (getLong vt s) (\<lambda>(l, s).
         Some (ok (of_Double \<lparr>hi = ucast h, lo = ucast l\<rparr>, s)))))"

definition next_string :: "'d vtable \<Rightarrow> 'd stream \<Rightarrow> (string option \<times> 'd stream) comp" where
  "next_string vt s =
     cbind (nextTag vt s) (\<lambda>(t, s).
       if t = tag_eof then Some (ok (None, s))
       else if t \<noteq> tag_string then badTag vt tag_string t s
       else cbind (getString vt s) (\<lambda>(str, s). Some (ok (Some str, s))))"

definition next_int :: "'d vtable \<Rightarrow> 'd stream \<Rightarrow> (32 word option \<times> 'd stream) comp" where
  "next_int vt s =
     cbind (nextTag vt s) (\<lambda>(t, s).
       if t = tag_eof then Some (ok (None, s))
       else if t \<noteq> tag_int then badTag vt tag_int t s
       else cbind (getLong vt s) (\<lambda>(u, s). Some (ok (Some (ucast u), s))))"

definition next_bool :: "'d vtable \<Rightarrow> 'd stream \<Rightarrow> (bool option \<times> 'd stream) comp" where
  "next_bool vt s =
     cbind (next_int vt s) (\<lambda>(x, s). Some (ok (map_option (\<lambda>x. x \<noteq> 0) x, s)))"

definition startObject :: "'d vtable \<Rightarrow> 'd stream \<Rightarrow> 'd stream result" where
  "startObject vt = writeTag vt tag_start_obj"

definition endObject :: "'d vtable \<Rightarrow> 'd stream \<Rightarrow> 'd stream result" where
  "endObject vt = writeTag vt tag_end_obj"

definition endObjectFound :: "'d vtable \<Rightarrow> 'd stream \<Rightarrow> (bool \<times> 'd stream) comp" where
  "endObjectFound vt s =
     cbind (nextTag vt s) (\<lambda>(t, s). Some (ok (t = tag_end_obj \<or> t = tag_zero, s\<lparr>lastTag := t\<rparr>)))"

definition skipEndObject :: "'d vtable \<Rightarrow> 'd stream \<Rightarrow> 'd stream comp" where
  "skipEndObject vt s =
     cbind (endObjectFound vt s) (\<lambda>(found, s). Some (ok (if found then s\<lparr>lastTag := tag_zero\<rparr> else s)))"

partial_function (option) next_object :: "'d vtable \<Rightarrow> 'd stream \<Rightarrow> (bool \<times> 'd stream) comp" where
  "next_object vt s =
     cbind (nextTag vt s) (\<lambda>(t, s).
       if t = tag_start_obj then Some (ok (True, s))
       else if t = tag_eof then Some (ok (False, s))
       else if t \<noteq> tag_end_obj then badTag vt tag_start_obj t s
       else next_object vt s)"

section \<open>Dumping a stream\<close>

text \<open>
  The decoder copies from the buffer without a bound; a copy past its end is the error \<^const>\<open>OutOfBounds\<close>.  The bytes are
  plain \<^verbatim>\<open>char\<close>, which is signed: a byte above 127 compares below every tag and then indexes the table of names.
\<close>

record decoder =
  dbuf :: bytes
  dpos :: nat
  dlen :: nat

definition decoder_read :: "nat \<Rightarrow> decoder \<Rightarrow> (int \<times> bytes \<times> decoder) result" where
  "decoder_read len d =
     (if dpos d + len > length (dbuf d) then throw OutOfBounds
      else ok (int len, take len (drop (dpos d) (dbuf d)), d\<lparr>dlen := dlen d + len, dpos := dpos d + len\<rparr>))"

definition StreamDecoder :: "decoder vtable" where
  "StreamDecoder =
     \<lparr>vt_write = (\<lambda>_ _. throw NotImplemented), vt_read = decoder_read, vt_name = ''StreamDecoder'', vt_print = ''StreamDecoder''\<rparr>"

partial_function (option) dump_loop :: "bytes \<Rightarrow> nat \<Rightarrow> string \<Rightarrow> string comp" where
  "dump_loop p i out =
     (if i < length p then
        if sint (p ! i) < 22 then
          if sint (p ! i) < 0 then Some (throw OutOfBounds)
          else
            (let out1 = out @ ''<'' @ tag_names ! unat (p ! i) @ ''>'';
                 d = Stream \<lparr>dbuf = drop i p, dpos = 0, dlen = 0\<rparr>;
                 t = tag_of (p ! i)
             in
               if t = tag_int then
                 cbind (in_int StreamDecoder d) (\<lambda>(x, d). dump_loop p (i + dlen (dev d)) (out1 @ int_to_string (sint x)))
               else if t = tag_unsigned_long_long then
                 cbind (in_unsigned_long_long StreamDecoder d) (\<lambda>(x, d).
                   dump_loop p (i + dlen (dev d)) (out1 @ nat_to_string (unat x)))
               else if t = tag_string then
                 cbind (in_string StreamDecoder d) (\<lambda>(x, d). dump_loop p (i + dlen (dev d)) (out1 @ x))
               else Some (throw NotImplemented))
        else dump_loop p (i + 1) (out @ ''<invalid>'')
      else Some (ok out))"

definition dump :: "bytes \<Rightarrow> string comp" where
  "dump p = dump_loop p 0 ''''"


section \<open>MemoryStream, ResizableMemoryStream and HandleStream\<close>

record memstream =
  maddress :: bytes
  msize :: nat
  mposition :: nat

definition MemoryStream :: "bytes \<Rightarrow> memstream" where
  "MemoryStream m = \<lparr>maddress = m, msize = length m, mposition = 0\<rparr>"

definition ms_read :: "nat \<Rightarrow> memstream \<Rightarrow> (int \<times> bytes \<times> memstream) result" where
  "ms_read len m =
     (let left = msize m - mposition m;
          n = min left len
      in ok (int n, take n (drop (mposition m) (maddress m)), m\<lparr>mposition := mposition m + n\<rparr>))"

definition ms_write :: "bytes \<Rightarrow> memstream \<Rightarrow> (int \<times> memstream) result" where
  "ms_write bs m =
     (let left = msize m - mposition m;
          n = min left (length bs)
      in ok (int n, m\<lparr>maddress := memcpy (maddress m) (mposition m) bs n, mposition := mposition m + n\<rparr>))"

definition ms_rewind :: "memstream stream \<Rightarrow> memstream stream" where
  "ms_rewind s = s\<lparr>dev := (dev s)\<lparr>mposition := 0\<rparr>\<rparr>"

definition ms_position :: "memstream \<Rightarrow> nat" where
  "ms_position m = mposition m"

definition MemoryStream_vt :: "memstream vtable" where
  "MemoryStream_vt = \<lparr>vt_write = ms_write, vt_read = ms_read, vt_name = ''MemoryStream'', vt_print = ''MemoryStream''\<rparr>"

record resizable =
  rbuffer :: buffer
  rposition :: nat

definition ResizableMemoryStream :: "buffer \<Rightarrow> resizable" where
  "ResizableMemoryStream b = \<lparr>rbuffer = b, rposition = 0\<rparr>"

definition rs_read :: "nat \<Rightarrow> resizable \<Rightarrow> (int \<times> bytes \<times> resizable) result" where
  "rs_read len r =
     (let left = bsize (rbuffer r) - rposition r;
          n = min left len
      in ok (int n, take n (drop (rposition r) (view (rbuffer r))), r\<lparr>rposition := rposition r + n\<rparr>))"

definition rs_write :: "(nat \<Rightarrow> byte) \<Rightarrow> bytes \<Rightarrow> resizable \<Rightarrow> (int \<times> resizable) result" where
  "rs_write fresh bs r =
     (let len = length bs;
          left = bsize (rbuffer r) - rposition r;
          buf = (if left < len then
                   let reqsize = bsize (rbuffer r) + (len - left);
                       newsize = round_to (2 * reqsize) 64
                   in resize fresh newsize True (rbuffer r)
                 else rbuffer r);
          n = min (bsize buf - rposition r) len
      in ok (int n, r\<lparr>rbuffer := buf\<lparr>block := map_option (\<lambda>m. memcpy m (rposition r) bs n) (block buf)\<rparr>, rposition := rposition r + n\<rparr>))"

definition rs_rewind :: "resizable stream \<Rightarrow> resizable stream" where
  "rs_rewind s = s\<lparr>dev := (dev s)\<lparr>rposition := 0\<rparr>\<rparr>"

definition rs_position :: "resizable \<Rightarrow> nat" where
  "rs_position r = rposition r"

definition ResizableMemoryStream_vt :: "(nat \<Rightarrow> byte) \<Rightarrow> resizable vtable" where
  "ResizableMemoryStream_vt fresh =
     \<lparr>vt_write = rs_write fresh, vt_read = rs_read, vt_name = ''ResizableMemoryStream'', vt_print = ''ResizableMemoryStream''\<rparr>"

definition HandleStream_vt :: "(bytes \<Rightarrow> 'h \<Rightarrow> (int \<times> 'h) result) \<Rightarrow> (int \<Rightarrow> 'h \<Rightarrow> (int \<times> bytes \<times> 'h) result) \<Rightarrow> 'h vtable" where
  "HandleStream_vt hwrite hread =
     \<lparr>vt_write = hwrite, vt_read = (\<lambda>len. hread (int len)), vt_name = ''HandleStream'', vt_print = ''HandleStream''\<rparr>"

section \<open>Containers\<close>

text \<open>
  The templates of \<^verbatim>\<open>src/eckit/types/Types.cc\<close>: a count followed by the elements.  The operators of the element type are
  parameters.  A \<^verbatim>\<open>std::set\<close> is written in increasing order; a \<^verbatim>\<open>std::map\<close> is given by its entries in key order.
\<close>

fun out_each :: "('a \<Rightarrow> 'd stream \<Rightarrow> 'd stream result) \<Rightarrow> 'a list \<Rightarrow> 'd stream \<Rightarrow> 'd stream result" where
  "out_each f [] s = ok s"
| "out_each f (x # xs) s = rbind (f x s) (out_each f xs)"

fun in_each :: "('d stream \<Rightarrow> ('a \<times> 'd stream) comp) \<Rightarrow> nat \<Rightarrow> 'd stream \<Rightarrow> ('a list \<times> 'd stream) comp" where
  "in_each f 0 s = Some (ok ([], s))"
| "in_each f (Suc n) s = cbind (f s) (\<lambda>(x, s). cbind (in_each f n s) (\<lambda>(xs, s). Some (ok (x # xs, s))))"

definition out_vector :: "'d vtable \<Rightarrow> ('a \<Rightarrow> 'd stream \<Rightarrow> 'd stream result) \<Rightarrow> 'a list \<Rightarrow> 'd stream \<Rightarrow> 'd stream result" where
  "out_vector vt f t s = rbind (out_unsigned_long vt (of_nat (length t)) s) (out_each f t)"

definition in_vector :: "'d vtable \<Rightarrow> ('d stream \<Rightarrow> ('a \<times> 'd stream) comp) \<Rightarrow> 'd stream \<Rightarrow> ('a list \<times> 'd stream) comp" where
  "in_vector vt f s = cbind (in_unsigned_long vt s) (\<lambda>(n, s). in_each f (unat n) s)"

definition out_set :: "'d vtable \<Rightarrow> ('a::linorder \<Rightarrow> 'd stream \<Rightarrow> 'd stream result) \<Rightarrow> 'a set \<Rightarrow> 'd stream \<Rightarrow> 'd stream result" where
  "out_set vt f t s =
     (let xs = sorted_list_of_set t in rbind (out_unsigned_long vt (of_nat (length xs)) s) (out_each f xs))"

definition in_set :: "'d vtable \<Rightarrow> ('d stream \<Rightarrow> ('a \<times> 'd stream) comp) \<Rightarrow> 'd stream \<Rightarrow> ('a set \<times> 'd stream) comp" where
  "in_set vt f s =
     cbind (in_unsigned_long vt s) (\<lambda>(n, s).
       cbind (in_each f (unat n) s) (\<lambda>(xs, s). Some (ok (foldl (\<lambda>t x. insert x t) {} xs, s))))"

definition out_map ::
  "'d vtable \<Rightarrow> ('k \<Rightarrow> 'd stream \<Rightarrow> 'd stream result) \<Rightarrow> ('v \<Rightarrow> 'd stream \<Rightarrow> 'd stream result) \<Rightarrow> ('k \<times> 'v) list \<Rightarrow>
   'd stream \<Rightarrow> 'd stream result" where
  "out_map vt f g t s =
     rbind (out_unsigned_long vt (of_nat (length t)) s) (out_each (\<lambda>(k, v) s. rbind (f k s) (g v)) t)"

definition in_map ::
  "'d vtable \<Rightarrow> ('d stream \<Rightarrow> ('k \<times> 'd stream) comp) \<Rightarrow> ('d stream \<Rightarrow> ('v \<times> 'd stream) comp) \<Rightarrow>
   'd stream \<Rightarrow> (('k \<rightharpoonup> 'v) \<times> 'd stream) comp" where
  "in_map vt f g s =
     cbind (in_unsigned_long vt s) (\<lambda>(n, s).
       cbind (in_each (\<lambda>s. cbind (f s) (\<lambda>(k, s). cbind (g s) (\<lambda>(v, s). Some (ok ((k, v), s))))) (unat n) s) (\<lambda>(kvs, s).
         Some (ok (foldl (\<lambda>m (k, v). m(k \<mapsto> v)) Map.empty kvs, s))))"

end
