(* ===== verification/Eckit_Serialisation.thy ===== *)
theory Eckit_Serialisation
  imports Eckit_Stream
begin

text \<open>
  Laws of the typed streams.  Two locales carry the proofs: \<open>out_stream\<close> over any device that takes bytes and \<open>in_stream\<close> over
  any device that hands them out.  In the first, \<open>emits f bs\<close> says that an operation appends exactly the bytes
  \<open>bs\<close>, or throws \<^verbatim>\<open>WriteError\<close> when the device has no room; in the second, \<open>yields f bs x\<close> says that an operation
  consumes exactly \<open>bs\<close> and returns \<open>x\<close>, and \<open>fails f bs e\<close> that it throws \<open>e\<close>.  Both compose over sequencing, so that each
  overload needs one short proof.  They are interpreted for \<^verbatim>\<open>MemoryStream\<close>, \<^verbatim>\<open>ResizableMemoryStream\<close> and
  \<^verbatim>\<open>HandleStream\<close> on a \<^verbatim>\<open>MemoryHandle\<close>.
\<close>

unbundle bit_operations_syntax

section \<open>Items and their encoding\<close>

text \<open>
  An item is a value together with the overload that sends it, a kind selects the overload that receives.  \<open>encode\<close>
  is the wire format, \<open>received\<close> the value that arrives: a \<^verbatim>\<open>long\<close> is cut to 32 bits on the way.  \<open>sendable\<close> bounds
  the lengths that fit the length field.
\<close>

datatype item =
    IChar "8 word" | IUChar "8 word" | IInt "32 word" | IBool bool | IUInt "32 word" | IShort "16 word" | IUShort "16 word"
  | ILong "64 word" | IULong "64 word" | ILongLong "64 word" | IULongLong "64 word" | IDbl "64 word" | IStr string | IBlob bytes
  | ILargeBlob bytes

datatype kind =
    KChar | KUChar | KInt | KBool | KUInt | KShort | KUShort | KLong | KULong | KLongLong | KULongLong | KDbl | KStr
  | KBlob nat | KLargeBlob nat

fun write_item :: "'d vtable \<Rightarrow> item \<Rightarrow> 'd stream \<Rightarrow> 'd stream result" where
  "write_item vt (IChar x) = out_char vt x"
| "write_item vt (IUChar x) = out_unsigned_char vt x"
| "write_item vt (IInt x) = out_int vt x"
| "write_item vt (IBool x) = out_bool vt x"
| "write_item vt (IUInt x) = out_unsigned_int vt x"
| "write_item vt (IShort x) = out_short vt x"
| "write_item vt (IUShort x) = out_unsigned_short vt x"
| "write_item vt (ILong x) = out_long vt x"
| "write_item vt (IULong x) = out_unsigned_long vt x"
| "write_item vt (ILongLong x) = out_long_long vt x"
| "write_item vt (IULongLong x) = out_unsigned_long_long vt x"
| "write_item vt (IDbl x) = out_double vt x"
| "write_item vt (IStr x) = out_string vt x"
| "write_item vt (IBlob x) = writeBlob vt x"
| "write_item vt (ILargeBlob x) = writeLargeBlob vt x"

definition cmap :: "('a \<Rightarrow> 'b) \<Rightarrow> ('a \<times> 's) comp \<Rightarrow> ('b \<times> 's) comp" where
  "cmap h c = cbind c (\<lambda>(x, s). Some (ok (h x, s)))"

fun read_item :: "'d vtable \<Rightarrow> kind \<Rightarrow> 'd stream \<Rightarrow> (item \<times> 'd stream) comp" where
  "read_item vt KChar = (\<lambda>s. cmap IChar (in_char vt s))"
| "read_item vt KUChar = (\<lambda>s. cmap IUChar (in_unsigned_char vt s))"
| "read_item vt KInt = (\<lambda>s. cmap IInt (in_int vt s))"
| "read_item vt KBool = (\<lambda>s. cmap IBool (in_bool vt s))"
| "read_item vt KUInt = (\<lambda>s. cmap IUInt (in_unsigned_int vt s))"
| "read_item vt KShort = (\<lambda>s. cmap IShort (in_short vt s))"
| "read_item vt KUShort = (\<lambda>s. cmap IUShort (in_unsigned_short vt s))"
| "read_item vt KLong = (\<lambda>s. cmap ILong (in_long vt s))"
| "read_item vt KULong = (\<lambda>s. cmap IULong (in_unsigned_long vt s))"
| "read_item vt KLongLong = (\<lambda>s. cmap ILongLong (in_long_long vt s))"
| "read_item vt KULongLong = (\<lambda>s. cmap IULongLong (in_unsigned_long_long vt s))"
| "read_item vt KDbl = (\<lambda>s. cmap IDbl (in_double vt s))"
| "read_item vt KStr = (\<lambda>s. cmap IStr (in_string vt s))"
| "read_item vt (KBlob n) = (\<lambda>s. cmap IBlob (readBlob vt n s))"
| "read_item vt (KLargeBlob n) = (\<lambda>s. cmap ILargeBlob (readLargeBlob vt n s))"

fun kind_of :: "item \<Rightarrow> kind" where
  "kind_of (IChar x) = KChar"
| "kind_of (IUChar x) = KUChar"
| "kind_of (IInt x) = KInt"
| "kind_of (IBool x) = KBool"
| "kind_of (IUInt x) = KUInt"
| "kind_of (IShort x) = KShort"
| "kind_of (IUShort x) = KUShort"
| "kind_of (ILong x) = KLong"
| "kind_of (IULong x) = KULong"
| "kind_of (ILongLong x) = KLongLong"
| "kind_of (IULongLong x) = KULongLong"
| "kind_of (IDbl x) = KDbl"
| "kind_of (IStr x) = KStr"
| "kind_of (IBlob x) = KBlob (length x)"
| "kind_of (ILargeBlob x) = KLargeBlob (length x)"

fun kind_tag :: "kind \<Rightarrow> tag" where
  "kind_tag KChar = tag_char"
| "kind_tag KUChar = tag_unsigned_char"
| "kind_tag KInt = tag_int"
| "kind_tag KBool = tag_int"
| "kind_tag KUInt = tag_unsigned_int"
| "kind_tag KShort = tag_short"
| "kind_tag KUShort = tag_unsigned_short"
| "kind_tag KLong = tag_long"
| "kind_tag KULong = tag_unsigned_long"
| "kind_tag KLongLong = tag_long_long"
| "kind_tag KULongLong = tag_unsigned_long_long"
| "kind_tag KDbl = tag_double"
| "kind_tag KStr = tag_string"
| "kind_tag (KBlob n) = tag_blob"
| "kind_tag (KLargeBlob n) = tag_large_blob"

fun body :: "item \<Rightarrow> bytes" where
  "body (IChar x) = [x]"
| "body (IUChar x) = [x]"
| "body (IInt x) = be32 x"
| "body (IBool x) = be32 (if x then 1 else 0)"
| "body (IUInt x) = be32 x"
| "body (IShort x) = be32 (ucast x)"
| "body (IUShort x) = be32 (ucast x)"
| "body (ILong x) = be32 (ucast x)"
| "body (IULong x) = be32 (ucast x)"
| "body (ILongLong x) = be32 (ucast (drop_bit 32 x)) @ be32 (ucast (x AND 0xffffffff))"
| "body (IULongLong x) = be32 (ucast (drop_bit 32 x)) @ be32 (ucast (x AND 0xffffffff))"
| "body (IDbl x) = be32 (hi (Double_of x)) @ be32 (lo (Double_of x))"
| "body (IStr x) = be32 (of_nat (length x)) @ bytes_of x"
| "body (IBlob x) = be32 (of_nat (length x)) @ x"
| "body (ILargeBlob x) =
     (let n = of_nat (length x) :: 64 word in be32 (ucast (drop_bit 32 n)) @ be32 (ucast (n AND 0xffffffff)) @ x)"

definition encode :: "item \<Rightarrow> bytes" where
  "encode x = tag_code (kind_tag (kind_of x)) # body x"

fun received :: "item \<Rightarrow> item" where
  "received (ILong x) = ILong (scast (ucast x :: 32 word))"
| "received (IULong x) = IULong (ucast (ucast x :: 32 word))"
| "received x = x"

fun sendable :: "item \<Rightarrow> bool" where
  "sendable (IStr x) \<longleftrightarrow> length x < 2 ^ 32"
| "sendable (IBlob x) \<longleftrightarrow> length x < 2 ^ 32"
| "sendable (ILargeBlob x) \<longleftrightarrow> length x < 2 ^ 64"
| "sendable _ \<longleftrightarrow> True"

definition bad_tag_text :: "'d vtable \<Rightarrow> tag \<Rightarrow> tag \<Rightarrow> string" where
  "bad_tag_text vt need got =
     ''Bad tag found in stream '' @ vt_print vt @ ''. Expecting a '' @ print_tag need @ '', got a '' @ print_tag got"

text \<open>Objects: items between the tags for start and end of object, read until \<^verbatim>\<open>next\<close> reports the end.\<close>

fun read_items :: "'d vtable \<Rightarrow> kind list \<Rightarrow> 'd stream \<Rightarrow> (item list \<times> 'd stream) comp" where
  "read_items vt [] s = Some (ok ([], s))"
| "read_items vt (k # ks) s =
     cbind (read_item vt k s) (\<lambda>(x, s). cbind (read_items vt ks s) (\<lambda>(xs, s). Some (ok (x # xs, s))))"

definition write_object :: "'d vtable \<Rightarrow> item list \<Rightarrow> 'd stream \<Rightarrow> 'd stream result" where
  "write_object vt xs s = rbind (startObject vt s) (\<lambda>s. rbind (out_each (write_item vt) xs s) (endObject vt))"

fun read_objects :: "'d vtable \<Rightarrow> kind list list \<Rightarrow> 'd stream \<Rightarrow> ((item list list \<times> bool) \<times> 'd stream) comp" where
  "read_objects vt [] s = cbind (next_object vt s) (\<lambda>(more, s). Some (ok (([], more), s)))"
| "read_objects vt (ks # kss) s =
     cbind (next_object vt s) (\<lambda>(more, s).
       if more then
         cbind (read_items vt ks s) (\<lambda>(xs, s).
           cbind (read_objects vt kss s) (\<lambda>((xss, more), s). Some (ok ((xs # xss, more), s))))
       else Some (ok (([], False), s)))"

definition encode_object :: "item list \<Rightarrow> bytes" where
  "encode_object xs = tag_code tag_start_obj # concat (map encode xs) @ [tag_code tag_end_obj]"

section \<open>What a stream on memory holds\<close>

definition ms_fits :: "memstream \<Rightarrow> nat \<Rightarrow> bool" where
  "ms_fits m n \<longleftrightarrow> mposition m + n \<le> msize m"

definition ms_taken :: "memstream \<Rightarrow> bytes" where
  "ms_taken m = take (mposition m) (maddress m)"

definition ms_pending :: "memstream \<Rightarrow> bytes" where
  "ms_pending m = drop (mposition m) (maddress m)"

definition ms_inv :: "memstream \<Rightarrow> bool" where
  "ms_inv m \<longleftrightarrow> length (maddress m) = msize m \<and> mposition m \<le> msize m"

definition ms_good :: "bytes \<Rightarrow> memstream \<Rightarrow> bool" where
  "ms_good m0 m \<longleftrightarrow> ms_inv m \<and> msize m = length m0 \<and> ms_pending m = drop (mposition m) m0"

definition rs_good :: "resizable \<Rightarrow> bool" where
  "rs_good r \<longleftrightarrow> buffer_inv (rbuffer r) \<and> rposition r \<le> bsize (rbuffer r)"

definition rs_taken :: "resizable \<Rightarrow> bytes" where
  "rs_taken r = take (rposition r) (view (rbuffer r))"

definition rs_pending :: "resizable \<Rightarrow> bytes" where
  "rs_pending r = drop (rposition r) (view (rbuffer r))"

section \<open>Bytes and words\<close>

lemma length_be32 [simp]: "length (be32 n) = 4"
  by (simp add: be32_def)

lemma of_be32_be32 [simp]: "of_be32 (be32 n) = n"
proof (rule bit_word_eqI)
  fix i
  assume "i < LENGTH(32)"
  then consider "i < 8" | "8 \<le> i" "i < 16" | "16 \<le> i" "i < 24" | "24 \<le> i" "i < 32" by fastforce
  then show "bit (of_be32 (be32 n)) i = bit n i"
    by cases (auto simp: be32_def of_be32_def bit_simps)
qed

lemma of_char_bound: "of_char c < (256 :: nat)"
  by (simp add: of_char_def)

lemma string_of_bytes_of [simp]: "string_of (bytes_of s) = s"
  by (induction s) (simp_all add: string_of_def bytes_of_def unat_of_nat take_bit_nat_eq_self of_char_bound)

lemma length_bytes_of [simp]: "length (bytes_of s) = length s"
  by (simp add: bytes_of_def)

lemma split_join64: "push_bit 32 (ucast (ucast (drop_bit 32 x) :: 32 word)) OR ucast (ucast (x AND 0xffffffff) :: 32 word) = (x :: 64 word)"
proof -
  have m: "(0xffffffff :: 64 word) = mask 32" by (simp add: mask_eq_exp_minus_1)
  show ?thesis unfolding m by (rule bit_word_eqI) (auto simp: bit_simps)
qed

lemma of_Double_Double_of: "of_Double \<lparr>hi = hi (Double_of x), lo = lo (Double_of x)\<rparr> = x"
  unfolding of_Double_def Double_of_def by (rule bit_word_eqI) (auto simp: bit_simps)

lemma tag_of_code: "(\<And>c. t \<noteq> raw_tag c) \<Longrightarrow> tag_of (tag_code t) = t"
  by (cases t) (auto simp: tag_of_def all_tags_def)

section \<open>Output\<close>

locale out_stream = byte_sink "vt_write vt" fits taken good
  for vt :: "'d vtable" and fits :: "'d \<Rightarrow> nat \<Rightarrow> bool" and taken :: "'d \<Rightarrow> bytes" and good :: "'d \<Rightarrow> bool"
begin

definition emits :: "('d stream \<Rightarrow> 'd stream result) \<Rightarrow> bytes \<Rightarrow> bool" where
  "emits f bs \<longleftrightarrow> (\<forall>s. good (dev s) \<longrightarrow>
     (if fits (dev s) (length bs) then
        \<exists>s'. f s = ok s' \<and> good (dev s') \<and> taken (dev s') = taken (dev s) @ bs \<and>
          (\<forall>n. fits (dev s') n \<longleftrightarrow> fits (dev s) (length bs + n)) \<and> lastTag s' = lastTag s \<and>
          writeCount s' = writeCount s + int (length bs)
      else f s = throw WriteError))"

lemma emitsD:
  assumes "emits f bs" "good (dev s)" "fits (dev s) (length bs)"
  obtains s' where "f s = ok s'" "good (dev s')" "taken (dev s') = taken (dev s) @ bs"
    "\<And>n. fits (dev s') n \<longleftrightarrow> fits (dev s) (length bs + n)" "lastTag s' = lastTag s" "writeCount s' = writeCount s + int (length bs)"
  using assms unfolding emits_def by (auto split: if_splits)

lemma emits_WriteError: "emits f bs \<Longrightarrow> good (dev s) \<Longrightarrow> \<not> fits (dev s) (length bs) \<Longrightarrow> f s = throw WriteError"
  by (simp add: emits_def)

lemma emitsI:
  assumes "\<And>s. good (dev s) \<Longrightarrow> fits (dev s) (length bs) \<Longrightarrow>
      \<exists>s'. f s = ok s' \<and> good (dev s') \<and> taken (dev s') = taken (dev s) @ bs \<and>
        (\<forall>n. fits (dev s') n \<longleftrightarrow> fits (dev s) (length bs + n)) \<and> lastTag s' = lastTag s \<and>
        writeCount s' = writeCount s + int (length bs)"
    and "\<And>s. good (dev s) \<Longrightarrow> \<not> fits (dev s) (length bs) \<Longrightarrow> f s = throw WriteError"
  shows "emits f bs"
  using assms unfolding emits_def by simp

lemma emits_putBytes: "emits (putBytes vt bs) bs"
proof (rule emitsI)
  fix s :: "'d stream"
  assume "good (dev s)" "fits (dev s) (length bs)"
  then obtain d where "vt_write vt bs (dev s) = ok (int (length bs), d)" "good d" "taken d = taken (dev s) @ bs"
    "\<forall>n. fits d n \<longleftrightarrow> fits (dev s) (length bs + n)" using sink_write [of "dev s" bs] by blast
  then show "\<exists>s'. putBytes vt bs s = ok s' \<and> good (dev s') \<and> taken (dev s') = taken (dev s) @ bs \<and>
        (\<forall>n. fits (dev s') n \<longleftrightarrow> fits (dev s) (length bs + n)) \<and> lastTag s' = lastTag s \<and>
        writeCount s' = writeCount s + int (length bs)"
    by (simp add: putBytes_def)
next
  fix s :: "'d stream"
  assume "good (dev s)" "\<not> fits (dev s) (length bs)"
  then show "putBytes vt bs s = throw WriteError" using sink_short [of "dev s" bs] by (auto simp: putBytes_def)
qed

lemma emits_ok: "emits ok []"
  by (simp add: emits_def sink_none)

lemma emits_bind:
  assumes f: "emits f as" and g: "emits g bs"
  shows "emits (\<lambda>s. rbind (f s) g) (as @ bs)"
proof (rule emitsI)
  fix s :: "'d stream"
  assume s: "good (dev s)" "fits (dev s) (length (as @ bs))"
  then have "fits (dev s) (length as)" using sink_less [of "dev s" "length as" "length bs"] by simp
  then obtain s1 where s1: "f s = ok s1" "good (dev s1)" "taken (dev s1) = taken (dev s) @ as"
    "\<And>n. fits (dev s1) n \<longleftrightarrow> fits (dev s) (length as + n)" "lastTag s1 = lastTag s" "writeCount s1 = writeCount s + int (length as)"
    using emitsD [OF f s(1)] by blast
  then have "fits (dev s1) (length bs)" using s(2) by simp
  then obtain s2 where s2: "g s1 = ok s2" "good (dev s2)" "taken (dev s2) = taken (dev s1) @ bs"
    "\<And>n. fits (dev s2) n \<longleftrightarrow> fits (dev s1) (length bs + n)" "lastTag s2 = lastTag s1" "writeCount s2 = writeCount s1 + int (length bs)"
    using emitsD [OF g s1(2)] by blast
  then show "\<exists>s'. rbind (f s) g = ok s' \<and> good (dev s') \<and> taken (dev s') = taken (dev s) @ as @ bs \<and>
        (\<forall>n. fits (dev s') n \<longleftrightarrow> fits (dev s) (length (as @ bs) + n)) \<and> lastTag s' = lastTag s \<and>
        writeCount s' = writeCount s + int (length (as @ bs))"
    using s1 by (intro exI [of _ s2]) (simp add: add.assoc)
next
  fix s :: "'d stream"
  assume s: "good (dev s)" "\<not> fits (dev s) (length (as @ bs))"
  show "rbind (f s) g = throw WriteError"
  proof (cases "fits (dev s) (length as)")
    case True
    then obtain s1 where "f s = ok s1" "good (dev s1)" "\<And>n. fits (dev s1) n \<longleftrightarrow> fits (dev s) (length as + n)"
      using emitsD [OF f s(1)] by blast
    then show ?thesis using emits_WriteError [OF g, of s1] s(2) by simp
  qed (simp add: emits_WriteError [OF f s(1)])
qed

lemma emits_putLong: "emits (putLong vt p) (be32 (ucast p))"
  by (simp add: putLong_def emits_putBytes)

lemma emits_putChar: "emits (putChar vt p) [p]"
  by (simp add: putChar_def emits_putBytes)

lemma emits_tag: "emits f bs \<Longrightarrow> emits (\<lambda>s. rbind (writeTag vt t s) f) (tag_code t # bs)"
  using emits_bind [OF emits_putBytes, of f bs "[tag_code t]"] by (simp add: writeTag_def)

lemma emits_tag_eta: "emits (writeTag vt t) [tag_code t]"
  by (simp add: writeTag_def emits_putBytes)

lemma emits_chunks: "n > 0 \<Longrightarrow> emits (put_chunks vt n p) p"
proof (induction p rule: measure_induct_rule [of length])
  case (less p)
  show ?case
  proof (cases "p = []")
    case True
    then have "put_chunks vt n p = ok" by (simp add: fun_eq_iff put_chunks.simps)
    then show ?thesis using True emits_ok by simp
  next
    case False
    define l where "l = (if length p > n then n else length p)"
    have "put_chunks vt n p = (\<lambda>s. rbind (putBytes vt (take l p) s) (put_chunks vt n (drop l p)))"
      using False less(2) by (intro ext) (subst put_chunks.simps, simp add: l_def Let_def)
    moreover have "emits (put_chunks vt n (drop l p)) (drop l p)" using less False by (intro less(1)) (auto simp: l_def)
    ultimately show ?thesis using emits_bind [OF emits_putBytes, of "put_chunks vt n (drop l p)" "drop l p" "take l p"] by simp
  qed
qed

end

section \<open>Input\<close>

locale in_stream = byte_source "vt_read vt" pending good
  for vt :: "'d vtable" and pending :: "'d \<Rightarrow> bytes" and good :: "'d \<Rightarrow> bool"
begin

definition ready :: "'d stream \<Rightarrow> bytes \<Rightarrow> bool" where
  "ready s bs \<longleftrightarrow> good (dev s) \<and> lastTag s = tag_zero \<and> pending (dev s) = bs"

definition yields :: "('d stream \<Rightarrow> ('a \<times> 'd stream) comp) \<Rightarrow> bytes \<Rightarrow> 'a \<Rightarrow> bool" where
  "yields f bs x \<longleftrightarrow> (\<forall>s rest. ready s (bs @ rest) \<longrightarrow> (\<exists>s'. f s = Some (ok (x, s')) \<and> ready s' rest))"

definition fails :: "('d stream \<Rightarrow> 'a comp) \<Rightarrow> bytes \<Rightarrow> eckit_error \<Rightarrow> bool" where
  "fails f bs e \<longleftrightarrow> (\<forall>s rest. ready s (bs @ rest) \<longrightarrow> f s = Some (throw e))"

lemma yields_return: "yields (\<lambda>s. Some (ok (x, s))) [] x"
  by (simp add: yields_def)

lemma yields_bind: "yields f as x \<Longrightarrow> yields (g x) bs y \<Longrightarrow> yields (\<lambda>s. cbind (f s) (\<lambda>(x, s). g x s)) (as @ bs) y"
  unfolding yields_def by fastforce

lemma yields_step: "yields f as x \<Longrightarrow> yields (g x) bs y \<Longrightarrow> cs = as @ bs \<Longrightarrow> yields (\<lambda>s. cbind (f s) (\<lambda>(x, s). g x s)) cs y"
  by (simp add: yields_bind)

lemma yields_map: "yields f as x \<Longrightarrow> y = h x \<Longrightarrow> yields (\<lambda>s. cbind (f s) (\<lambda>(x, s). Some (ok (h x, s)))) as y"
  by (rule yields_step) (auto intro: yields_return)

lemma fails_bind: "yields f as x \<Longrightarrow> fails (g x) bs e \<Longrightarrow> fails (\<lambda>s. cbind (f s) (\<lambda>(x, s). g x s)) (as @ bs) e"
  unfolding yields_def fails_def by fastforce

lemma fails_first: "fails f as e \<Longrightarrow> fails (\<lambda>s. cbind (f s) g) as e"
  unfolding fails_def by fastforce

lemma fails_throw: "fails (\<lambda>s. Some (throw e)) [] e"
  by (simp add: fails_def)

lemma yields_getBytes: "length bs = n \<Longrightarrow> yields (getBytes vt n) bs bs"
  unfolding yields_def
proof (intro allI impI)
  fix s rest
  assume n: "length bs = n" and r: "ready s (bs @ rest)"
  obtain d where d: "vt_read vt n (dev s) = ok (int (length (take n (pending (dev s)))), take n (pending (dev s)), d)" "good d"
    "pending d = drop n (pending (dev s))" using source_read r unfolding ready_def by blast
  have "pending (dev s) = bs @ rest" using r by (simp add: ready_def)
  then have "vt_read vt n (dev s) = ok (int n, bs, d)" "pending d = rest" using d n by simp_all
  then show "\<exists>s'. getBytes vt n s = Some (ok (bs, s')) \<and> ready s' rest"
    using r d(2) by (auto simp: getBytes_def ready_def)
qed

lemma yields_getChar: "yields (getChar vt) [c] c"
  unfolding getChar_def [abs_def] by (rule yields_map [OF yields_getBytes]) simp_all

lemma yields_getLong: "yields (getLong vt) (be32 n) (ucast n)"
  unfolding getLong_def [abs_def] by (rule yields_map [OF yields_getBytes]) simp_all

lemma yields_getChars: "yields (getChars vt (length cs)) cs cs"
proof (induction cs)
  case (Cons c cs)
  have "yields (\<lambda>s. cbind (getChar vt s) (\<lambda>(c, s). cbind (getChars vt (length cs) s) (\<lambda>(cs, s). Some (ok (c # cs, s))))) (c # cs) (c # cs)"
    by (rule yields_step [OF yields_getChar]) (rule yields_map [OF Cons], simp_all)
  then show ?case by simp
qed (simp add: yields_return)

lemma yields_getChars': "length cs = n \<Longrightarrow> yields (getChars vt n) cs cs"
  using yields_getChars by blast

lemma unat_length32: "length str < 2 ^ 32 \<Longrightarrow> unat (ucast (of_nat (length str) :: 32 word) :: 64 word) = length str"
  by (simp add: unsigned_ucast_eq unat_of_nat take_bit_nat_eq_self)

lemma yields_getString:
  assumes "length str < 2 ^ 32"
  shows "yields (getString vt) (be32 (of_nat (length str)) @ bytes_of str) str"
  unfolding getString_def [abs_def]
  by (rule yields_step [OF yields_getLong]) (rule yields_map [OF yields_getBytes], simp_all add: unat_length32 [OF assms])

lemma yields_nextTag: "(\<And>c. t \<noteq> raw_tag c) \<Longrightarrow> yields (nextTag vt) [tag_code t] t"
  unfolding yields_def
proof (intro allI impI)
  fix s rest
  assume t: "\<And>c. t \<noteq> raw_tag c" and r: "ready s ([tag_code t] @ rest)"
  obtain d where d: "vt_read vt 1 (dev s) = ok (int (length (take 1 (pending (dev s)))), take 1 (pending (dev s)), d)" "good d"
    "pending d = drop 1 (pending (dev s))" using source_read r unfolding ready_def by blast
  then have "vt_read vt 1 (dev s) = ok (1, [tag_code t], d)" "pending d = rest" using r by (simp_all add: ready_def)
  then show "\<exists>s'. nextTag vt s = Some (ok (t, s')) \<and> ready s' rest"
    using r d(2) tag_of_code [OF t] by (auto simp: nextTag_def ready_def)
qed

lemma nextTag_at_end: "ready s [] \<Longrightarrow> \<exists>s'. nextTag vt s = Some (ok (tag_eof, s')) \<and> ready s' []"
proof -
  assume r: "ready s []"
  obtain d where "vt_read vt 1 (dev s) = ok (int (length (take 1 (pending (dev s)))), take 1 (pending (dev s)), d)" "good d"
    "pending d = drop 1 (pending (dev s))" using source_read r unfolding ready_def by blast
  then show ?thesis using r by (auto simp: nextTag_def ready_def)
qed

lemma yields_skip:
  assumes "\<And>c. t \<noteq> raw_tag c" "t \<noteq> tag_end_obj"
  shows "yields (skip_end_obj vt) (replicate n (tag_code tag_end_obj) @ [tag_code t]) t"
proof (induction n)
  case 0
  show ?case
    by (subst skip_end_obj.simps [abs_def]) (rule yields_step [OF yields_nextTag [OF assms(1)]], use assms(2) yields_return in simp_all)
next
  case (Suc n)
  show ?case
    by (subst skip_end_obj.simps [abs_def]) (rule yields_step [OF yields_nextTag [of tag_end_obj]], use Suc in simp_all)
qed

lemmas yields_skip_none = yields_skip [where n = 0, simplified]

lemma fails_step: "yields f as x \<Longrightarrow> fails (g x) bs e \<Longrightarrow> cs = as @ bs \<Longrightarrow> fails (\<lambda>s. cbind (f s) (\<lambda>(x, s). g x s)) cs e"
  by (simp add: fails_bind)

lemma yields_readTag:
  assumes "\<And>c. t \<noteq> raw_tag c" "t \<noteq> tag_end_obj" "t \<noteq> tag_exception"
  shows "yields (readTag vt t) (replicate n (tag_code tag_end_obj) @ [tag_code t]) t"
  by (subst readTag.simps [abs_def]) (rule yields_step [OF yields_skip [OF assms(1,2)]], use assms(3) yields_return in simp_all)

lemmas yields_readTag_none = yields_readTag [where n = 0, simplified]

lemma fails_readTag:
  assumes "\<And>c. t \<noteq> raw_tag c" "t \<notin> {tag_end_obj, tag_exception, tag_string}" "need \<noteq> t"
  shows "fails (readTag vt need) [tag_code t] (BadTag (bad_tag_text vt need t))"
  by (subst readTag.simps [abs_def])
    (rule fails_step [OF yields_skip_none [OF assms(1)]], use assms(2,3) fails_throw in \<open>simp_all add: badTag_def bad_tag_text_def\<close>)

lemma fails_badTag_string:
  assumes "length str < 2 ^ 32"
  shows "fails (badTag vt need tag_string) (be32 (of_nat (length str)) @ bytes_of str) (BadTag (bad_tag_text vt need tag_string))"
proof -
  have "fails (\<lambda>s. cbind (getLong vt s) (\<lambda>(len, s). cbind (getChars vt (unat len) s)
      (\<lambda>(x, s). Some (throw (BadTag (bad_tag_text vt need tag_string)))))) (be32 (of_nat (length str)) @ bytes_of str)
      (BadTag (bad_tag_text vt need tag_string))"
    by (rule fails_step [OF yields_getLong [of "of_nat (length str)"]])
      (rule fails_step [OF yields_getChars' [of "bytes_of str"]], use unat_length32 [OF assms] fails_throw in simp_all)
  then show ?thesis by (simp add: badTag_def [abs_def] bad_tag_text_def case_prod_beta')
qed

lemma fails_readTag_string:
  assumes "length str < 2 ^ 32" "need \<noteq> tag_string"
  shows "fails (readTag vt need) (tag_code tag_string # be32 (of_nat (length str)) @ bytes_of str) (BadTag (bad_tag_text vt need tag_string))"
  by (subst readTag.simps [abs_def])
    (rule fails_step [OF yields_skip_none [of tag_string]], use assms fails_badTag_string in simp_all)

lemma fails_readTag_exception:
  assumes "length str < 2 ^ 32"
  shows "fails (readTag vt need) (tag_code tag_exception # tag_code tag_string # be32 (of_nat (length str)) @ bytes_of str)
     (RemoteException str (vt_name vt))"
proof -
  have "fails (\<lambda>s. cbind (readTag vt tag_string s) (\<lambda>(_, s).
           cbind (getString vt s) (\<lambda>(str, s). Some (throw (RemoteException str (vt_name vt))))))
      (tag_code tag_string # be32 (of_nat (length str)) @ bytes_of str) (RemoteException str (vt_name vt))"
    by (rule fails_step [OF yields_readTag_none [of tag_string]], simp_all)
      (rule fails_step [OF yields_getString [OF assms]], use fails_throw in simp_all)
  then show ?thesis
    by (subst readTag.simps [abs_def]) (rule fails_step [OF yields_skip_none [of tag_exception]], simp_all)
qed

lemma yields_chunks: "n > 0 \<Longrightarrow> yields (get_chunks vt n (length p)) p p"
proof (induction p rule: measure_induct_rule [of length])
  case (less p)
  show ?case
  proof (cases "p = []")
    case True
    then have "get_chunks vt n (length p) = (\<lambda>s. Some (ok ([], s)))" by (simp add: fun_eq_iff get_chunks.simps)
    then show ?thesis using True yields_return by simp
  next
    case False
    define l where "l = (if length p > n then n else length p)"
    have l: "length (take l p) = l" "length (drop l p) = length p - l" "length (drop l p) < length p"
      using False less(2) by (auto simp: l_def)
    have "get_chunks vt n (length p) = (\<lambda>s. cbind (getBytes vt l s) (\<lambda>(bs, s).
        cbind (get_chunks vt n (length (drop l p)) s) (\<lambda>(rest, s). Some (ok (bs @ rest, s)))))"
      using False less(2) by (intro ext) (subst get_chunks.simps, simp add: l_def Let_def)
    moreover have "yields \<dots> p p"
      by (rule yields_step [OF yields_getBytes [OF l(1)]]) (rule yields_map [OF less(1) [OF l(3) less(2)]], simp_all)
    ultimately show ?thesis by simp
  qed
qed

end

lemma ucast_32 [simp]: "ucast (ucast (x :: 32 word) :: 64 word) = x"
  by (rule bit_word_eqI) (simp add: bit_simps)

lemma ucast_16 [simp]: "ucast (ucast (ucast (x :: 16 word) :: 32 word) :: 64 word) = x"
  "ucast (ucast (x :: 16 word) :: 64 word) = (ucast x :: 32 word)"
  by (rule bit_word_eqI; simp add: bit_simps)+

lemma sint_nonneg: "unat (w :: 64 word) < 2 ^ 63 \<Longrightarrow> 0 \<le> sint w"
proof -
  assume "unat w < 2 ^ 63"
  then have "\<not> bit (unat w) 63" by (simp add: bit_iff_odd)
  then have "\<not> bit w 63" by (simp add: bit_unsigned_iff)
  then show ?thesis by (simp add: sint_uint signed_take_bit_eq_if_positive bit_simps)
qed

lemma length64: "n < 2 ^ 64 \<Longrightarrow> unat (of_nat n :: 64 word) = n"
  by (simp add: unat_of_nat take_bit_nat_eq_self)

lemmas out_defs = out_char_def [abs_def] out_unsigned_char_def [abs_def] out_int_def [abs_def] out_bool_def [abs_def]
  out_unsigned_int_def [abs_def] out_short_def [abs_def] out_unsigned_short_def [abs_def] out_long_def [abs_def]
  out_unsigned_long_def [abs_def] out_long_long_def [abs_def] out_unsigned_long_long_def [abs_def] out_double_def [abs_def]
  out_string_def [abs_def] writeBlob_def [abs_def] writeLargeBlob_def [abs_def] Let_def

lemmas in_defs = in_char_def [abs_def] in_unsigned_char_def [abs_def] in_int_def [abs_def] in_bool_def [abs_def]
  in_unsigned_int_def [abs_def] in_short_def [abs_def] in_unsigned_short_def [abs_def] in_long_def [abs_def]
  in_unsigned_long_def [abs_def] in_long_long_def [abs_def] in_unsigned_long_long_def [abs_def] in_double_def [abs_def]
  in_string_def [abs_def] readBlob_def [abs_def] readLargeBlob_def [abs_def] Let_def

context out_stream
begin

lemma emits_step: "emits f as \<Longrightarrow> emits g bs \<Longrightarrow> cs = as @ bs \<Longrightarrow> emits (\<lambda>s. rbind (f s) g) cs"
  by (simp add: emits_bind)

lemma emits_long: "bs = be32 (ucast p) \<Longrightarrow> emits (putLong vt p) bs"
  by (simp add: emits_putLong)

lemma emits_item: "sendable x \<Longrightarrow> emits (write_item vt x) (encode x)"
proof (cases x)
  case (IBlob bs)
  assume "sendable x"
  then have "length bs < 2 ^ 32" using IBlob by simp
  then have "unat (of_nat (length bs) :: 64 word) = length bs" "0 \<le> sint (of_nat (length bs) :: 64 word)"
    by (auto intro!: length64 sint_nonneg simp: length64)
  moreover have "(ucast (of_nat (length bs) :: 64 word) :: 32 word) = of_nat (length bs)" by (rule bit_word_eqI) (simp add: bit_simps)
  ultimately show ?thesis using IBlob
    by (auto simp: encode_def out_defs simp del: tag_code.simps intro!: emits_tag emits_step [OF emits_putLong] emits_putBytes)
next
  case (ILargeBlob bs)
  assume "sendable x"
  then have "unat (of_nat (length bs) :: 64 word) = length bs" using ILargeBlob by (simp add: length64)
  then show ?thesis using ILargeBlob
    by (auto simp: encode_def out_defs chunk_def simp del: tag_code.simps
        intro!: emits_tag emits_step [OF emits_putLong] emits_step [OF emits_putLong] emits_chunks)
next
  case (IStr str)
  have "(ucast (of_nat (length str) :: 64 word) :: 32 word) = of_nat (length str)" by (rule bit_word_eqI) (simp add: bit_simps)
  then show ?thesis using IStr
    by (auto simp: encode_def out_defs simp del: tag_code.simps intro!: emits_tag emits_step [OF emits_putLong] emits_putBytes)
qed (auto simp: encode_def out_defs simp del: tag_code.simps
    intro!: emits_tag emits_putChar emits_step [OF emits_putLong] emits_long emits_putBytes)

lemma emits_items: "\<forall>x \<in> set xs. sendable x \<Longrightarrow> emits (out_each (write_item vt) xs) (concat (map encode xs))"
proof (induction xs)
  case Nil
  have "out_each (write_item vt) [] = ok" by (simp add: fun_eq_iff)
  then show ?case using emits_ok by simp
next
  case (Cons x xs)
  have "out_each (write_item vt) (x # xs) = (\<lambda>s. rbind (write_item vt x s) (out_each (write_item vt) xs))" by (simp add: fun_eq_iff)
  then show ?case using Cons emits_step [OF emits_item Cons(1), of x] by simp
qed

end

context in_stream
begin

lemma yields_tagged:
  assumes "yields f bs x" "\<And>c. t \<noteq> raw_tag c" "t \<noteq> tag_end_obj" "t \<noteq> tag_exception"
  shows "yields (\<lambda>s. cbind (readTag vt t s) (\<lambda>(_, s). f s)) (replicate n (tag_code tag_end_obj) @ tag_code t # bs) x"
  by (rule yields_step [OF yields_readTag [of t n]]) (use assms in simp_all)

lemma yields_long: "bs = be32 w \<Longrightarrow> y = ucast w \<Longrightarrow> yields (getLong vt) bs y"
  using yields_getLong by blast

lemma yields_long_map: "bs = be32 w \<Longrightarrow> y = h (ucast w) \<Longrightarrow> yields (\<lambda>s. cbind (getLong vt s) (\<lambda>(u, s). Some (ok (h u, s)))) bs y"
  by (hypsubst, rule yields_map [OF yields_getLong refl])

lemma yields_two_longs:
  "bs = be32 a @ be32 b \<Longrightarrow> y = h (ucast a) (ucast b) \<Longrightarrow>
   yields (\<lambda>s. cbind (getLong vt s) (\<lambda>(u, s). cbind (getLong vt s) (\<lambda>(v, s). Some (ok (h u v, s))))) bs y"
  by (rule yields_step [OF yields_getLong]) (rule yields_long_map, simp_all)

lemma yields_blob:
  assumes "length p < 2 ^ 32"
  shows "yields (\<lambda>s. cbind (getLong vt s) (\<lambda>(len, s). if sint len < 0 then Some (throw AssertionFailed)
     else if unat len \<noteq> length p then Some (throw AssertionFailed) else getBytes vt (unat len) s)) (be32 (of_nat (length p)) @ p) p"
proof -
  have "0 \<le> sint (ucast (of_nat (length p) :: 32 word) :: 64 word)"
    using unat_length32 [OF assms] assms by (intro sint_nonneg) simp
  then show ?thesis
    by (intro yields_step [OF yields_getLong]) (use yields_getBytes unat_length32 [OF assms] in simp_all)
qed

lemma yields_large_blob:
  assumes "length p < 2 ^ 64"
  defines "n \<equiv> of_nat (length p) :: 64 word"
  shows "yields (\<lambda>s. cbind (getLong vt s) (\<lambda>(u1, s). cbind (getLong vt s) (\<lambda>(u2, s).
         if unat (push_bit 32 u1 OR u2) = length p then get_chunks vt chunk (length p) s else Some (throw AssertionFailed))))
      (be32 (ucast (drop_bit 32 n)) @ be32 (ucast (n AND 0xffffffff)) @ p) p"
proof -
  have "unat n = length p" using assms by (simp add: length64)
  then have k: "yields (\<lambda>s. if unat (push_bit 32 (ucast (ucast (drop_bit 32 n) :: 32 word)) OR ucast (ucast (n AND 0xffffffff) :: 32 word) :: 64 word) = length p
      then get_chunks vt chunk (length p) s else Some (throw AssertionFailed)) p p"
    using split_join64 [of n] yields_chunks [of chunk p] by (simp add: chunk_def)
  show ?thesis
    by (rule yields_step [OF yields_getLong _ refl], rule yields_step [OF yields_getLong _ refl], rule k)
qed

lemma yields_item_after:
  assumes "sendable x"
  shows "yields (read_item vt (kind_of x)) (replicate n (tag_code tag_end_obj) @ encode x) (received x)"
proof -
  note [intro!] = yields_tagged yields_long_map yields_long yields_two_longs yields_getChar yields_map
  show ?thesis
  proof (cases x)
    case (IBool b)
    have "yields (in_int vt) (replicate n (tag_code tag_end_obj) @ tag_code tag_int # be32 (if b then 1 else 0)) (if b then 1 else 0)"
      unfolding in_defs by (rule yields_tagged) (auto simp del: tag_code.simps)
    then have "yields (in_bool vt) (replicate n (tag_code tag_end_obj) @ tag_code tag_int # be32 (if b then 1 else 0)) b"
      unfolding in_bool_def [abs_def] by (rule yields_map) simp
    then show ?thesis unfolding IBool kind_of.simps read_item.simps cmap_def encode_def by (auto simp del: tag_code.simps)
  next
    case (IDbl d)
    have "yields (in_double vt) (replicate n (tag_code tag_end_obj) @ tag_code tag_double # be32 (hi (Double_of d)) @ be32 (lo (Double_of d))) d"
      unfolding in_double_def [abs_def]
      by (rule yields_tagged, rule yields_two_longs, rule refl, simp only: ucast_32 of_Double_Double_of) (simp_all del: tag_code.simps)
    then show ?thesis unfolding IDbl kind_of.simps read_item.simps cmap_def encode_def by (auto simp del: tag_code.simps)
  next
    case (ILargeBlob p)
    then show ?thesis using assms yields_large_blob [of p]
      by (auto simp: encode_def cmap_def in_defs simp del: tag_code.simps)
  qed (use assms yields_getString yields_blob in
      \<open>auto simp: encode_def cmap_def in_defs split_join64 simp del: tag_code.simps\<close>)
qed

end

section \<open>Objects, failures and exceptions\<close>

context out_stream
begin

lemma emits_each:
  assumes "\<And>x. x \<in> set xs \<Longrightarrow> emits (f x) (enc x)"
  shows "emits (out_each f xs) (concat (map enc xs))"
  using assms
proof (induction xs)
  case Nil
  have "out_each f [] = ok" by (simp add: fun_eq_iff)
  then show ?case using emits_ok by simp
next
  case (Cons x xs)
  have "out_each f (x # xs) = (\<lambda>s. rbind (f x s) (out_each f xs))" by (simp add: fun_eq_iff)
  then show ?case using Cons emits_step [of "f x" "enc x" "out_each f xs"] by simp
qed

lemma emits_object:
  assumes "\<forall>x \<in> set xs. sendable x"
  shows "emits (write_object vt xs) (encode_object xs)"
proof -
  have "emits (endObject vt) [tag_code tag_end_obj]" unfolding endObject_def by (rule emits_tag_eta)
  then have "emits (\<lambda>s. rbind (out_each (write_item vt) xs s) (endObject vt)) (concat (map encode xs) @ [tag_code tag_end_obj])"
    using assms by (intro emits_bind emits_each emits_item) auto
  from emits_tag [OF this, of tag_start_obj] show ?thesis
    by (simp add: write_object_def [abs_def] startObject_def encode_object_def del: tag_code.simps)
qed

end

context in_stream
begin

lemmas yields_item = yields_item_after [where n = 0, simplified]

lemma yields_items: "\<forall>x \<in> set xs. sendable x \<Longrightarrow> yields (read_items vt (map kind_of xs)) (concat (map encode xs)) (map received xs)"
proof (induction xs)
  case (Cons x xs)
  have "yields (\<lambda>s. cbind (read_item vt (kind_of x) s) (\<lambda>(x, s). cbind (read_items vt (map kind_of xs) s) (\<lambda>(xs, s). Some (ok (x # xs, s)))))
      (encode x @ concat (map encode xs)) (received x # map received xs)"
    by (rule yields_step [OF yields_item _ refl]) (use Cons in \<open>auto intro!: yields_map\<close>)
  then show ?case by simp
qed (simp add: yields_def)

lemma yields_next_object: "yields (next_object vt) (replicate n (tag_code tag_end_obj) @ [tag_code tag_start_obj]) True"
proof (induction n)
  case 0
  show ?case
    by (subst next_object.simps [abs_def]) (rule yields_step [OF yields_nextTag [of tag_start_obj]], use yields_return in simp_all)
next
  case (Suc n)
  show ?case
    by (subst next_object.simps [abs_def]) (rule yields_step [OF yields_nextTag [of tag_end_obj]], use Suc in simp_all)
qed

lemma next_object_end: "ready s (replicate n (tag_code tag_end_obj)) \<Longrightarrow> \<exists>s'. next_object vt s = Some (ok (False, s'))"
proof (induction n arbitrary: s)
  case 0
  then obtain s' where "nextTag vt s = Some (ok (tag_eof, s'))" using nextTag_at_end [of s] by auto
  then show ?case by (subst next_object.simps) simp
next
  case (Suc n)
  then have "ready s ([tag_code tag_end_obj] @ replicate n (tag_code tag_end_obj))" by simp
  then obtain s' where "nextTag vt s = Some (ok (tag_end_obj, s'))" "ready s' (replicate n (tag_code tag_end_obj))"
    using yields_nextTag [of tag_end_obj] unfolding yields_def by blast
  then show ?case using Suc(1) [of s'] by (subst next_object.simps) simp
qed

lemma yieldsD: "yields f bs x \<Longrightarrow> ready s (bs @ rest) \<Longrightarrow> \<exists>s'. f s = Some (ok (x, s')) \<and> ready s' rest"
  by (simp add: yields_def)

lemma read_objects_all:
  "\<forall>xs \<in> set xss. \<forall>x \<in> set xs. sendable x \<Longrightarrow>
   ready s (replicate n (tag_code tag_end_obj) @ concat (map encode_object xss)) \<Longrightarrow>
   \<exists>s'. read_objects vt (map (map kind_of) xss) s = Some (ok ((map (map received) xss, False), s'))"
proof (induction xss arbitrary: s n)
  case Nil
  then show ?case using next_object_end [of s n] by auto
next
  case (Cons xs xss)
  let ?rest = "concat (map encode_object xss)"
  have "ready s ((replicate n (tag_code tag_end_obj) @ [tag_code tag_start_obj]) @ concat (map encode xs) @ tag_code tag_end_obj # ?rest)"
    using Cons(3) encode_object_def [of xs] by (simp del: tag_code.simps)
  from yieldsD [OF yields_next_object this] obtain s1 where s1: "next_object vt s = Some (ok (True, s1))"
    "ready s1 (concat (map encode xs) @ tag_code tag_end_obj # ?rest)" by blast
  from yieldsD [OF yields_items s1(2)] Cons(2) obtain s2 where s2: "read_items vt (map kind_of xs) s1 = Some (ok (map received xs, s2))"
    "ready s2 (tag_code tag_end_obj # ?rest)" by auto
  then have "ready s2 (replicate 1 (tag_code tag_end_obj) @ ?rest)" by simp
  then show ?case using Cons(1) [of s2 1] Cons(2) s1(1) s2(1) by auto
qed

lemma fails_more: "fails f as e \<Longrightarrow> fails f (as @ bs) e"
  unfolding fails_def by (metis append.assoc)

lemma fails_item_tag: "fails (readTag vt (kind_tag k)) bs e \<Longrightarrow> fails (read_item vt k) bs e"
  by (cases k) (auto simp: cmap_def in_defs intro!: fails_first)

lemma fails_item:
  assumes "sendable x" "kind_tag k \<noteq> kind_tag (kind_of x)"
  shows "fails (read_item vt k) (encode x) (BadTag (bad_tag_text vt (kind_tag k) (kind_tag (kind_of x))))"
proof (rule fails_item_tag, cases "kind_tag (kind_of x) = tag_string")
  case True
  then obtain str where "x = IStr str" by (cases x) auto
  then show "fails (readTag vt (kind_tag k)) (encode x) (BadTag (bad_tag_text vt (kind_tag k) (kind_tag (kind_of x))))"
    using fails_readTag_string [of str "kind_tag k"] assms by (simp add: encode_def del: tag_code.simps)
next
  case False
  moreover have "kind_tag (kind_of x) \<noteq> raw_tag c" "kind_tag (kind_of x) \<noteq> tag_end_obj" "kind_tag (kind_of x) \<noteq> tag_exception" for c
    by (cases x; simp)+
  ultimately show "fails (readTag vt (kind_tag k)) (encode x) (BadTag (bad_tag_text vt (kind_tag k) (kind_tag (kind_of x))))"
    using fails_more [OF fails_readTag [of "kind_tag (kind_of x)" "kind_tag k"], of "body x"] assms(2) by (simp add: encode_def del: tag_code.simps)
qed

lemma fails_item_exception:
  "length e < 2 ^ 32 \<Longrightarrow> fails (read_item vt k) (tag_code tag_exception # encode (IStr e)) (RemoteException e (vt_name vt))"
  using fails_readTag_exception [of e "kind_tag k"] by (intro fails_item_tag) (simp add: encode_def del: tag_code.simps)

lemma failsD: "fails f bs e \<Longrightarrow> ready s (bs @ rest) \<Longrightarrow> f s = Some (throw e)"
  unfolding fails_def by blast

end

section \<open>Containers\<close>

definition encode_pair :: "string \<times> string \<Rightarrow> bytes" where
  "encode_pair kv = encode (IStr (fst kv)) @ encode (IStr (snd kv))"

context out_stream
begin

lemma emits_string: "emits (out_string vt x) (encode (IStr x))"
proof -
  have "emits (\<lambda>s. rbind (putLong vt (of_nat (length x)) s) (putBytes vt (bytes_of x))) (be32 (ucast (of_nat (length x) :: 64 word)) @ bytes_of x)"
    by (rule emits_bind [OF emits_putLong emits_putBytes])
  moreover have "(ucast (of_nat (length x) :: 64 word) :: 32 word) = of_nat (length x)" by (rule bit_word_eqI) (simp add: bit_simps)
  ultimately show ?thesis unfolding out_string_def [abs_def] encode_def using emits_tag by (simp del: tag_code.simps)
qed

lemma emits_count: "emits (out_unsigned_long vt n) (encode (IULong n))"
  using emits_item [of "IULong n"] by simp

lemma emits_exception: "emits (out_exception vt e) (tag_code tag_exception # encode (IStr e))"
  unfolding out_exception_def [abs_def] by (rule emits_tag [OF emits_string])

lemma emits_map: "emits (out_map vt (out_string vt) (out_string vt) kvs) (encode (IULong (of_nat (length kvs))) @ concat (map encode_pair kvs))"
proof -
  have "emits ((\<lambda>(k, v) s. rbind (out_string vt k s) (out_string vt v)) kv) (encode_pair kv)" for kv
    unfolding encode_pair_def by (cases kv) (simp add: emits_bind [OF emits_string emits_string])
  then show ?thesis unfolding out_map_def [abs_def] by (intro emits_bind [OF emits_count] emits_each)
qed

lemma emits_vector:
  "(\<And>x. x \<in> set xs \<Longrightarrow> emits (f x) (enc x)) \<Longrightarrow>
   emits (out_vector vt f xs) (encode (IULong (of_nat (length xs))) @ concat (map enc xs))"
  unfolding out_vector_def [abs_def] by (intro emits_bind [OF emits_count] emits_each)

end

context in_stream
begin

lemma yields_string: "length x < 2 ^ 32 \<Longrightarrow> yields (in_string vt) (encode (IStr x)) x"
  unfolding in_string_def [abs_def] encode_def using yields_tagged [where n = 0, OF yields_getString] by (simp del: tag_code.simps)

lemma yields_count: "n < 2 ^ 32 \<Longrightarrow> yields (in_unsigned_long vt) (encode (IULong (of_nat n))) (of_nat n)"
proof -
  assume n: "n < 2 ^ 32"
  have "(ucast (ucast (of_nat n :: 64 word) :: 32 word) :: 64 word) = of_nat n"
    using n by (intro word_unat_eq_iff [THEN iffD2]) (simp add: unsigned_ucast_eq unsigned_take_bit_eq unat_of_nat take_bit_nat_eq_self)
  moreover have "yields (getLong vt) (be32 (ucast (of_nat n :: 64 word))) (ucast (ucast (of_nat n :: 64 word) :: 32 word))"
    by (rule yields_getLong)
  ultimately show ?thesis
    unfolding in_unsigned_long_def [abs_def] encode_def
    using yields_tagged [where n = 0 and f = "getLong vt" and t = tag_unsigned_long] by (simp del: tag_code.simps)
qed

lemma yields_pairs:
  "\<forall>(k, v) \<in> set kvs. length k < 2 ^ 32 \<and> length v < 2 ^ 32 \<Longrightarrow>
   yields (in_pairs vt (length kvs) m) (concat (map encode_pair kvs)) (m ++ map_of (rev kvs))"
proof (induction kvs arbitrary: m)
  case (Cons kv kvs)
  obtain k v where kv: "kv = (k, v)" by fastforce
  have "yields (\<lambda>s. cbind (in_string vt s) (\<lambda>(k, s). cbind (in_string vt s) (\<lambda>(v, s). in_pairs vt (length kvs) (m(k \<mapsto> v)) s)))
      (encode (IStr k) @ encode (IStr v) @ concat (map encode_pair kvs)) (m(k \<mapsto> v) ++ map_of (rev kvs))"
    by (rule yields_step [OF yields_string _ refl], use Cons(2) kv in force, rule yields_step [OF yields_string _ refl])
      (use Cons kv in auto)
  moreover have "m(k \<mapsto> v) ++ map_of (rev kvs) = m ++ map_of (rev (kv # kvs))"
    by (auto simp: kv map_add_def fun_eq_iff split: option.splits)
  moreover have "concat (map encode_pair (kv # kvs)) = encode (IStr k) @ encode (IStr v) @ concat (map encode_pair kvs)"
    by (simp add: kv encode_pair_def)
  moreover have "in_pairs vt (length (kv # kvs)) m =
      (\<lambda>s. cbind (in_string vt s) (\<lambda>(k, s). cbind (in_string vt s) (\<lambda>(v, s). in_pairs vt (length kvs) (m(k \<mapsto> v)) s)))"
    by (simp add: fun_eq_iff)
  ultimately show ?case by metis
qed (simp add: yields_def)

lemma yields_string_map:
  assumes "\<forall>(k, v) \<in> set kvs. length k < 2 ^ 32 \<and> length v < 2 ^ 32" "length kvs < 2 ^ 32"
  shows "yields (in_string_map vt) (encode (IULong (of_nat (length kvs))) @ concat (map encode_pair kvs)) (map_of (rev kvs))"
proof -
  have "unat (of_nat (length kvs) :: 64 word) = length kvs" using assms(2) by (simp add: length64)
  then show ?thesis
    unfolding in_string_map_def [abs_def]
    using yields_step [OF yields_count [OF assms(2)], where g = "\<lambda>n. in_pairs vt (unat n) Map.empty"] yields_pairs [OF assms(1), of Map.empty] by simp
qed

lemma yields_each:
  "(\<And>x. x \<in> set xs \<Longrightarrow> yields f (enc x) x) \<Longrightarrow> yields (in_each f (length xs)) (concat (map enc xs)) xs"
proof (induction xs)
  case (Cons x xs)
  have "yields (\<lambda>s. cbind (f s) (\<lambda>(x, s). cbind (in_each f (length xs) s) (\<lambda>(xs, s). Some (ok (x # xs, s))))) (enc x @ concat (map enc xs)) (x # xs)"
    by (rule yields_step [OF _ _ refl], rule Cons(2)) (use Cons in \<open>auto intro!: yields_map\<close>)
  then show ?case by simp
qed (simp add: yields_def)

lemma yields_vector:
  assumes "\<And>x. x \<in> set xs \<Longrightarrow> yields f (enc x) x" "length xs < 2 ^ 32"
  shows "yields (in_vector vt f) (encode (IULong (of_nat (length xs))) @ concat (map enc xs)) xs"
proof -
  have "unat (of_nat (length xs) :: 64 word) = length xs" using assms(2) by (simp add: length64)
  then show ?thesis
    unfolding in_vector_def [abs_def]
    using yields_step [OF yields_count [OF assms(2)], where g = "\<lambda>n. in_each f (unat n)"] yields_each [OF assms(1)] by simp
qed

end

section \<open>The devices\<close>

lemma MemoryStream_vt_simps [simp]: "vt_write MemoryStream_vt = ms_write" "vt_read MemoryStream_vt = ms_read"
  by (simp_all add: MemoryStream_vt_def)

lemma Resizable_vt_simps [simp]:
  "vt_write (ResizableMemoryStream_vt fresh) = rs_write fresh" "vt_read (ResizableMemoryStream_vt fresh) = rs_read"
  by (simp_all add: ResizableMemoryStream_vt_def)

lemma ms_write_spec:
  assumes "ms_good m0 m" "ms_fits m (length bs)"
  shows "\<exists>m'. ms_write bs m = ok (int (length bs), m') \<and> ms_good m0 m' \<and> ms_taken m' = ms_taken m @ bs \<and>
    (\<forall>n. ms_fits m' n \<longleftrightarrow> ms_fits m (length bs + n))"
proof -
  have n: "min (msize m - mposition m) (length bs) = length bs" using assms by (simp add: ms_fits_def)
  let ?m = "m\<lparr>maddress := memcpy (maddress m) (mposition m) bs (length bs), mposition := mposition m + length bs\<rparr>"
  have l: "length (maddress m) = msize m" "mposition m + length bs \<le> msize m" using assms by (simp_all add: ms_good_def ms_inv_def ms_fits_def)
  have p: "ms_pending ?m = drop (length bs) (ms_pending m)" using l by (simp add: ms_pending_def memcpy_def add.commute)
  have "ms_write bs m = ok (int (length bs), ?m)" unfolding ms_write_def Let_def n ..
  moreover have "ms_good m0 ?m" using assms l p by (simp add: ms_good_def ms_inv_def length_memcpy add.commute)
  moreover have "ms_taken ?m = ms_taken m @ bs" using l by (simp add: ms_taken_def memcpy_def)
  ultimately show ?thesis by (auto simp: ms_fits_def)
qed

interpretation mso: out_stream MemoryStream_vt ms_fits ms_taken "ms_good m0" for m0
proof
  fix m and bs :: bytes
  assume "ms_good m0 m" "\<not> ms_fits m (length bs)"
  then show "\<exists>n m'. vt_write MemoryStream_vt bs m = ok (n, m') \<and> n < int (length bs)"
    by (auto simp: ms_write_def ms_fits_def ms_good_def ms_inv_def Let_def)
qed (use ms_write_spec in \<open>auto simp: ms_fits_def ms_good_def ms_inv_def\<close>)

interpretation msi: in_stream MemoryStream_vt ms_pending ms_inv
proof
  fix m n
  assume "ms_inv m"
  then show "\<exists>m'. vt_read MemoryStream_vt n m = ok (int (length (take n (ms_pending m))), take n (ms_pending m), m') \<and> ms_inv m' \<and>
      ms_pending m' = drop n (ms_pending m)"
    by (auto simp: ms_read_def ms_inv_def ms_pending_def min_def Let_def add.commute)
qed

lemma rs_write_spec:
  assumes "rs_good r"
  shows "\<exists>r'. rs_write fresh bs r = ok (int (length bs), r') \<and> rs_good r' \<and> rs_taken r' = rs_taken r @ bs"
proof -
  define buf where "buf = (if bsize (rbuffer r) - rposition r < length bs
    then resize fresh (round_to (2 * (bsize (rbuffer r) + (length bs - (bsize (rbuffer r) - rposition r)))) 64) True (rbuffer r)
    else rbuffer r)"
  have r: "buffer_inv (rbuffer r)" "rposition r \<le> bsize (rbuffer r)" using assms by (simp_all add: rs_good_def)
  have "2 * (rposition r + length bs) \<le> round_to (2 * (rposition r + length bs)) 64" by (rule round_to_ge) simp
  then have buf: "buffer_inv buf \<and> rposition r + length bs \<le> bsize buf \<and> take (rposition r) (view buf) = take (rposition r) (view (rbuffer r))"
  proof (cases "bsize (rbuffer r) - rposition r < length bs")
    case True
    have e: "bsize (rbuffer r) + (length bs - (bsize (rbuffer r) - rposition r)) = rposition r + length bs" using True r(2) by linarith
    define n where "n = round_to (2 * (rposition r + length bs)) 64"
    have b: "buf = resize fresh n True (rbuffer r)" using True unfolding buf_def e n_def by simp
    have n: "rposition r + length bs \<le> n" unfolding n_def by (rule le_trans [OF _ \<open>_ \<le> round_to _ _\<close>]) simp
    have "take (rposition r) (take (min (bsize (rbuffer r)) n) (view buf)) = take (rposition r) (take n (view (rbuffer r)))"
      unfolding b using resize_spec(3) [OF r(1), of True] by simp
    then have "take (rposition r) (view buf) = take (rposition r) (view (rbuffer r))" using n r(2) by (auto simp: min_def split: if_splits)
    then show ?thesis using resize_spec(1,2) [OF r(1)] n unfolding b by simp
  qed (use r in \<open>auto simp: buf_def\<close>)
  then have n: "min (bsize buf - rposition r) (length bs) = length bs" by auto
  let ?b = "buf\<lparr>block := map_option (\<lambda>m. memcpy m (rposition r) bs (length bs)) (block buf)\<rparr>"
  have "rs_write fresh bs r = ok (int (length bs), r\<lparr>rbuffer := ?b, rposition := rposition r + length bs\<rparr>)"
    unfolding rs_write_def Let_def buf_def [symmetric] n ..
  moreover have "buffer_inv ?b" "bsize ?b = bsize buf" using buf by (auto simp: buffer_inv_def length_memcpy split: option.splits)
  moreover have "take (rposition r + length bs) (view ?b) = take (rposition r) (view buf) @ bs"
    using buf view_length [of buf] by (auto simp: view_def buffer_inv_def memcpy_def split: option.splits)
  ultimately show ?thesis using buf by (auto simp: rs_good_def rs_taken_def)
qed

interpretation rso: out_stream "ResizableMemoryStream_vt fresh" "\<lambda>_ _. True" rs_taken rs_good for fresh
  by unfold_locales (use rs_write_spec in auto)

interpretation rsi: in_stream "ResizableMemoryStream_vt fresh" rs_pending rs_good for fresh
proof
  fix r n
  assume "rs_good r"
  then show "\<exists>r'. vt_read (ResizableMemoryStream_vt fresh) n r = ok (int (length (take n (rs_pending r))), take n (rs_pending r), r') \<and> rs_good r' \<and>
      rs_pending r' = drop n (rs_pending r)"
    using view_length [of "rbuffer r"] by (auto simp: rs_read_def rs_good_def rs_pending_def min_def Let_def add.commute)
qed

interpretation hso: out_stream "HandleStream_vt (mh_write fresh) mh_read" mh_fits mh_written mh_writable for fresh
  by unfold_locales
    (use mhs.sink_write mhs.sink_short mhs.sink_less mhs.sink_none in \<open>auto simp: HandleStream_vt_def\<close>)

interpretation hsi: in_stream "HandleStream_vt (mh_write fresh) mh_read" mh_pending mh_readable for fresh
  by unfold_locales (use mhr.source_read in \<open>auto simp: HandleStream_vt_def\<close>)

lemma ms_start: "ms_good m0 (MemoryStream m0)" "ms_fits (MemoryStream m0) n \<longleftrightarrow> n \<le> length m0" "ms_taken (MemoryStream m0) = []"
  by (simp_all add: MemoryStream_def ms_good_def ms_inv_def ms_pending_def ms_fits_def ms_taken_def)

lemma Stream_simps [simp]: "dev (Stream d) = d" "lastTag (Stream d) = tag_zero" "writeCount (Stream d) = 0"
  by (simp_all add: Stream_def)

lemma ms_rewound:
  assumes "ms_good m0 (dev s)" "lastTag s = tag_zero" "ms_taken (dev s) = bs"
  shows "msi.ready (ms_rewind s) (bs @ drop (length bs) m0)" "maddress (dev s) = bs @ drop (length bs) m0"
proof -
  have "mposition (dev s) = length bs" using assms by (auto simp: ms_good_def ms_inv_def ms_taken_def)
  then show "maddress (dev s) = bs @ drop (length bs) m0"
    using assms append_take_drop_id [of "mposition (dev s)" "maddress (dev s)"] by (simp add: ms_good_def ms_taken_def ms_pending_def)
  then show "msi.ready (ms_rewind s) (bs @ drop (length bs) m0)"
    using assms by (simp add: msi.ready_def ms_rewind_def ms_inv_def ms_good_def ms_pending_def)
qed

lemma scast_ucast_eq_iff: "scast (ucast (x :: 64 word) :: 32 word) = x \<longleftrightarrow> - (2 ^ 31) \<le> sint x \<and> sint x < 2 ^ 31"
proof -
  have "sint (scast (ucast x :: 32 word) :: 64 word) = signed_take_bit 31 (sint x)"
    by (rule bit_eqI) (auto simp: bit_simps min_def)
  moreover have "a = b \<longleftrightarrow> sint a = sint b" for a b :: "64 word" by (auto intro: signed_word_eqI)
  ultimately have "scast (ucast x :: 32 word) = x \<longleftrightarrow> signed_take_bit 31 (sint x) = sint x" by simp
  then show ?thesis by (simp add: signed_take_bit_int_eq_self_iff)
qed

lemma rs_rewound:
  assumes "rs_good (dev s)" "lastTag s = tag_zero" "rs_taken (dev s) = bs"
  shows "rsi.ready (rs_rewind s) (bs @ drop (length bs) (view (rbuffer (dev s))))"
proof -
  have "rposition (dev s) = length bs" using assms view_length [of "rbuffer (dev s)"] by (auto simp: rs_good_def rs_taken_def)
  then have "view (rbuffer (dev s)) = bs @ drop (length bs) (view (rbuffer (dev s)))"
    using assms(3) append_take_drop_id [of "length bs" "view (rbuffer (dev s))"] by (simp add: rs_taken_def)
  then show ?thesis using assms by (simp add: rsi.ready_def rs_rewind_def rs_good_def rs_pending_def)
qed

section \<open>Properties\<close>

text \<open>
  C2. Objects sent through a stream on a growing memory handle arrive: writing any list of objects, each a list of values of any
  of the supported types between start and end tags, succeeds, and after closing and reopening the handle a reader that asks
  for objects with \<^verbatim>\<open>next\<close> and for values of the same types gets the same values back, then the end of the stream.
  Every read returns.  Only \<^verbatim>\<open>long\<close> and \<^verbatim>\<open>unsigned long\<close> values are reduced to 32 bits on the way.
\<close>
theorem Stream_objects_roundtrip:
  fixes fresh :: "nat \<Rightarrow> byte"
  assumes "\<forall>xs \<in> set xss. \<forall>x \<in> set xs. sendable x"
  defines "vt \<equiv> HandleStream_vt (mh_write fresh) mh_read"
  shows "\<exists>h s s'. openForWrite (MemoryHandle fresh n True) = ok h \<and> out_each (write_object vt) xss (Stream h) = ok s \<and>
    read_objects vt (map (map kind_of) xss) (Stream (snd (openForRead (mh_close (dev s))))) =
      Some (ok ((map (map received) xss, False), s'))"
proof -
  obtain h where h: "openForWrite (MemoryHandle fresh n True) = ok h" "mh_writable h" "mh_written h = []" "grow h"
    using mh_new_writable by metis
  have "hso.emits (out_each (write_object vt) xss) (concat (map encode_object xss))"
    unfolding vt_def using assms(1) by (intro hso.emits_each hso.emits_object) auto
  from hso.emitsD [OF this, of "Stream h"] h obtain s where
    s: "out_each (write_object vt) xss (Stream h) = ok s" "mh_writable (dev s)" "mh_written (dev s) = concat (map encode_object xss)"
    "\<And>n. mh_fits (dev s) n \<longleftrightarrow> mh_fits h (length (concat (map encode_object xss)) + n)"
    by (auto simp: mh_fits_def)
  have g: "grow (dev s)" using s(4) [of "Suc (hsize (dev s))"] h(4) by (simp add: mh_fits_def)
  let ?r = "Stream (snd (openForRead (mh_close (dev s))))"
  have "hsi.ready ?r (concat (map encode_object xss))"
    using mh_reopen [OF s(2) g] s(3) by (simp add: hsi.ready_def)
  then have "\<exists>s'. read_objects vt (map (map kind_of) xss) ?r = Some (ok ((map (map received) xss, False), s'))"
    unfolding vt_def using hsi.read_objects_all [OF assms(1), of ?r 0 fresh] by simp
  then show ?thesis using h(1) s(1) by blast
qed

theorem Stream_objects_roundtrip_witness:
  "\<exists>h s s'. openForWrite (MemoryHandle (\<lambda>_. 0) 2 True) = ok h \<and>
     out_each (write_object (HandleStream_vt (mh_write (\<lambda>_. 0)) mh_read)) [[IStr ''key'', IInt 7], [IBool True]] (Stream h) = ok s \<and>
     read_objects (HandleStream_vt (mh_write (\<lambda>_. 0)) mh_read) [[KStr, KInt], [KBool]]
       (Stream (snd (openForRead (mh_close (dev s))))) = Some (ok (([[IStr ''key'', IInt 7], [IBool True]], False), s'))"
  using Stream_objects_roundtrip [of "[[IStr ''key'', IInt 7], [IBool True]]" "\<lambda>_. 0" 2] by simp

text \<open>
  C14. A stream on a fixed block of memory is bounded by it: writing items succeeds exactly when their encoding fits the
  block, and throws \<^verbatim>\<open>WriteError\<close> otherwise.  On success the block starts with the encoding and is unchanged beyond it,
  \<^verbatim>\<open>bytesWritten\<close> counts it exactly, and after \<^verbatim>\<open>rewind\<close> the items are read back.
\<close>
theorem MemoryStream_capacity:
  assumes "\<forall>x \<in> set xs. sendable x"
  defines "bs \<equiv> concat (map encode xs)"
  shows "case out_each (write_item MemoryStream_vt) xs (Stream (MemoryStream m)) of
      Inl e \<Rightarrow> e = WriteError \<and> length m < length bs
    | Inr s \<Rightarrow> length bs \<le> length m \<and> maddress (dev s) = bs @ drop (length bs) m \<and> writeCount s = int (length bs) \<and>
        (\<exists>s'. read_items MemoryStream_vt (map kind_of xs) (ms_rewind s) = Some (ok (map received xs, s')))"
proof -
  have e: "mso.emits m (out_each (write_item MemoryStream_vt) xs) bs"
    unfolding bs_def using assms(1) by (intro mso.emits_items)
  show ?thesis
  proof (cases "length bs \<le> length m")
    case True
    with mso.emitsD [OF e, of "Stream (MemoryStream m)"] obtain s where
      s: "out_each (write_item MemoryStream_vt) xs (Stream (MemoryStream m)) = ok s" "ms_good m (dev s)" "ms_taken (dev s) = bs"
      "lastTag s = tag_zero" "writeCount s = int (length bs)"
      by (auto simp: ms_start)
    note r = ms_rewound [OF s(2,4,3)]
    have "\<exists>s'. read_items MemoryStream_vt (map kind_of xs) (ms_rewind s) = Some (ok (map received xs, s'))"
      using msi.yieldsD [OF msi.yields_items [OF assms(1)]] r(1) unfolding bs_def by blast
    then show ?thesis using True s r(2) by simp
  next
    case False
    then show ?thesis using mso.emits_WriteError [OF e, of "Stream (MemoryStream m)"] by (simp add: ms_start)
  qed
qed

theorem MemoryStream_capacity_witness:
  "case out_each (write_item MemoryStream_vt) [IStr ''abc''] (Stream (MemoryStream [0, 0])) of Inl e \<Rightarrow> e = WriteError | Inr s \<Rightarrow> False"
  using MemoryStream_capacity [of "[IStr ''abc'']" "[0, 0]"] by (auto simp: encode_def be32_def split: sum.splits)





text \<open>
  C38. A \<^verbatim>\<open>long\<close> sent through a stream comes back as the same number exactly when it fits 32 bits; the operators accept every
  other value and return a different one without any error.
\<close>
theorem Stream_long_truncated:
  "\<exists>s y s'. out_long MemoryStream_vt x (Stream (MemoryStream (replicate 5 0))) = ok s \<and>
     in_long MemoryStream_vt (ms_rewind s) = Some (ok (y, s')) \<and> (y = x \<longleftrightarrow> - (2 ^ 31) \<le> sint x \<and> sint x < 2 ^ 31)"
proof -
  obtain s where s: "out_long MemoryStream_vt x (Stream (MemoryStream (replicate 5 0))) = ok s" "ms_good (replicate 5 0) (dev s)"
    "ms_taken (dev s) = encode (ILong x)" "lastTag s = tag_zero"
    using mso.emitsD [OF mso.emits_item [of "ILong x"], of "replicate 5 0" "Stream (MemoryStream (replicate 5 0))"] by (auto simp: ms_start encode_def)
  obtain s' where "read_item MemoryStream_vt KLong (ms_rewind s) = Some (ok (ILong (scast (ucast x :: 32 word)), s'))"
    using msi.yieldsD [OF msi.yields_item [of "ILong x"] ms_rewound(1) [OF s(2,4,3)]] by auto
  then have "in_long MemoryStream_vt (ms_rewind s) = Some (ok (scast (ucast x :: 32 word), s'))"
    by (auto simp: cmap_def cbind_def split: option.splits sum.splits Option.bind_splits)
  then show ?thesis using s(1) scast_ucast_eq_iff [of x] by blast
qed

text \<open>
  C33. A map of strings written with the container operator of \<^verbatim>\<open>Types.cc\<close> to a stream that grows its buffer on demand is read
  back by the string-map operator of \<^verbatim>\<open>Stream\<close>: no write ever fails for lack of room, whatever the initial size of the buffer,
  and the reader builds the same map.
\<close>
theorem Stream_string_map_roundtrip:
  fixes fresh :: "nat \<Rightarrow> byte"
  assumes "distinct (map fst kvs)" "length kvs < 2 ^ 32" "\<forall>(k, v) \<in> set kvs. length k < 2 ^ 32 \<and> length v < 2 ^ 32"
  defines "vt \<equiv> ResizableMemoryStream_vt fresh"
  shows "\<exists>s s'. out_map vt (out_string vt) (out_string vt) kvs (Stream (ResizableMemoryStream (Buffer fresh n))) = ok s \<and>
    in_string_map vt (rs_rewind s) = Some (ok (map_of kvs, s'))"
proof -
  let ?bs = "encode (IULong (of_nat (length kvs))) @ concat (map encode_pair kvs)"
  have "rs_good (ResizableMemoryStream (Buffer fresh n))" "rs_taken (ResizableMemoryStream (Buffer fresh n)) = []"
    by (simp_all add: rs_good_def rs_taken_def ResizableMemoryStream_def Buffer_def create_def allocate_def buffer_inv_def)
  then obtain s where s: "out_map vt (out_string vt) (out_string vt) kvs (Stream (ResizableMemoryStream (Buffer fresh n))) = ok s"
    "rs_good (dev s)" "lastTag s = tag_zero" "rs_taken (dev s) = ?bs"
    using rso.emitsD [OF rso.emits_map, of "Stream (ResizableMemoryStream (Buffer fresh n))" fresh kvs] unfolding vt_def by auto
  have "map_of (rev kvs) = map_of kvs" using assms(1) by (simp add: map_of_rev_distinct)
  then show ?thesis
    using s(1) rsi.yieldsD [OF rsi.yields_string_map [OF assms(3,2)] rs_rewound [OF s(2,3,4)], of fresh] unfolding vt_def by auto
qed

theorem Stream_string_map_roundtrip_witness:
  "\<exists>s s'. out_map (ResizableMemoryStream_vt (\<lambda>_. 0)) (out_string (ResizableMemoryStream_vt (\<lambda>_. 0))) (out_string (ResizableMemoryStream_vt (\<lambda>_. 0)))
       [(''a'', ''x''), (''b'', '''')] (Stream (ResizableMemoryStream (Buffer (\<lambda>_. 0) 1))) = ok s \<and>
     in_string_map (ResizableMemoryStream_vt (\<lambda>_. 0)) (rs_rewind s) = Some (ok (map_of [(''a'', ''x''), (''b'', '''')], s'))"
  using Stream_string_map_roundtrip [of "[(''a'', ''x''), (''b'', '''')]" "\<lambda>_. 0" 1] by simp

end
