(* ===== verification/Eckit_Strings.thy ===== *)
theory Eckit_Strings
  imports Eckit_Prelude "HOL-Library.Sublist"
begin

text \<open>
  The string utilities: \<^verbatim>\<open>Tokenizer\<close> (\<^verbatim>\<open>utils/Tokenizer.cc\<close>, \<^verbatim>\<open>utils/Tokenizer.h\<close>) and
  \<^verbatim>\<open>StringTools\<close> (\<^verbatim>\<open>utils/StringTools.cc\<close>). A tokenizer is its separator set and its
  \<^verbatim>\<open>keepEmpty_\<close> flag; the loop of \<^verbatim>\<open>tokenizeInsert\<close> is a recursion over the input with the
  token under construction and the container as accumulators. The two template scanners
  \<^verbatim>\<open>substitute\<close> and \<^verbatim>\<open>listVariables\<close> are recursions with the loop's local variables as
  arguments. The reference definitions \<open>split_on\<close> and \<open>render\<close> say what the loops compute.
\<close>

section \<open>Tokenizer\<close>

record tokenizer =
  separator :: "char set"
  keepEmpty :: bool

definition Tokenizer_char :: "char \<Rightarrow> bool \<Rightarrow> tokenizer" where
  "Tokenizer_char c keep = \<lparr>separator = {c}, keepEmpty = keep\<rparr>"

definition Tokenizer_string :: "string \<Rightarrow> bool \<Rightarrow> tokenizer" where
  "Tokenizer_string separators keep = \<lparr>separator = set separators, keepEmpty = keep\<rparr>"

fun tokenizeInsert ::
    "char set \<Rightarrow> bool \<Rightarrow> ('v \<Rightarrow> string \<Rightarrow> 'v) \<Rightarrow> string \<Rightarrow> string \<Rightarrow> 'v \<Rightarrow> 'v" where
  "tokenizeInsert sep keep ins [] token v =
     (if token \<noteq> [] \<or> keep then ins v token else v)"
| "tokenizeInsert sep keep ins (c # raw) token v =
     (if c \<in> sep
      then tokenizeInsert sep keep ins raw [] (if token \<noteq> [] \<or> keep then ins v token else v)
      else tokenizeInsert sep keep ins raw (token @ [c]) v)"

text \<open>The output container is a vector (tokens are appended) or a set (tokens are inserted).\<close>

definition tokenize_vector :: "tokenizer \<Rightarrow> string \<Rightarrow> string list \<Rightarrow> string list" where
  "tokenize_vector t raw v =
     tokenizeInsert (separator t) (keepEmpty t) (\<lambda>v w. v @ [w]) raw [] v"

definition tokenize_set :: "tokenizer \<Rightarrow> string \<Rightarrow> string set \<Rightarrow> string set" where
  "tokenize_set t raw s =
     tokenizeInsert (separator t) (keepEmpty t) (\<lambda>s w. insert w s) raw [] s"

text \<open>
  The stream overloads first read up to the end of the line. The comparison \<^verbatim>\<open>c != EOF\<close> is between
  a signed \<^verbatim>\<open>char\<close> and -1, so the byte 255 ends the line too. The character that ends the line is
  consumed.
\<close>

fun read_line :: "string \<Rightarrow> string \<times> string" where
  "read_line [] = ([], [])"
| "read_line (c # cs) =
     (if c = CHR 0xFF \<or> c = CHR 0x0A then ([], cs)
      else (let (l, rest) = read_line cs in (c # l, rest)))"

definition tokenize_stream_vector ::
    "tokenizer \<Rightarrow> string \<Rightarrow> string list \<Rightarrow> string list \<times> string" where
  "tokenize_stream_vector t input v =
     (let (raw, rest) = read_line input in (tokenize_vector t raw v, rest))"

definition tokenize_stream_set ::
    "tokenizer \<Rightarrow> string \<Rightarrow> string set \<Rightarrow> string set \<times> string" where
  "tokenize_stream_set t input s =
     (let (raw, rest) = read_line input in (tokenize_set t raw s, rest))"

definition tokenize :: "tokenizer \<Rightarrow> string \<Rightarrow> string list" where
  "tokenize t s = tokenize_vector t s []"

fun find_first_of :: "char \<Rightarrow> string \<Rightarrow> nat option" where
  "find_first_of c [] = None"
| "find_first_of c (x # xs) = (if x = c then Some 0 else map_option Suc (find_first_of c xs))"

definition split_at :: "string \<Rightarrow> char \<Rightarrow> string list" where
  "split_at s sep =
     (case find_first_of sep s of
        Some found \<Rightarrow> [take found s, drop (found + 1) s]
      | None \<Rightarrow> [s])"

section \<open>StringTools\<close>

fun substitute_loop ::
    "(string \<rightharpoonup> string) \<Rightarrow> string \<Rightarrow> bool \<Rightarrow> string \<Rightarrow> string \<Rightarrow> string result" where
  "substitute_loop m [] var word res = (if var then Inl UserError else Inr res)"
| "substitute_loop m (c # s) var word res =
     (if c = CHR 0x7B then
        (if var then Inl UserError else substitute_loop m s True [] res)
      else if c = CHR 0x7D then
        (if \<not> var then Inl UserError
         else (case m word of
                 None \<Rightarrow> Inl UserError
               | Some v \<Rightarrow> substitute_loop m s False word (res @ v)))
      else if var then substitute_loop m s var (word @ [c]) res
      else substitute_loop m s var word (res @ [c]))"

definition substitute :: "string \<Rightarrow> (string \<rightharpoonup> string) \<Rightarrow> string result" where
  "substitute s m = substitute_loop m s False [] []"

fun listVariables_loop :: "string \<Rightarrow> bool \<Rightarrow> string \<Rightarrow> string list \<Rightarrow> string list result" where
  "listVariables_loop [] var word res = (if var then Inl UserError else Inr res)"
| "listVariables_loop (c # s) var word res =
     (if c = CHR 0x7B then
        (if var then Inl UserError else listVariables_loop s True [] res)
      else if c = CHR 0x7D then
        (if \<not> var then Inl UserError else listVariables_loop s False word (res @ [word]))
      else if var then listVariables_loop s var (word @ [c]) res
      else listVariables_loop s var word res)"

definition listVariables :: "string \<Rightarrow> string list result" where
  "listVariables s = listVariables_loop s False [] []"

text \<open>\<^verbatim>\<open>toupper\<close> and \<^verbatim>\<open>tolower\<close> in the C locale.\<close>

definition toupper :: "char \<Rightarrow> char" where
  "toupper c = (let n = of_char c :: nat in if 97 \<le> n \<and> n \<le> 122 then char_of (n - 32) else c)"

definition tolower :: "char \<Rightarrow> char" where
  "tolower c = (let n = of_char c :: nat in if 65 \<le> n \<and> n \<le> 90 then char_of (n + 32) else c)"

definition upper :: "string \<Rightarrow> string" where
  "upper v = map toupper v"

definition lower :: "string \<Rightarrow> string" where
  "lower v = map tolower v"

text \<open>The searches and \<^verbatim>\<open>substr\<close> of \<^verbatim>\<open>std::string\<close>; \<^const>\<open>None\<close> is \<^verbatim>\<open>npos\<close>.\<close>

fun find_first_not_of :: "string \<Rightarrow> string \<Rightarrow> nat option" where
  "find_first_not_of [] chars = None"
| "find_first_not_of (c # s) chars =
     (if c \<in> set chars then map_option Suc (find_first_not_of s chars) else Some 0)"

fun find_last_not_of :: "string \<Rightarrow> string \<Rightarrow> nat option" where
  "find_last_not_of [] chars = None"
| "find_last_not_of (c # s) chars =
     (case find_last_not_of s chars of
        Some i \<Rightarrow> Some (Suc i)
      | None \<Rightarrow> if c \<in> set chars then None else Some 0)"

definition substr :: "string \<Rightarrow> nat \<Rightarrow> nat \<Rightarrow> string" where
  "substr s pos n = take n (drop pos s)"

definition trim_chars :: "string \<Rightarrow> string \<Rightarrow> string" where
  "trim_chars str chars =
     (case (find_first_not_of str chars, find_last_not_of str chars) of
        (Some startpos, Some endpos) \<Rightarrow> substr str startpos (endpos - startpos + 1)
      | _ \<Rightarrow> [])"

definition trim :: "string \<Rightarrow> string" where
  "trim str = trim_chars str [CHR '' '', CHR 0x09, CHR 0x0A]"

definition front_trim_chars :: "string \<Rightarrow> string \<Rightarrow> string" where
  "front_trim_chars str chars =
     (case find_first_not_of str chars of
        None \<Rightarrow> []
      | Some startpos \<Rightarrow> drop startpos str)"

definition front_trim :: "string \<Rightarrow> string" where
  "front_trim str = front_trim_chars str [CHR '' '', CHR 0x09]"

definition back_trim_chars :: "string \<Rightarrow> string \<Rightarrow> string" where
  "back_trim_chars str chars =
     (case find_last_not_of str chars of
        None \<Rightarrow> []
      | Some endpos \<Rightarrow> substr str 0 (endpos + 1))"

definition back_trim :: "string \<Rightarrow> string" where
  "back_trim str = back_trim_chars str [CHR '' '', CHR 0x09]"

definition split :: "string \<Rightarrow> string \<Rightarrow> string list" where
  "split delim text = tokenize_vector (Tokenizer_string delim False) text []"

fun agree_from :: "string \<Rightarrow> string \<Rightarrow> nat \<Rightarrow> nat \<Rightarrow> bool" where
  "agree_from str sub i 0 = True"
| "agree_from str sub i (Suc n) =
     (if sub ! i \<noteq> str ! i then False else agree_from str sub (Suc i) n)"

definition startsWith :: "string \<Rightarrow> string \<Rightarrow> bool" where
  "startsWith str sub =
     (if sub = [] \<or> length str < length sub then False
      else agree_from str sub 0 (length sub))"

definition beginsWith :: "string \<Rightarrow> string \<Rightarrow> bool" where
  "beginsWith str sub = startsWith str sub"

text \<open>\<^verbatim>\<open>endsWith\<close> walks the two strings with reverse iterators.\<close>

definition endsWith :: "string \<Rightarrow> string \<Rightarrow> bool" where
  "endsWith str sub =
     (if sub = [] \<or> length str < length sub then False
      else agree_from (rev str) (rev sub) 0 (length sub))"

definition isQuoted :: "string \<Rightarrow> bool" where
  "isQuoted value \<longleftrightarrow>
     1 < length value \<and>
     (value ! 0 = CHR 0x22 \<and> value ! (length value - 1) = CHR 0x22 \<or>
      value ! 0 = CHR 0x27 \<and> value ! (length value - 1) = CHR 0x27)"

definition unQuote :: "string \<Rightarrow> string" where
  "unQuote value = (if isQuoted value then substr value 1 (length value - 2) else value)"

section \<open>Reference definitions\<close>

text \<open>Splitting at every character that satisfies \<open>P\<close>; there is always at least one piece.\<close>

fun split_on :: "(char \<Rightarrow> bool) \<Rightarrow> string \<Rightarrow> string list" where
  "split_on P [] = [[]]"
| "split_on P (c # cs) =
     (if P c then [] # split_on P cs
      else (c # hd (split_on P cs)) # tl (split_on P cs))"

fun join :: "char \<Rightarrow> string list \<Rightarrow> string" where
  "join c [] = []"
| "join c [w] = w"
| "join c (w # ws) = w @ c # join c ws"

text \<open>A template is a sequence of literal text and variables.\<close>

datatype piece = Lit string | Var string

fun piece_ok :: "piece \<Rightarrow> bool" where
  "piece_ok (Lit t) \<longleftrightarrow> CHR 0x7B \<notin> set t \<and> CHR 0x7D \<notin> set t"
| "piece_ok (Var x) \<longleftrightarrow> CHR 0x7B \<notin> set x \<and> CHR 0x7D \<notin> set x"

fun print_piece :: "piece \<Rightarrow> string" where
  "print_piece (Lit t) = t"
| "print_piece (Var x) = CHR 0x7B # x @ [CHR 0x7D]"

fun render :: "(string \<rightharpoonup> string) \<Rightarrow> piece list \<Rightarrow> string result" where
  "render m [] = Inr []"
| "render m (Lit t # ps) = rbind (render m ps) (\<lambda>r. Inr (t @ r))"
| "render m (Var x # ps) =
     (case m x of
        None \<Rightarrow> Inl UserError
      | Some v \<Rightarrow> rbind (render m ps) (\<lambda>r. Inr (v @ r)))"

fun variables :: "piece list \<Rightarrow> string list" where
  "variables [] = []"
| "variables (Lit t # ps) = variables ps"
| "variables (Var x # ps) = x # variables ps"

text \<open>Dropping the characters of a set from one end.\<close>

definition rtrim :: "string \<Rightarrow> string \<Rightarrow> string" where
  "rtrim s chars = rev (dropWhile (\<lambda>c. c \<in> set chars) (rev s))"

definition ltrim :: "string \<Rightarrow> string \<Rightarrow> string" where
  "ltrim s chars = dropWhile (\<lambda>c. c \<in> set chars) s"

section \<open>Tokenizer: the loop computes the split\<close>

lemma split_on_not_Nil [simp]: "split_on P s \<noteq> []"
  by (cases s) auto

lemma split_on_pieces: "w \<in> set (split_on P s) \<Longrightarrow> c \<in> set w \<Longrightarrow> \<not> P c"
proof (induction s arbitrary: w)
  case (Cons x s)
  then show ?case
    by (cases "split_on P s") (fastforce split: if_splits)+
qed simp

abbreviation kept :: "bool \<Rightarrow> string list \<Rightarrow> string list" where
  "kept keep ws \<equiv> filter (\<lambda>w. w \<noteq> [] \<or> keep) ws"

lemma tokenizeInsert_split_on:
  "tokenizeInsert sep keep ins raw token v =
     foldl ins v
       (kept keep ((token @ hd (split_on (\<lambda>c. c \<in> sep) raw)) # tl (split_on (\<lambda>c. c \<in> sep) raw)))"
proof (induction raw arbitrary: token v)
  case (Cons c raw)
  have "split_on (\<lambda>c. c \<in> sep) raw =
      hd (split_on (\<lambda>c. c \<in> sep) raw) # tl (split_on (\<lambda>c. c \<in> sep) raw)"
    by simp
  with Cons.IH show ?case
    by (cases "split_on (\<lambda>c. c \<in> sep) raw") auto
qed simp

lemma foldl_snoc: "foldl (\<lambda>v w. v @ [w]) v ws = v @ ws"
  by (induction ws arbitrary: v) auto

lemma foldl_insert: "foldl (\<lambda>s w. insert w s) s ws = s \<union> set ws"
  by (induction ws arbitrary: s) auto

lemma tokenize_vector_eq:
  "tokenize_vector t raw v = v @ kept (keepEmpty t) (split_on (\<lambda>c. c \<in> separator t) raw)"
  unfolding tokenize_vector_def tokenizeInsert_split_on foldl_snoc by simp

lemma tokenize_set_eq:
  "tokenize_set t raw s = s \<union> set (kept (keepEmpty t) (split_on (\<lambda>c. c \<in> separator t) raw))"
  unfolding tokenize_set_def tokenizeInsert_split_on foldl_insert by simp

lemma join_Cons: "ws \<noteq> [] \<Longrightarrow> join c (w # ws) = w @ c # join c ws"
  by (cases ws) auto

lemma join_split_on: "join c (split_on (\<lambda>x. x = c) s) = s"
proof (induction s)
  case (Cons x s)
  then show ?case
    by (cases "split_on (\<lambda>x. x = c) s"; cases "tl (split_on (\<lambda>x. x = c) s)")
      (auto simp: join_Cons)
qed simp

lemma split_on_append:
  "(\<forall>x \<in> set w. \<not> P x) \<Longrightarrow> split_on P (w @ s) = (w @ hd (split_on P s)) # tl (split_on P s)"
  by (induction w) auto

lemma split_on_join:
  assumes "ws \<noteq> []" and "\<forall>w \<in> set ws. c \<notin> set w"
  shows "split_on (\<lambda>x. x = c) (join c ws) = ws"
  using assms
proof (induction c ws rule: join.induct)
  case (2 c w)
  then have "split_on (\<lambda>x. x = c) (w @ []) = [w]"
    by (subst split_on_append) auto
  then show ?case by simp
next
  case (3 c w w' ws)
  then have "split_on (\<lambda>x. x = c) (w @ c # join c (w' # ws)) = w # w' # ws"
    by (subst split_on_append) auto
  then show ?case by simp
qed simp

section \<open>Properties of the tokenizer\<close>

lemma tokenize_eq:
  "tokenize t s = kept (keepEmpty t) (split_on (\<lambda>c. c \<in> separator t) s)"
  by (simp add: tokenize_def tokenize_vector_eq)

lemma tokenize_tokens:
  "w \<in> set (tokenize t s) \<Longrightarrow> set w \<inter> separator t = {} \<and> (w \<noteq> [] \<or> keepEmpty t)"
  by (auto simp: tokenize_eq dest: split_on_pieces)

lemma split_at_cases:
  "split_at s sep = (if sep \<in> set s then [takeWhile (\<lambda>x. x \<noteq> sep) s, tl (dropWhile (\<lambda>x. x \<noteq> sep) s)] else [s])"
proof -
  have "find_first_of sep s =
      (if sep \<in> set s then Some (length (takeWhile (\<lambda>x. x \<noteq> sep) s)) else None)"
    by (induction s) auto
  then show ?thesis
    by (simp add: split_at_def drop_Suc flip: tl_drop takeWhile_eq_take dropWhile_eq_drop)
qed

section \<open>Properties of the template scanners\<close>

lemma substitute_loop_literal:
  assumes "CHR 0x7B \<notin> set t" and "CHR 0x7D \<notin> set t"
  shows "substitute_loop m (t @ s) False word res = substitute_loop m s False word (res @ t)"
  using assms by (induction t arbitrary: res) auto

lemma substitute_loop_name:
  assumes "CHR 0x7B \<notin> set x" and "CHR 0x7D \<notin> set x"
  shows "substitute_loop m (x @ s) True word res = substitute_loop m s True (word @ x) res"
  using assms by (induction x arbitrary: word) auto

lemma substitute_loop_render:
  assumes "list_all piece_ok ps"
  shows "substitute_loop m (concat (map print_piece ps)) False word res =
           rbind (render m ps) (\<lambda>r. Inr (res @ r))"
  using assms
proof (induction ps arbitrary: word res)
  case (Cons p ps)
  then show ?case
    by (cases p; cases "render m ps")
      (auto simp: substitute_loop_literal substitute_loop_name split: option.splits)
qed simp

lemma listVariables_loop_literal:
  assumes "CHR 0x7B \<notin> set t" and "CHR 0x7D \<notin> set t"
  shows "listVariables_loop (t @ s) False word res = listVariables_loop s False word res"
  using assms by (induction t) auto

lemma listVariables_loop_name:
  assumes "CHR 0x7B \<notin> set x" and "CHR 0x7D \<notin> set x"
  shows "listVariables_loop (x @ s) True word res = listVariables_loop s True (word @ x) res"
  using assms by (induction x arbitrary: word) auto

lemma listVariables_loop_variables:
  assumes "list_all piece_ok ps"
  shows "listVariables_loop (concat (map print_piece ps)) False word res = Inr (res @ variables ps)"
  using assms
proof (induction ps arbitrary: word res)
  case (Cons p ps)
  then show ?case
    by (cases p) (auto simp: listVariables_loop_literal listVariables_loop_name)
qed simp

text \<open>
  Whatever the text, the two scanners agree: \<open>substitute\<close> succeeds exactly when
  \<open>listVariables\<close> does and every variable it lists has a value.
\<close>

lemma listVariables_loop_acc:
  "listVariables_loop s var word (pre @ res) =
     rbind (listVariables_loop s var word res) (\<lambda>r. Inr (pre @ r))"
  by (induction s var word res rule: listVariables_loop.induct) auto

lemma listVariables_loop_word:
  "listVariables_loop s False word res = listVariables_loop s False word' res"
  by (induction s arbitrary: word word') auto

lemma substitute_loop_succeeds_iff:
  "(\<exists>r. substitute_loop m s var word res = Inr r) \<longleftrightarrow>
   (\<exists>vs. listVariables_loop s var word [] = Inr vs \<and> set vs \<subseteq> dom m)"
proof (induction s arbitrary: var word res)
  case (Cons c s)
  have step: "listVariables_loop s False word [word] =
      rbind (listVariables_loop s False word []) (\<lambda>r. Inr (word # r))"
    using listVariables_loop_acc [of s False word "[word]" "[]"] by simp
  show ?case
    using Cons.IH [of True "[]" res] Cons.IH [of False word] Cons.IH [of True "word @ [c]" res]
    by (cases var; cases "listVariables_loop s False word []")
      (auto simp: step split: option.splits)
qed auto

section \<open>Properties of the trims and affix tests\<close>

lemma find_first_not_of_eq:
  "find_first_not_of s chars =
     (if set s \<subseteq> set chars then None else Some (length (takeWhile (\<lambda>c. c \<in> set chars) s)))"
  by (induction s) auto

lemma find_last_not_of_None: "find_last_not_of s chars = None \<longleftrightarrow> set s \<subseteq> set chars"
  by (induction s) (auto split: option.splits)

lemma find_last_not_of_Some:
  "find_last_not_of s chars = Some i \<Longrightarrow>
     i < length s \<and> s ! i \<notin> set chars \<and> set (drop (Suc i) s) \<subseteq> set chars"
proof (induction s arbitrary: i)
  case (Cons c s)
  then show ?case
    by (auto simp: find_last_not_of_None split: option.splits if_splits)
qed simp

lemma rtrim_all: "set s \<subseteq> set chars \<Longrightarrow> rtrim s chars = []"
  by (simp add: rtrim_def subset_iff)

lemma rtrim_append:
  assumes "x \<noteq> []" and "last x \<notin> set chars" and "set w \<subseteq> set chars"
  shows "rtrim (x @ w) chars = x"
proof -
  from assms(1) obtain y c where x: "x = y @ [c]" by (cases x rule: rev_cases) auto
  with assms show ?thesis by (simp add: rtrim_def dropWhile_append subset_iff)
qed

lemma rtrim_from:
  assumes "find_last_not_of s chars = Some e" and "n \<le> e"
  shows "rtrim (drop n s) chars = drop n (take (Suc e) s)"
proof -
  note e = find_last_not_of_Some [OF assms(1)]
  let ?x = "drop n (take (Suc e) s)"
  have "drop n s = ?x @ drop (Suc e) s"
    using assms(2) e by (metis append_take_drop_id drop_append diff_is_0_eq drop0 length_take
        less_eq_Suc_le min.absorb2 le_SucI)
  moreover have "last ?x = s ! e"
    using e assms(2) by (subst last_drop) (auto simp: take_Suc_conv_app_nth)
  moreover have "?x \<noteq> []" using e assms(2) by simp
  ultimately show ?thesis using e by (simp add: rtrim_append)
qed

lemma back_trim_chars_eq: "back_trim_chars s chars = rtrim s chars"
  using rtrim_from [of s chars _ 0]
  by (auto simp: back_trim_chars_def substr_def find_last_not_of_None rtrim_all split: option.split)

lemma front_trim_chars_eq: "front_trim_chars s chars = ltrim s chars"
proof (cases "set s \<subseteq> set chars")
  case True
  then have "ltrim s chars = []" by (auto simp: ltrim_def)
  with True show ?thesis by (simp add: front_trim_chars_def find_first_not_of_eq)
next
  case False
  then show ?thesis
    by (simp add: front_trim_chars_def find_first_not_of_eq ltrim_def flip: dropWhile_eq_drop)
qed

lemma trim_chars_eq: "trim_chars s chars = rtrim (ltrim s chars) chars"
proof (cases "find_last_not_of s chars")
  case None
  then have "set s \<subseteq> set chars" by (simp add: find_last_not_of_None)
  moreover from this have "ltrim s chars = []" by (auto simp: ltrim_def)
  ultimately show ?thesis
    by (simp add: trim_chars_def find_first_not_of_eq rtrim_def)
next
  case (Some e)
  let ?n = "length (takeWhile (\<lambda>c. c \<in> set chars) s)"
  note e = find_last_not_of_Some [OF Some]
  have ns: "\<not> set s \<subseteq> set chars" using e nth_mem by fastforce
  have le: "?n \<le> e"
    using e by (metis leI nth_length_takeWhile set_takeWhileD nth_mem takeWhile_nth)
  have "trim_chars s chars = drop ?n (take (Suc e) s)"
    using Some ns le by (simp add: trim_chars_def find_first_not_of_eq substr_def drop_take Suc_diff_le)
  also have "\<dots> = rtrim (drop ?n s) chars"
    using rtrim_from [OF Some le] by simp
  finally show ?thesis by (simp add: ltrim_def dropWhile_eq_drop)
qed

lemma agree_from_iff:
  "agree_from str sub i n \<longleftrightarrow> (\<forall>j. i \<le> j \<and> j < i + n \<longrightarrow> sub ! j = str ! j)"
proof (induction n arbitrary: i)
  case (Suc n)
  then show ?case
    by (auto simp: less_Suc_eq_le le_less_Suc_eq dest: le_neq_implies_less)
qed auto

lemma startsWith_iff: "startsWith str sub \<longleftrightarrow> sub \<noteq> [] \<and> prefix sub str"
proof -
  have "length sub \<le> length str \<Longrightarrow>
      (\<forall>j < length sub. sub ! j = str ! j) \<longleftrightarrow> prefix sub str"
    by (metis append_eq_conv_conj nth_take_lemma prefix_def take_all_iff order_refl nth_append
        take_is_prefix)
  then show ?thesis
    by (auto simp: startsWith_def agree_from_iff not_less dest: prefix_length_le)
qed

lemma endsWith_iff: "endsWith str sub \<longleftrightarrow> sub \<noteq> [] \<and> suffix sub str"
proof -
  have "endsWith str sub = startsWith (rev str) (rev sub)"
    by (simp add: endsWith_def startsWith_def)
  then show ?thesis by (simp add: startsWith_iff suffix_to_prefix)
qed

lemma unQuote_quoted: "q \<in> {CHR 0x22, CHR 0x27} \<Longrightarrow> unQuote (q # s @ [q]) = s"
  by (auto simp: unQuote_def isQuoted_def substr_def nth_append)

section \<open>Properties\<close>

text \<open>
  The tokenizer splits and loses nothing: with \<^verbatim>\<open>keepEmpty\<close>, joining the tokens with the
  separator gives the input back, no token contains the separator, and without \<^verbatim>\<open>keepEmpty\<close> the
  tokens are the same ones less the empty ones.
\<close>

theorem tokenizer_split_join:
  "join c (tokenize (Tokenizer_char c True) s) = s \<and>
   c \<notin> \<Union> (set ` set (tokenize (Tokenizer_char c True) s)) \<and>
   tokenize (Tokenizer_char c False) s = filter (\<lambda>w. w \<noteq> []) (tokenize (Tokenizer_char c True) s)"
  using join_split_on [of c s] tokenize_tokens [of _ "Tokenizer_char c True" s]
  by (auto simp: tokenize_eq Tokenizer_char_def)

text \<open>
  \<^verbatim>\<open>StringTools::substitute\<close> renders templates: on the text of any sequence of literals and
  variables it returns the literals with each variable replaced by its value, or \<^verbatim>\<open>UserError\<close> when
  one has none, and \<^verbatim>\<open>listVariables\<close> returns the variables in order.
\<close>

theorem substitute_renders_template:
  assumes "list_all piece_ok ps"
  shows "substitute (concat (map print_piece ps)) m = render m ps \<and>
         listVariables (concat (map print_piece ps)) = Inr (variables ps)"
  using substitute_loop_render [OF assms, of m "[]" "[]"]
    listVariables_loop_variables [OF assms, of "[]" "[]"]
  by (simp add: substitute_def listVariables_def rbind_def split: sum.splits)

theorem substitute_renders_template_witness:
  "substitute ''a{b}c'' [''b'' \<mapsto> ''xyz''] = Inr ''axyzc'' \<and> listVariables ''a{b}c'' = Inr [''b'']"
  using substitute_renders_template [of "[Lit ''a'', Var ''b'', Lit ''c'']" "[''b'' \<mapsto> ''xyz'']"]
  by simp

text \<open>
  On any text, well formed or not, \<^verbatim>\<open>substitute\<close> succeeds exactly when \<^verbatim>\<open>listVariables\<close> does and
  every variable it lists has a value.
\<close>

theorem substitute_succeeds_iff:
  "(\<exists>r. substitute s m = Inr r) \<longleftrightarrow> (\<exists>vs. listVariables s = Inr vs \<and> set vs \<subseteq> dom m)"
  unfolding substitute_def listVariables_def by (rule substitute_loop_succeeds_iff)

text \<open>
  \<^verbatim>\<open>StringTools::trim\<close> removes the characters of the set from both ends and nothing else: it is the
  left trim followed by the right trim, so the result starts and ends with a kept character.
\<close>

theorem trim_is_both_trims:
  "trim_chars s chars = back_trim_chars (front_trim_chars s chars) chars \<and>
   front_trim_chars s chars = dropWhile (\<lambda>c. c \<in> set chars) s \<and>
   back_trim_chars s chars = rev (dropWhile (\<lambda>c. c \<in> set chars) (rev s))"
  by (simp add: trim_chars_eq front_trim_chars_eq back_trim_chars_eq ltrim_def rtrim_def)

end
