(* ===== verification/Eckit_Date.thy ===== *)
theory Eckit_Date
  imports Eckit_Strings
begin

text \<open>
  Calendar dates: \<^verbatim>\<open>types/Date.cc\<close> and \<^verbatim>\<open>types/Date.h\<close>, with the clients \<^verbatim>\<open>types/Month.cc\<close> and
  \<^verbatim>\<open>types/DayOfYear.cc\<close>. A \<open>date\<close> is the class's only member, the julian day number. The
  conversions \<open>julianToDate\<close> and \<open>dateToJulian\<close> keep the source's sequence of assignments as
  nested \<open>let\<close>s; C++ division and remainder are \<open>sdiv\<close> and \<open>smod\<close>. The type \<^verbatim>\<open>long\<close> is
  modelled as \<open>int\<close>: signed overflow is undefined in C++, and the values of dates up to the
  year 10000 stay far below 2 to the power 63. The UTC clock that \<^verbatim>\<open>today()\<close> reads is the argument \<open>now\<close>.

  The abstract side is the Gregorian calendar itself: \<open>leap\<close>, \<open>days_in_month\<close>, \<open>valid_ymd\<close> and
  \<open>next_day\<close>.
\<close>

section \<open>Date: state and conversions\<close>

record date =
  julian :: int

text \<open>The fields of the \<^verbatim>\<open>struct tm\<close> that \<^verbatim>\<open>gmtime_r\<close> fills.\<close>

record tm =
  tm_year :: int
  tm_mon :: int
  tm_mday :: int

definition months :: "string list" where
  "months = [''jan'', ''feb'', ''mar'', ''apr'', ''may'', ''jun'',
             ''jul'', ''aug'', ''sep'', ''oct'', ''nov'', ''dec'']"

definition julianToDate :: "int \<Rightarrow> int" where
  "julianToDate jdate =
     (let x = 4 * jdate - 6884477;
          y = (x sdiv 146097) * 100;
          e = x smod 146097;
          d = e sdiv 4;
          x = 4 * d + 3;
          y = (x sdiv 1461) + y;
          e = x smod 1461;
          d = e sdiv 4 + 1;
          x = 5 * d - 3;
          m = x sdiv 153 + 1;
          e = x smod 153;
          d = e sdiv 5 + 1;
          month = (if m < 11 then m + 2 else m - 10);
          day = d;
          year = y + m sdiv 11
      in year * 10000 + month * 100 + day)"

text \<open>
  \<^verbatim>\<open>dateToJulian\<close> and \<^verbatim>\<open>today\<close> call each other: a date that is not positive is relative to today, and
  \<^verbatim>\<open>today\<close> converts the positive date of the clock. \<open>civilToJulian\<close> is the body of \<^verbatim>\<open>dateToJulian\<close>
  after the guard.
\<close>

definition civilToJulian :: "int \<Rightarrow> int" where
  "civilToJulian ddate =
     (let year = ddate sdiv 10000;
          ddate = ddate smod 10000;
          month = ddate sdiv 100;
          ddate = ddate smod 100;
          day = ddate;
          year = (if year < 100 then year + 1900 else year);
          (m1, y1) = (if month > 2 then (month - 3, year) else (month + 9, year - 1));
          a = 146097 * (y1 sdiv 100) sdiv 4;
          d = y1 smod 100;
          b = 1461 * d sdiv 4;
          c = (153 * m1 + 2) sdiv 5 + day + 1721119;
          j1 = a + b + c
      in j1)"

definition today :: "tm \<Rightarrow> int" where
  "today now =
     (let td = (1900 + tm_year now) * 10000 + (tm_mon now + 1) * 100 + tm_mday now
      in civilToJulian td)"

definition dateToJulian :: "tm \<Rightarrow> int \<Rightarrow> int" where
  "dateToJulian now ddate = (if ddate \<le> 0 then today now + ddate else civilToJulian ddate)"

definition yyyymmdd :: "date \<Rightarrow> int" where
  "yyyymmdd dt = julianToDate (julian dt)"

definition year :: "date \<Rightarrow> int" where
  "year dt = (let ddate = julianToDate (julian dt) in ddate sdiv 10000)"

definition month :: "date \<Rightarrow> int" where
  "month dt = (let ddate = julianToDate (julian dt); ddate = ddate smod 10000 in ddate sdiv 100)"

definition day :: "date \<Rightarrow> int" where
  "day dt = (let ddate = julianToDate (julian dt) in ddate smod 100)"

section \<open>Date: constructors\<close>

definition check :: "date \<Rightarrow> int \<Rightarrow> unit result" where
  "check dt value =
     (let value = (if value \<le> 999999 then value + 19000000 else value)
      in if value \<noteq> yyyymmdd dt then Inl BadDate else Inr ())"

definition Date_long :: "tm \<Rightarrow> int \<Rightarrow> date result" where
  "Date_long now d =
     (let this = \<lparr>julian = dateToJulian now d\<rparr>
      in if d > 0 then rbind (check this d) (\<lambda>_. Inr this) else Inr this)"

definition Date_ymd :: "tm \<Rightarrow> int \<Rightarrow> int \<Rightarrow> int \<Rightarrow> date result" where
  "Date_ymd now y m d =
     (let this = \<lparr>julian = dateToJulian now (y * 10000 + m * 100 + d)\<rparr>
      in rbind (check this (y * 10000 + m * 100 + d)) (\<lambda>_. Inr this))"

definition Date_yday :: "tm \<Rightarrow> int \<Rightarrow> int \<Rightarrow> date result" where
  "Date_yday now y dayOfYear =
     (let this = \<lparr>julian = dateToJulian now (y * 10000 + 101)\<rparr>;
          this = this\<lparr>julian := julian this + (dayOfYear - 1)\<rparr>
      in ASSERT (year this = y) (Inr this))"

text \<open>The protected constructor \<^verbatim>\<open>Date(long julian, bool)\<close>.\<close>

definition Date_julian :: "int \<Rightarrow> date" where
  "Date_julian j = \<lparr>julian = j\<rparr>"

section \<open>Date: operators\<close>

definition date_incr :: "date \<Rightarrow> date" where
  "date_incr dt = dt\<lparr>julian := julian dt + 1\<rparr>"

definition date_decr :: "date \<Rightarrow> date" where
  "date_decr dt = dt\<lparr>julian := julian dt - 1\<rparr>"

definition date_add_assign :: "date \<Rightarrow> int \<Rightarrow> date" where
  "date_add_assign dt d = dt\<lparr>julian := julian dt + d\<rparr>"

definition date_sub_assign :: "date \<Rightarrow> int \<Rightarrow> date" where
  "date_sub_assign dt d = dt\<lparr>julian := julian dt - d\<rparr>"

definition date_less :: "date \<Rightarrow> date \<Rightarrow> bool" where
  "date_less a b \<longleftrightarrow> julian a < julian b"

definition date_minus :: "date \<Rightarrow> date \<Rightarrow> int" where
  "date_minus d1 d2 = julian d1 - julian d2"

text \<open>
  \<^verbatim>\<open>operator+\<close> returns the \<^verbatim>\<open>long\<close> of \<^verbatim>\<open>julianToDate\<close>, which the compiler converts with
  \<^verbatim>\<open>Date(long)\<close>.
\<close>

definition date_plus :: "tm \<Rightarrow> date \<Rightarrow> int \<Rightarrow> date result" where
  "date_plus now d1 n = Date_long now (julianToDate (julian d1 + n))"

definition date_round :: "date \<Rightarrow> int \<Rightarrow> date" where
  "date_round dt n = Date_julian ((julian dt sdiv n) * n)"

definition dayOfWeek :: "date \<Rightarrow> int" where
  "dayOfWeek dt = julian dt smod 7"

definition monthName :: "date \<Rightarrow> string result" where
  "monthName dt =
     (let ddate = julianToDate (julian dt);
          ddate = ddate smod 10000;
          n = ddate sdiv 100
      in ASSERT (n \<ge> 1 \<and> n \<le> 12) (Inr (months ! nat (n - 1))))"

section \<open>Date: text\<close>

text \<open>\<^verbatim>\<open>setw(n) << setfill('0')\<close>: pad on the left up to the width.\<close>

definition setw0 :: "nat \<Rightarrow> string \<Rightarrow> string" where
  "setw0 w s = replicate (w - length s) (CHR ''0'') @ s"

definition print_date :: "date \<Rightarrow> string" where
  "print_date dt =
     (let ddate = julianToDate (julian dt);
          y = ddate sdiv 10000;
          ddate = ddate smod 10000;
          m = ddate sdiv 100;
          ddate = ddate smod 100;
          d = ddate
      in int_to_string y @ ''-'' @ setw0 2 (int_to_string m) @ ''-'' @ setw0 2 (int_to_string d))"

fun find_month :: "string \<Rightarrow> nat \<Rightarrow> string list \<Rightarrow> nat option" where
  "find_month s i [] = None"
| "find_month s i (m # ms) = (if s = m then Some i else find_month s (Suc i) ms)"

definition monthly_patch :: "int \<Rightarrow> int" where
  "monthly_patch value = (if value smod 100 = 0 then value + 1 else value)"

definition parse :: "tm \<Rightarrow> string \<Rightarrow> int result" where
  "parse now s =
     (let result = tokenize_vector (Tokenizer_string ''-'' False) s [] in
      rbind
        (case result of
           [_] \<Rightarrow>
             (if length s = 3 then
                (case find_month s 0 months of
                   Some i \<Rightarrow> Inr (1900 * 10000 + (int i + 1) * 100 + 1)
                 | None \<Rightarrow> Inl BadDate)
              else if length s = 6 \<or> length s = 8 then Inr (atol s)
              else Inl BadDate)
         | [r0, r1] \<Rightarrow>
             (if length r0 = 2 \<and> length r1 = 2 then
                rbind (Date_ymd now 2004 (atol r0) (atol r1)) (\<lambda>d. Inr (yyyymmdd d))
              else
                rbind (Date_ymd now (atol r0) 1 1)
                  (\<lambda>d. let value = yyyymmdd (date_add_assign d (atol r1 - 1)) in
                       if length r0 \<noteq> 2 \<and> length r0 \<noteq> 4 \<or> length r1 \<noteq> 3
                       then Inl BadDate else Inr value))
         | [r0, r1, r2] \<Rightarrow>
             (if length r0 \<noteq> 2 \<and> length r0 \<noteq> 4 \<or> length r1 \<noteq> 2 \<or> length r2 \<noteq> 2
              then Inl BadDate
              else Inr (atol r0 * 10000 + atol r1 * 100 + atol r2))
         | _ \<Rightarrow> Inl BadDate)
        (\<lambda>value. Inr (monthly_patch value)))"

definition Date_string :: "tm \<Rightarrow> string \<Rightarrow> date result" where
  "Date_string now s =
     rbind (parse now s)
       (\<lambda>value. let this = \<lparr>julian = dateToJulian now value\<rparr>
                in rbind (check this value) (\<lambda>_. Inr this))"

section \<open>Month and DayOfYear\<close>

record month_of_year =
  month_date :: date

definition Month_ym :: "tm \<Rightarrow> int \<Rightarrow> int \<Rightarrow> month_of_year result" where
  "Month_ym now y m = rbind (Date_ymd now y m 1) (\<lambda>d. Inr \<lparr>month_date = d\<rparr>)"

definition Month_date :: "tm \<Rightarrow> date \<Rightarrow> month_of_year result" where
  "Month_date now dt = rbind (Date_ymd now (year dt) (month dt) 1) (\<lambda>d. Inr \<lparr>month_date = d\<rparr>)"

text \<open>
  The string constructor starts from 1997-10-10 and replaces it where the text has a form it
  knows; in the two \<^verbatim>\<open>default\<close> branches the flag \<^verbatim>\<open>err\<close> stays false.
\<close>

definition Month_string :: "tm \<Rightarrow> string \<Rightarrow> month_of_year result" where
  "Month_string now s =
     rbind (Date_ymd now 1997 10 10) (\<lambda>initial.
     (let result = tokenize_vector (Tokenizer_string ''-'' False) s [];
          set_to = (\<lambda>err value. rbind (Date_long now value)
                       (\<lambda>d. if err then Inl SeriousBug else Inr \<lparr>month_date = d\<rparr>)) in
      case result of
        [_] \<Rightarrow>
          (if length s = 6 \<or> length s = 8 then set_to False (monthly_patch (atol s))
           else Inr \<lparr>month_date = initial\<rparr>)
      | [r0, r1] \<Rightarrow>
          set_to (length r0 \<noteq> 2 \<and> length r0 \<noteq> 4 \<or> length r1 \<noteq> 2)
            (atol r0 * 10000 + atol r1 * 100 + 1)
      | [r0, r1, r2] \<Rightarrow>
          set_to (length r0 \<noteq> 2 \<and> length r0 \<noteq> 4 \<or> length r1 \<noteq> 2 \<or> length r2 \<noteq> 2)
            (monthly_patch (atol r0 * 10000 + atol r1 * 100 + atol r2))
      | _ \<Rightarrow> Inr \<lparr>month_date = initial\<rparr>))"

definition print_month :: "month_of_year \<Rightarrow> string" where
  "print_month mo =
     int_to_string (year (month_date mo)) @ ''-'' @ setw0 2 (int_to_string (month (month_date mo)))"

definition date2Value :: "tm \<Rightarrow> date \<Rightarrow> int result" where
  "date2Value now dt =
     rbind (Date_ymd now (year dt) 1 1) (\<lambda>jan01.
     rbind (Date_ymd now (year dt) 2 28) (\<lambda>feb28.
     rbind (Date_ymd now (year dt + 1) 1 1) (\<lambda>nextJan01.
       let numberOfDays = date_minus nextJan01 jan01;
           value = date_minus dt jan01
       in Inr (if numberOfDays = 365 \<and> value > date_minus feb28 jan01 then value + 1 else value))))"

definition print_day_of_year :: "tm \<Rightarrow> int \<Rightarrow> string result" where
  "print_day_of_year now value =
     rbind (Date_yday now 2004 (value + 1))
       (\<lambda>d. Inr (setw0 2 (int_to_string (month d)) @ ''-'' @ setw0 2 (int_to_string (day d))))"

section \<open>The Gregorian calendar\<close>

definition leap :: "int \<Rightarrow> bool" where
  "leap y \<longleftrightarrow> y mod 4 = 0 \<and> (y mod 100 \<noteq> 0 \<or> y mod 400 = 0)"

definition days_in_month :: "int \<Rightarrow> int \<Rightarrow> int" where
  "days_in_month y m =
     (if m = 2 then (if leap y then 29 else 28)
      else if m \<in> {4, 6, 9, 11} then 30 else 31)"

definition valid_ymd :: "int \<Rightarrow> int \<Rightarrow> int \<Rightarrow> bool" where
  "valid_ymd y m d \<longleftrightarrow> 1 \<le> m \<and> m \<le> 12 \<and> 1 \<le> d \<and> d \<le> days_in_month y m"

definition next_day :: "int \<times> int \<times> int \<Rightarrow> int \<times> int \<times> int" where
  "next_day = (\<lambda>(y, m, d).
     if d < days_in_month y m then (y, m, d + 1)
     else if m < 12 then (y, m + 1, 1)
     else (y + 1, 1, 1))"

definition ymd :: "int \<Rightarrow> int \<Rightarrow> int \<Rightarrow> int" where
  "ymd y m d = y * 10000 + m * 100 + d"

definition days_before :: "int \<Rightarrow> int" where
  "days_before y1 = 36524 * (y1 div 100) + y1 div 100 div 4 + 365 * (y1 mod 100) + y1 mod 100 div 4"

definition month_offset :: "int \<Rightarrow> int" where
  "month_offset m1 = (153 * m1 + 2) div 5"

definition julian_of :: "int \<Rightarrow> int \<Rightarrow> int \<Rightarrow> int" where
  "julian_of y m d =
     (if m > 2 then days_before y + month_offset (m - 3) + d + 1721119
      else days_before (y - 1) + month_offset (m + 9) + d + 1721119)"

text \<open>The calendar year a date value stands for: two-digit years are of the twentieth century.\<close>

definition full_year :: "int \<Rightarrow> int" where
  "full_year v = (if v div 10000 < 100 then v div 10000 + 1900 else v div 10000)"

section \<open>The arithmetic of the conversions\<close>

lemma ymd_parts:
  assumes "0 \<le> m" "m < 100" "0 \<le> d" "d < 100" "0 \<le> y"
  shows "ymd y m d div 10000 = y" "ymd y m d mod 10000 = m * 100 + d"
    "(m * 100 + d) div 100 = m" "(m * 100 + d) mod 100 = d" "0 \<le> ymd y m d"
    "ymd y m d mod 100 = d"
proof -
  have e: "ymd y m d = 10000 * y + (m * 100 + d)" "0 \<le> m * 100 + d" "m * 100 + d < 10000"
    using assms by (simp_all add: ymd_def)
  have e2: "m * 100 + d = 100 * m + d" "0 \<le> d" "d < 100"
    using assms by simp_all
  have e3: "ymd y m d = 100 * (100 * y + m) + d" by (simp add: ymd_def)
  show "ymd y m d div 10000 = y" "ymd y m d mod 10000 = m * 100 + d"
    by (rule div_mod_unique [OF e])+
  show "(m * 100 + d) div 100 = m" "(m * 100 + d) mod 100 = d"
    by (rule div_mod_unique [OF e2])+
  show "0 \<le> ymd y m d" using assms by (simp add: ymd_def)
  show "ymd y m d mod 100 = d" by (rule div_mod_unique(2) [OF e3 e2(2,3)])
qed

lemma century_div: "146097 * c div 4 = 36524 * c + c div 4" for c :: int
  using div_mult_self1 [of 4 c "36524 * c"] by (simp add: algebra_simps)

lemma year_div: "1461 * r div 4 = 365 * r + r div 4" for r :: int
  using div_mult_self1 [of 4 r "365 * r"] by (simp add: algebra_simps)

lemma civilToJulian_ymd:
  assumes "0 \<le> m" "m < 100" "0 \<le> d" "d < 100" "0 \<le> y"
  shows "civilToJulian (ymd y m d) = julian_of (if y < 100 then y + 1900 else y) m d"
proof -
  define Y where "Y = (if y < 100 then y + 1900 else y)"
  have Y: "100 \<le> Y" using assms(5) by (simp add: Y_def)
  have p: "ymd y m d sdiv 10000 = y" "ymd y m d smod 10000 = m * 100 + d"
      "(m * 100 + d) sdiv 100 = m" "(m * 100 + d) smod 100 = d"
    using ymd_parts [OF assms] assms by simp_all
  have q: "146097 * (z sdiv 100) sdiv 4 + 1461 * (z smod 100) sdiv 4 = days_before z" if "0 \<le> z" for z
    using that by (simp add: days_before_def century_div year_div)
  have r: "(153 * z + 2) sdiv 5 = month_offset z" if "0 \<le> z" for z
    using that by (simp add: month_offset_def)
  have c: "civilToJulian (ymd y m d) =
      (case (if m > 2 then (m - 3, Y) else (m + 9, Y - 1)) of (m1, y1) \<Rightarrow>
         146097 * (y1 sdiv 100) sdiv 4 + 1461 * (y1 smod 100) sdiv 4
         + ((153 * m1 + 2) sdiv 5 + d + 1721119))"
    unfolding civilToJulian_def Let_def p Y_def ..
  show ?thesis
  proof (cases "m > 2")
    case True
    then have "0 \<le> m - 3" "0 \<le> Y" using Y by simp_all
    then show ?thesis
      using True unfolding c by (simp only: if_True prod.case q r julian_of_def flip: Y_def)
  next
    case False
    then have "0 \<le> m + 9" "0 \<le> Y - 1" using Y assms(1) by simp_all
    then show ?thesis
      using False unfolding c by (simp only: if_False prod.case q r julian_of_def flip: Y_def)
  qed
qed

lemma leap_century: "leap (100 * c) \<longleftrightarrow> c mod 4 = 0"
proof -
  have "(100 * c) mod 400 = 100 * (c mod 4)" using mod_mult_mult1 [of 100 c 4] by simp
  moreover have "(100 * c) mod 4 = 0" using mod_mult_self1_is_0 [of 4 "25 * c"] by simp
  ultimately show ?thesis by (simp add: leap_def)
qed

lemma leap_in_century:
  assumes "0 < r" "r < 100"
  shows "leap (100 * c + r) \<longleftrightarrow> r mod 4 = 0"
proof -
  have "(100 * c + r) mod 100 = r" using assms by simp
  moreover have "(100 * c + r) mod 4 = r mod 4"
    using mod_mult_self2 [of r 4 "25 * c"] by (simp add: algebra_simps)
  ultimately show ?thesis using assms by (simp add: leap_def)
qed

lemma days_before_century: "0 \<le> r \<Longrightarrow> r < 100 \<Longrightarrow>
  days_before (100 * c + r) = 36524 * c + c div 4 + 365 * r + r div 4"
  by (simp add: days_before_def)

lemma div4_Suc: "(r + 1) div 4 = r div 4 + (if (r + 1) mod 4 = 0 then 1 else 0)" for r :: int
  by presburger

lemma days_before_Suc: "days_before (y + 1) = days_before y + (if leap (y + 1) then 366 else 365)"
proof -
  define c r where "c = y div 100" and "r = y mod 100"
  have y: "y = 100 * c + r" and r: "0 \<le> r" "r < 100" by (simp_all add: c_def r_def)
  show ?thesis
  proof (cases "r = 99")
    case True
    have y1: "y + 1 = 100 * (c + 1)" by (simp add: y True)
    have "days_before (y + 1) = 36524 * (c + 1) + (c + 1) div 4"
      using days_before_century [of 0 "c + 1"] by (simp only: y1) simp
    moreover have "leap (y + 1) \<longleftrightarrow> (c + 1) mod 4 = 0"
      by (simp only: y1 leap_century)
    moreover have "days_before y = 36524 * c + c div 4 + 365 * 99 + 24"
      by (simp add: y True days_before_century)
    ultimately show ?thesis by (simp add: div4_Suc)
  next
    case False
    have "y + 1 = 100 * c + (r + 1)" by (simp add: y)
    then have "days_before (y + 1) = 36524 * c + c div 4 + 365 * (r + 1) + (r + 1) div 4"
        and "leap (y + 1) \<longleftrightarrow> (r + 1) mod 4 = 0"
      using r False by (simp_all only: days_before_century leap_in_century)
    moreover have "days_before y = 36524 * c + c div 4 + 365 * r + r div 4"
      using r by (simp add: y days_before_century)
    ultimately show ?thesis by (simp add: div4_Suc)
  qed
qed

lemma month_cases:
  fixes m :: int
  assumes "1 \<le> m" and "m \<le> 12"
  obtains "m = 1" | "m = 2" | "m = 3" | "m = 4" | "m = 5" | "m = 6"
    | "m = 7" | "m = 8" | "m = 9" | "m = 10" | "m = 11" | "m = 12"
proof -
  have "m = 1 \<or> m = 2 \<or> m = 3 \<or> m = 4 \<or> m = 5 \<or> m = 6 \<or>
        m = 7 \<or> m = 8 \<or> m = 9 \<or> m = 10 \<or> m = 11 \<or> m = 12"
    using assms by presburger
  then show thesis using that by blast
qed

lemma valid_ymd_month: "valid_ymd y m d \<Longrightarrow> 1 \<le> m \<and> m \<le> 12"
  by (simp add: valid_ymd_def)

lemma next_day_valid:
  assumes "valid_ymd y m d" "next_day (y, m, d) = (y', m', d')"
  shows "valid_ymd y' m' d' \<and> y \<le> y'"
proof -
  have "1 \<le> days_in_month a b" for a b by (simp add: days_in_month_def)
  then show ?thesis
  using assms by (auto simp: next_day_def valid_ymd_def split: if_splits)
qed

lemma julian_of_next_day:
  assumes "valid_ymd y m d" "next_day (y, m, d) = (y', m', d')"
  shows "julian_of y' m' d' = julian_of y m d + 1"
proof -
  have m: "1 \<le> m" "m \<le> 12" using assms by (auto simp: valid_ymd_def)
  show ?thesis
  proof (cases "d < days_in_month y m")
    case True
    then show ?thesis using assms(2) by (auto simp: next_day_def julian_of_def)
  next
    case False
    then have d: "d = days_in_month y m" using assms(1) by (simp add: valid_ymd_def)
    have e: "y' = (if m < 12 then y else y + 1)" "m' = (if m < 12 then m + 1 else 1)" "d' = 1"
      using assms(2) False by (auto simp: next_day_def split: if_splits)
    have db: "days_before y = days_before (y - 1) + (if leap y then 366 else 365)"
      using days_before_Suc [of "y - 1"] by simp
    show ?thesis
      unfolding julian_of_def e d
      by (cases rule: month_cases [OF m]) (simp_all add: days_in_month_def month_offset_def db)
  qed
qed

lemma leap_next_cases:
  assumes "leap (100 * c + r + 1)" and "0 \<le> r" and "r < 100"
  shows "r mod 4 = 3 \<and> (r = 99 \<longrightarrow> c mod 4 = 3)"
proof (cases "r = 99")
  case True
  then have "leap (100 * (c + 1))" using assms(1) by (simp add: algebra_simps)
  then have "(c + 1) mod 4 = 0" by (simp only: leap_century)
  then have "c mod 4 = 3" by presburger
  with True show ?thesis by simp
next
  case False
  then have "(r + 1) mod 4 = 0"
    using assms leap_in_century [of "r + 1" c] by (simp add: add.assoc)
  then have "r mod 4 = 3" by presburger
  with False show ?thesis by simp
qed

lemma julianToDate_march:
  fixes y1 m1 d :: int
  assumes y: "0 \<le> y1" and m: "0 \<le> m1" "m1 \<le> 11" and d: "1 \<le> d"
    and k: "k = month_offset m1 + d - 1" "0 \<le> k" "k \<le> (if leap (y1 + 1) then 365 else 364)"
    and b: "153 * m1 + 5 * (d - 1) \<le> 5 * k + 2" "5 * k + 2 < 153 * m1 + 5 * d"
      "5 * k + 2 < 153 * (m1 + 1)"
  shows "julianToDate (days_before y1 + month_offset m1 + d + 1721119) =
    (y1 + (m1 + 1) div 11) * 10000 + (if m1 < 10 then m1 + 3 else m1 - 9) * 100 + d"
proof -
  define c r where "c = y1 div 100" and "r = y1 mod 100"
  have y1: "y1 = 100 * c + r" and r: "0 \<le> r" "r < 100" and c: "0 \<le> c"
    using y by (simp_all add: c_def r_def)
  have db: "days_before y1 = 36524 * c + c div 4 + 365 * r + r div 4"
    using r by (simp add: y1 days_before_century)
  obtain q s where r4: "r = 4 * q + s" "0 \<le> s" "s \<le> 3" "r div 4 = q" "r mod 4 = s"
    by (rule that [of "r div 4" "r mod 4"]) auto
  obtain p t where c4: "c = 4 * p + t" "0 \<le> t" "t \<le> 3" "c div 4 = p" "c mod 4 = t"
    by (rule that [of "c div 4" "c mod 4"]) auto
  define n where "n = 365 * r + q + k"
  have kr: "k \<le> 364 \<or> k = 365 \<and> s = 3 \<and> (r = 99 \<longrightarrow> t = 3)"
    using k(3) leap_next_cases [of c r] r r4 c4 unfolding y1 by (cases "leap (100 * c + r + 1)") auto
  have n0: "0 \<le> n" using r r4 k(2) by (simp add: n_def)
  have n: "4 * n + 3 - t < 146097"
  proof (cases "r = 99")
    case True
    then have "q = 24" "s = 3" using r4(4,5) by auto
    then show ?thesis using True kr c4(2,3) by (auto simp: n_def)
  next
    case False
    then show ?thesis using r r4(1-3) c4(2,3) kr by (simp add: n_def) linarith
  qed
  have j: "4 * (days_before y1 + month_offset m1 + d + 1721119) - 6884477
      = 146097 * c + (4 * n + 3 - t)"
    using k(1) c4 r4 by (simp add: db n_def)
  have t: "0 \<le> 4 * n + 3 - t" using n0 c4(3) by simp
  have x1: "(146097 * c + (4 * n + 3 - t)) sdiv 146097 = c"
      "(146097 * c + (4 * n + 3 - t)) smod 146097 = 4 * n + 3 - t"
    using c t div_mod_unique [OF refl t n, of c] by simp_all
  have x2: "(4 * n + 3 - t) sdiv 4 = n"
    using t c4(2,3) div_mod_unique(1) [of "4 * n + 3 - t" 4 n "3 - t"] by simp
  have n4: "4 * n + 3 = 1461 * r + (4 * k + 3 - s)"
    using r4 by (simp add: n_def)
  have b3: "0 \<le> 4 * k + 3 - s" "4 * k + 3 - s < 1461" using r4(2,3) k(2) kr by auto
  have x3: "(4 * n + 3) sdiv 1461 = r" "(4 * n + 3) smod 1461 = 4 * k + 3 - s"
    using n0 div_mod_unique [OF n4 b3] by simp_all
  have x4: "(4 * k + 3 - s) sdiv 4 = k"
    using b3(1) r4(2,3) div_mod_unique(1) [of "4 * k + 3 - s" 4 k "3 - s"] by simp
  have e: "5 * (k + 1) - 3 = 153 * m1 + (5 * k + 2 - 153 * m1)"
      "0 \<le> 5 * k + 2 - 153 * m1" "5 * k + 2 - 153 * m1 < 153"
    using b d by simp_all
  have x5: "(5 * (k + 1) - 3) sdiv 153 = m1" "(5 * (k + 1) - 3) smod 153 = 5 * k + 2 - 153 * m1"
    using k(2) div_mod_unique [OF e] by simp_all
  have x6: "(5 * k + 2 - 153 * m1) sdiv 5 = d - 1"
    using e(2) b div_mod_unique(1) [of "5 * k + 2 - 153 * m1" 5 "d - 1" "5 * k + 2 - 153 * m1 - 5 * (d - 1)"]
    by simp
  have x7: "(m1 + 1) sdiv 11 = (m1 + 1) div 11" using m by simp
  show ?thesis
    unfolding julianToDate_def Let_def j x1 x2 x3 x4 x5 x6 x7
    using y1 by simp
qed

lemma julianToDate_julian_of:
  assumes v: "valid_ymd y m d" and y: "1 \<le> y"
  shows "julianToDate (julian_of y m d) = ymd y m d"
proof -
  have m: "1 \<le> m" "m \<le> 12" using v by (auto simp: valid_ymd_def)
  have d: "1 \<le> d" "d \<le> days_in_month y m" using v by (auto simp: valid_ymd_def)
  show ?thesis
  proof (cases "m > 2")
    case True
    then show ?thesis
      using d julianToDate_march [of y "m - 3" d] y
      by (cases rule: month_cases [OF m])
        (simp_all add: julian_of_def days_in_month_def month_offset_def ymd_def)
  next
    case False
    with m consider "m = 1" | "m = 2" by linarith
    then show ?thesis
      using d julianToDate_march [of "y - 1" "m + 9" d] y
      by cases (cases "leap y"; simp add: julian_of_def days_in_month_def month_offset_def ymd_def)+
  qed
qed

lemma julian_of_surj:
  assumes "1721426 \<le> j"
  shows "\<exists>y m d. valid_ymd y m d \<and> 1 \<le> y \<and> julian_of y m d = j"
  using assms
proof (induction j rule: int_ge_induct)
  case base
  have "valid_ymd 1 1 1 \<and> julian_of 1 1 1 = 1721426"
    by (simp add: valid_ymd_def days_in_month_def julian_of_def days_before_def month_offset_def)
  then show ?case by (intro exI [of _ 1]) auto
next
  case (step j)
  then obtain y m d where v: "valid_ymd y m d" "1 \<le> y" "julian_of y m d = j" by blast
  obtain y' m' d' where n: "next_day (y, m, d) = (y', m', d')" by (metis prod_cases3)
  then show ?case
    using next_day_valid [OF v(1) n] julian_of_next_day [OF v(1) n] v
    by (intro exI [of _ y'] exI [of _ m'] exI [of _ d']) auto
qed

lemma valid_ymd_bounds:
  assumes "valid_ymd y m d"
  shows "1 \<le> m" "m \<le> 12" "1 \<le> d" "d \<le> 31"
  using assms by (auto simp: valid_ymd_def days_in_month_def split: if_splits)

lemma civilToJulian_valid:
  "valid_ymd y m d \<Longrightarrow> 100 \<le> y \<Longrightarrow> civilToJulian (ymd y m d) = julian_of y m d"
  using valid_ymd_bounds [of y m d] civilToJulian_ymd [of m d y] by simp

lemma julianE:
  assumes "1721426 \<le> julian dt"
  obtains y m d where "valid_ymd y m d" and "1 \<le> y" and "julian dt = julian_of y m d"
    and "yyyymmdd dt = ymd y m d" and "year dt = y" and "month dt = m" and "day dt = d"
proof -
  obtain y m d where v: "valid_ymd y m d" "1 \<le> y" "julian_of y m d = julian dt"
    using julian_of_surj [OF assms] by blast
  note b = valid_ymd_bounds [OF v(1)]
  have j: "julianToDate (julian dt) = ymd y m d"
    using julianToDate_julian_of [OF v(1,2)] v(3) by simp
  show thesis
    using v b ymd_parts [of m d y]
    by (intro that [of y m d])
      (simp_all add: yyyymmdd_def year_def month_def day_def Let_def j)
qed

lemma days_before_ge: "0 \<le> y1 \<Longrightarrow> 365 * y1 \<le> days_before y1"
proof -
  assume "0 \<le> y1"
  then have "0 \<le> y1 div 100" "0 \<le> y1 div 100 div 4" "0 \<le> y1 mod 100 div 4"
    by (simp_all add: pos_imp_zdiv_nonneg_iff)
  moreover have "y1 = 100 * (y1 div 100) + y1 mod 100" by simp
  ultimately show ?thesis unfolding days_before_def by linarith
qed

lemma julian_of_ge:
  assumes "100 \<le> y" and "0 \<le> m" and "0 \<le> d"
  shows "1721426 \<le> julian_of y m d"
proof -
  have "0 \<le> month_offset (m + 9)" "m > 2 \<Longrightarrow> 0 \<le> month_offset (m - 3)"
    using assms by (simp_all add: month_offset_def)
  then show ?thesis
    using days_before_ge [of y] days_before_ge [of "y - 1"] assms by (auto simp: julian_of_def)
qed

lemma ymd_inject:
  assumes "ymd y m d = ymd y' m' d'"
    and "0 \<le> m" "m < 100" "0 \<le> d" "d < 100" "0 \<le> y"
    and "0 \<le> m'" "m' < 100" "0 \<le> d'" "d' < 100" "0 \<le> y'"
  shows "y = y'" "m = m'" "d = d'"
proof -
  note p = ymd_parts [OF assms(2-6)] ymd_parts [OF assms(7-11)]
  show "y = y'" using p(1,7) assms(1) by simp
  have "m * 100 + d = m' * 100 + d'" using p(2,8) assms(1) by simp
  then show "m = m'" "d = d'" using p(3,4,9,10) by simp_all
qed

lemma ymd_split: "ymd (v div 10000) (v div 100 mod 100) (v mod 100) = v" for v :: int
proof -
  have "v div 10000 = v div 100 div 100" using zdiv_zmult2_eq [of 100 v 100] by simp
  moreover have "v div 100 = 100 * (v div 100 div 100) + v div 100 mod 100" by simp
  moreover have "v = 100 * (v div 100) + v mod 100" by simp
  ultimately show ?thesis unfolding ymd_def by linarith
qed

lemma check_iff_valid:
  assumes "0 < v"
  shows "check \<lparr>julian = civilToJulian v\<rparr> v = Inr () \<longleftrightarrow>
           valid_ymd (full_year v) (v div 100 mod 100) (v mod 100)"
proof -
  define y m d where "y = v div 10000" and "m = v div 100 mod 100" and "d = v mod 100"
  define Y where "Y = (if y < 100 then y + 1900 else y)"
  have v: "v = ymd y m d" by (simp add: y_def m_def d_def ymd_split)
  have b: "0 \<le> m" "m < 100" "0 \<le> d" "d < 100" "0 \<le> y" "100 \<le> Y"
    using assms by (auto simp: y_def m_def d_def Y_def pos_imp_zdiv_nonneg_iff)
  have j: "civilToJulian v = julian_of Y m d"
    using b unfolding v Y_def by (simp add: civilToJulian_ymd)
  have y100: "v \<le> 999999 \<longleftrightarrow> y < 100"
  proof -
    have "v = 10000 * y + v mod 10000" "0 \<le> v mod 10000" "v mod 10000 < 10000"
      by (simp_all add: y_def)
    then show ?thesis by linarith
  qed
  have chk: "(if v \<le> 999999 then v + 19000000 else v) = ymd Y m d"
    unfolding y100 unfolding v Y_def by (simp add: ymd_def)
  have "check \<lparr>julian = civilToJulian v\<rparr> v = Inr () \<longleftrightarrow> julianToDate (julian_of Y m d) = ymd Y m d"
    unfolding check_def Let_def chk j yyyymmdd_def by auto
  also have "\<dots> \<longleftrightarrow> valid_ymd Y m d"
  proof
    assume e: "julianToDate (julian_of Y m d) = ymd Y m d"
    obtain y' m' d' where p: "valid_ymd y' m' d'" "1 \<le> y'" "julian_of y' m' d' = julian_of Y m d"
      using julian_of_surj [OF julian_of_ge [OF b(6) b(1) b(3)]] by blast
    then have "ymd y' m' d' = ymd Y m d" using julianToDate_julian_of [OF p(1,2)] e by simp
    then have "y' = Y" "m' = m" "d' = d"
      using ymd_inject [of y' m' d' Y m d] valid_ymd_bounds [OF p(1)] p(2) b by auto
    with p(1) show "valid_ymd Y m d" by simp
  next
    assume "valid_ymd Y m d"
    then show "julianToDate (julian_of Y m d) = ymd Y m d"
      using julianToDate_julian_of [of Y m d] b by simp
  qed
  finally show ?thesis by (simp add: full_year_def Y_def y_def m_def d_def)
qed


lemma Date_long_eq:
  assumes "0 < v"
  shows "Date_long now v =
     (if valid_ymd (full_year v) (v div 100 mod 100) (v mod 100)
      then Inr \<lparr>julian = julian_of (full_year v) (v div 100 mod 100) (v mod 100)\<rparr>
      else Inl BadDate)"
proof -
  have "civilToJulian v = julian_of (full_year v) (v div 100 mod 100) (v mod 100)"
    using assms civilToJulian_ymd [of "v div 100 mod 100" "v mod 100" "v div 10000"]
    by (simp add: full_year_def ymd_split pos_imp_zdiv_nonneg_iff)
  moreover have "check \<lparr>julian = civilToJulian v\<rparr> v =
      (if valid_ymd (full_year v) (v div 100 mod 100) (v mod 100) then Inr () else Inl BadDate)"
    using check_iff_valid [OF assms] by (auto simp: check_def Let_def)
  ultimately show ?thesis
    using assms by (simp add: Date_long_def dateToJulian_def)
qed

lemma Date_ymd_eq_long:
  assumes "0 < ymd y m d"
  shows "Date_ymd now y m d = Date_long now (ymd y m d)"
  using assms by (simp add: Date_ymd_def Date_long_def ymd_def)

lemma Date_ymd_valid:
  assumes "valid_ymd y m d" and "100 \<le> y"
  shows "Date_ymd now y m d = Inr \<lparr>julian = julian_of y m d\<rparr>"
proof -
  note b = valid_ymd_bounds [OF assms(1)]
  have pos: "0 < ymd y m d" using b assms by (simp add: ymd_def)
  have v: "ymd y m d div 10000 = y" "ymd y m d mod 100 = d"
    using ymd_parts [of m d y] b assms by simp_all
  have m: "ymd y m d div 100 mod 100 = m"
    using ymd_inject(2) [OF ymd_split [of "ymd y m d"]] v b assms by simp
  show ?thesis
    using assms by (simp add: Date_ymd_eq_long pos v Date_long_eq m full_year_def)
qed

lemma date_incr_next_day:
  assumes "1721426 \<le> julian dt"
  shows "(year (date_incr dt), month (date_incr dt), day (date_incr dt)) =
           next_day (year dt, month dt, day dt)"
proof -
  obtain y m d where v: "valid_ymd y m d" "1 \<le> y" "julian dt = julian_of y m d"
      "year dt = y" "month dt = m" "day dt = d"
    by (rule julianE [OF assms])
  obtain y' m' d' where n: "next_day (y, m, d) = (y', m', d')" by (metis prod_cases3)
  note v' = next_day_valid [OF v(1) n]
  have j: "julian (date_incr dt) = julian_of y' m' d'"
    using julian_of_next_day [OF v(1) n] v(3) by (simp add: date_incr_def)
  have "julianToDate (julian (date_incr dt)) = ymd y' m' d'"
    using julianToDate_julian_of [of y' m' d'] v' v(2) j by simp
  then show ?thesis
    using n v ymd_parts [of m' d' y'] valid_ymd_bounds [of y' m' d'] v'
    by (simp add: year_def month_def day_def)
qed

lemma ymd_less_next_day:
  assumes "valid_ymd y m d" and "next_day (y, m, d) = (y', m', d')"
  shows "ymd y m d < ymd y' m' d'"
  using assms valid_ymd_bounds [OF assms(1)]
  by (auto simp: next_day_def ymd_def split: if_splits)

lemma julianToDate_step:
  assumes "1721426 \<le> j"
  shows "julianToDate j < julianToDate (j + 1)"
proof -
  obtain y m d where v: "valid_ymd y m d" "1 \<le> y" "julian_of y m d = j"
    using julian_of_surj [OF assms] by blast
  obtain y' m' d' where n: "next_day (y, m, d) = (y', m', d')" by (metis prod_cases3)
  show ?thesis
    using ymd_less_next_day [OF v(1) n] next_day_valid [OF v(1) n] julian_of_next_day [OF v(1) n]
      julianToDate_julian_of [OF v(1,2)] julianToDate_julian_of [of y' m' d'] v
    by simp
qed

lemma julianToDate_strict_mono:
  assumes "1721426 \<le> i" and "i < j"
  shows "julianToDate i < julianToDate j"
  using assms(2)
proof (induction j rule: int_gr_induct)
  case base
  then show ?case by (rule julianToDate_step [OF assms(1)])
next
  case (step j)
  then show ?case using julianToDate_step [of j] assms(1) by simp
qed

lemma julianToDate_less_iff:
  assumes "1721426 \<le> i" and "1721426 \<le> j"
  shows "julianToDate i < julianToDate j \<longleftrightarrow> i < j"
  using julianToDate_strict_mono [OF assms(1)] julianToDate_strict_mono [OF assms(2)]
  by (metis less_asym linorder_neqE)

lemma date_eq_iff: "a = b \<longleftrightarrow> julian a = julian b" for a b :: date
  by (cases a; cases b) simp

text \<open>Dates are ordered by their julian numbers, or by their calendar values from the year 1 on.\<close>

interpretation dao: keyed_order "\<lambda>_. True" julian date_less "(=)"
  by unfold_locales (simp_all add: date_less_def date_eq_iff)

interpretation dac: keyed_order "\<lambda>dt. 1721426 \<le> julian dt" yyyymmdd date_less "(=)"
proof unfold_locales
  fix a b :: date
  assume v: "1721426 \<le> julian a" "1721426 \<le> julian b"
  then show "date_less a b \<longleftrightarrow> yyyymmdd a < yyyymmdd b" by (simp add: julianToDate_less_iff date_less_def yyyymmdd_def)
  show "a = b \<longleftrightarrow> yyyymmdd a = yyyymmdd b"
    using julianToDate_less_iff [OF v] julianToDate_less_iff [OF v(2,1)] unfolding date_eq_iff yyyymmdd_def by linarith
qed

lemma julianToDate_100: "julianToDate 1757585 = 1000101"
  by (simp add: julianToDate_def)

lemma julianE_100:
  assumes "1757585 \<le> julian dt"
  obtains y m d where "valid_ymd y m d" and "100 \<le> y" and "julian dt = julian_of y m d"
    and "yyyymmdd dt = ymd y m d" and "year dt = y" and "month dt = m" and "day dt = d"
proof -
  have "1000101 \<le> yyyymmdd dt"
    using assms julianToDate_strict_mono [of 1757585 "julian dt"] julianToDate_100
    by (cases "julian dt = 1757585") (auto simp: yyyymmdd_def)
  moreover obtain y m d where v: "valid_ymd y m d" "1 \<le> y" "julian dt = julian_of y m d"
      "yyyymmdd dt = ymd y m d" "year dt = y" "month dt = m" "day dt = d"
    using assms by (elim julianE [rotated]) auto
  moreover have "100 \<le> y"
    using calculation(1) v(4) valid_ymd_bounds [OF v(1)] by (simp add: ymd_def)
  ultimately show thesis using that by blast
qed

lemma Date_long_yyyymmdd:
  assumes "1757585 \<le> julian dt"
  shows "Date_long now (yyyymmdd dt) = Inr dt"
proof -
  obtain y m d where v: "valid_ymd y m d" "100 \<le> y" "julian dt = julian_of y m d" "yyyymmdd dt = ymd y m d"
    by (rule julianE_100 [OF assms])
  have "0 < ymd y m d" using v valid_ymd_bounds [OF v(1)] by (simp add: ymd_def)
  then show ?thesis
    using Date_ymd_valid [OF v(1,2), of now] Date_ymd_eq_long v(3,4) by (simp add: Date_ymd_eq_long)
qed

section \<open>Text\<close>

lemma nat_to_string_step:
  "nat_to_string n = (if n < 10 then [digit_char n] else nat_to_string (n div 10) @ [digit_char (n mod 10)])"
  by (rule nat_to_string.simps)

lemma nat_to_string_small: "n < 10 \<Longrightarrow> nat_to_string n = [digit_char n]"
  by (simp add: nat_to_string.simps)

lemma length_nat_to_string_ge: "10 \<le> n \<Longrightarrow> length (nat_to_string n) = Suc (length (nat_to_string (n div 10)))"
  by (subst nat_to_string.simps) simp

lemma length_nat_to_string_4: "1000 \<le> n \<Longrightarrow> n < 10000 \<Longrightarrow> length (nat_to_string n) = 4"
proof -
  assume n: "1000 \<le> n" "n < 10000"
  have "n div 10 div 10 div 10 < 10" using n(2) by (simp add: less_mult_imp_div_less)
  moreover have "10 \<le> n div 10 div 10" "10 \<le> n div 10" using n(1) by simp_all
  ultimately show ?thesis
    using n by (simp add: length_nat_to_string_ge nat_to_string_small)
qed

lemma digit_char_0: "digit_char 0 = CHR ''0''"
  by code_simp

lemma setw0_two:
  assumes "n < 100"
  shows "setw0 2 (nat_to_string n) = [digit_char (n div 10), digit_char (n mod 10)]"
proof (cases "n < 10")
  case True
  then show ?thesis by (simp add: setw0_def nat_to_string_small digit_char_0)
next
  case False
  have "nat_to_string n = nat_to_string (n div 10) @ [digit_char (n mod 10)]"
    using False by (subst nat_to_string.simps) simp
  moreover have "nat_to_string (n div 10) = [digit_char (n div 10)]"
    using assms by (simp add: nat_to_string_small less_mult_imp_div_less)
  ultimately show ?thesis by (simp add: setw0_def)
qed

lemma atol_two_digits:
  assumes "n < 100"
  shows "atol [digit_char (n div 10), digit_char (n mod 10)] = int n"
proof -
  have b: "n div 10 < 10" "n mod 10 < 10" using assms by auto
  have "n = 10 * (n div 10) + n mod 10" by simp
  then have "int n = 10 * int (n div 10) + int (n mod 10)" by presburger
  then show ?thesis
    using b isdigit_not_special [OF isdigit_digit_char [OF b(1)]] by (simp add: atol_def)
qed

lemma digits_no_dash: "isdigit c \<Longrightarrow> c \<noteq> CHR ''-''"
  using isdigit_not_special by blast

lemma tokenize_dashes:
  assumes "ws \<noteq> []" "\<forall>w \<in> set ws. w \<noteq> [] \<and> CHR ''-'' \<notin> set w"
  shows "tokenize_vector (Tokenizer_string ''-'' False) (join (CHR ''-'') ws) [] = ws"
  using assms split_on_join [of ws "CHR ''-''"]
  by (simp add: tokenize_vector_eq Tokenizer_string_def)

lemma Date_string_print_date:
  assumes "1000 \<le> year dt" and "year dt \<le> 9999" and "1757585 \<le> julian dt"
  shows "Date_string now (print_date dt) = Inr dt"
proof -
  obtain y m d where v: "valid_ymd y m d" "100 \<le> y" "julian dt = julian_of y m d"
      "yyyymmdd dt = ymd y m d" "year dt = y" "month dt = m" "day dt = d"
    by (rule julianE_100 [OF assms(3)])
  note b = valid_ymd_bounds [OF v(1)]
  let ?Y = "nat_to_string (nat y)"
  let ?two = "\<lambda>n. [digit_char (n div 10), digit_char (n mod 10)]"
  let ?ws = "[?Y, ?two (nat m), ?two (nat d)]"
  have print: "print_date dt = join (CHR ''-'') ?ws"
    using b v(2) ymd_parts [of m d y] setw0_two [of "nat m"] setw0_two [of "nat d"] v(4)
    by (simp add: print_date_def Let_def int_to_string_def flip: yyyymmdd_def)
  have two: "CHR ''-'' \<notin> set (?two n)" if "n < 100" for n
    using that digits_no_dash [OF isdigit_digit_char, of "n div 10"]
      digits_no_dash [OF isdigit_digit_char, of "n mod 10"] by (auto simp: less_mult_imp_div_less)
  have tok: "tokenize_vector (Tokenizer_string ''-'' False) (print_date dt) [] = ?ws"
    unfolding print
    using two [of "nat m"] two [of "nat d"] b nat_to_string_digits digits_no_dash
    by (intro tokenize_dashes) auto
  have len: "length ?Y = 4" using assms v(5) by (simp add: length_nat_to_string_4)
  have "parse now (print_date dt) = Inr (monthly_patch (ymd y m d))"
    unfolding parse_def Let_def tok
    using len b v(2) atol_two_digits [of "nat m"] atol_two_digits [of "nat d"]
    by (simp add: ymd_def)
  moreover have "monthly_patch (ymd y m d) = ymd y m d"
    using b v(2) ymd_parts [of m d y] by (simp add: monthly_patch_def)
  moreover have "0 < ymd y m d" using b v(2) by (simp add: ymd_def)
  ultimately show ?thesis
    using Date_long_yyyymmdd [OF assms(3), of now] v(4)
    by (simp add: Date_string_def Date_long_def)
qed


section \<open>Clients\<close>

lemma days_of_year: "julian_of (y + 1) 1 1 - julian_of y 1 1 = (if leap y then 366 else 365)"
  using days_before_Suc [of "y - 1"] by (simp add: julian_of_def)

lemma day_of_year_offset:
  assumes "valid_ymd y m d"
  shows "julian_of y m d - julian_of y 1 1 =
     (if m > 2 then month_offset (m - 3) + d + 58 + (if leap y then 1 else 0)
      else month_offset (m + 9) + d - 307)"
  using days_before_Suc [of "y - 1"] by (simp add: julian_of_def month_offset_def)

lemma date2Value_valid:
  assumes "valid_ymd y m d" and "100 \<le> y"
  shows "date2Value now \<lparr>julian = julian_of y m d\<rparr> =
     Inr (julian_of 2004 m d - julian_of 2004 1 1)"
proof -
  note b = valid_ymd_bounds [OF assms(1)]
  have y: "year \<lparr>julian = julian_of y m d\<rparr> = y"
    using julianToDate_julian_of [of y m d] ymd_parts [of m d y] assms b by (simp add: year_def)
  have v: "valid_ymd y 1 1" "valid_ymd y 2 28" "valid_ymd (y + 1) 1 1" "valid_ymd 2004 m d"
    using assms(1) by (auto simp: valid_ymd_def days_in_month_def leap_def split: if_splits)
  have leap2004: "leap 2004" by (simp add: leap_def)
  have feb: "julian_of y 2 28 - julian_of y 1 1 = 58"
    by (simp add: julian_of_def month_offset_def)
  have jan: "m \<le> 2 \<Longrightarrow> julian_of y m d - julian_of y 1 1 \<le> 58 \<or> leap y"
    using assms(1) b day_of_year_offset [OF assms(1)]
    by (cases "m = 1") (auto simp: valid_ymd_def days_in_month_def month_offset_def split: if_splits)
  have mar: "m > 2 \<Longrightarrow> julian_of y m d - julian_of y 1 1 > 58"
    using b day_of_year_offset [OF assms(1)] pos_imp_zdiv_nonneg_iff [of 5 "153 * m - 457"]
    by (simp add: month_offset_def)
  define j where "j = julian_of y m d - julian_of y 1 1"
  have "date2Value now \<lparr>julian = julian_of y m d\<rparr> = Inr (if \<not> leap y \<and> j > 58 then j + 1 else j)"
    using v assms(2) days_of_year [of y] feb
    by (auto simp: date2Value_def y Date_ymd_valid date_minus_def Let_def j_def)
  moreover have "(if \<not> leap y \<and> j > 58 then j + 1 else j) = julian_of 2004 m d - julian_of 2004 1 1"
    using jan mar day_of_year_offset [OF assms(1)] day_of_year_offset [OF v(4)] leap2004
    by (cases "leap y"; cases "m > 2") (simp_all flip: j_def)
  ultimately show ?thesis by simp
qed

section \<open>Properties\<close>

text \<open>
  C6. \<^verbatim>\<open>Date(long)\<close> accepts exactly the days of the Gregorian calendar: a positive value
  \<^verbatim>\<open>yyyymmdd\<close> (or \<^verbatim>\<open>yymmdd\<close>, of the twentieth century) yields a date if and only if its year, month and
  day form a valid day, every other positive value raises \<^verbatim>\<open>BadDate\<close>, and the date that results
  prints back the same value with the full year.
\<close>

theorem Date_long_accepts_gregorian_days:
  assumes "0 < v"
  shows "(case Date_long now v of
            Inr dt \<Rightarrow> valid_ymd (full_year v) (v div 100 mod 100) (v mod 100) \<and>
                      yyyymmdd dt = ymd (full_year v) (v div 100 mod 100) (v mod 100)
          | Inl e \<Rightarrow> \<not> valid_ymd (full_year v) (v div 100 mod 100) (v mod 100) \<and> e = BadDate)"
proof -
  have "1 \<le> full_year v" using assms by (simp add: full_year_def pos_imp_zdiv_nonneg_iff)
  then show ?thesis
    using Date_long_eq [OF assms, of now] by (simp add: yyyymmdd_def julianToDate_julian_of)
qed

theorem Date_long_accepts_gregorian_days_witness:
  "(0 :: int) < 20000229 \<and>
   (case Date_long \<lparr>tm_year = 126, tm_mon = 0, tm_mday = 1\<rparr> 20000229 of
      Inr dt \<Rightarrow> yyyymmdd dt = 20000229 | Inl e \<Rightarrow> False)"
  using Date_long_accepts_gregorian_days [of 20000229 "\<lparr>tm_year = 126, tm_mon = 0, tm_mday = 1\<rparr>"]
  by (simp add: full_year_def ymd_def valid_ymd_def days_in_month_def leap_def split: sum.splits)

text \<open>
  C9. \<^verbatim>\<open>Date::operator++\<close> refines the calendar: from any date of the common era, adding one to the julian
  number moves year, month and day to the next day of the Gregorian calendar, over ends of months,
  years and centuries.
\<close>

theorem date_incr_refines_next_day:
  assumes "1721426 \<le> julian dt"
  shows "(year (date_incr dt), month (date_incr dt), day (date_incr dt)) =
           next_day (year dt, month dt, day dt) \<and>
         valid_ymd (year (date_incr dt)) (month (date_incr dt)) (day (date_incr dt))"
proof -
  have "1721426 \<le> julian (date_incr dt)" using assms by (simp add: date_incr_def)
  then have "valid_ymd (year (date_incr dt)) (month (date_incr dt)) (day (date_incr dt))"
    by (elim julianE) auto
  then show ?thesis using date_incr_next_day [OF assms] by simp
qed

theorem date_incr_refines_next_day_witness:
  "1721426 \<le> julian (Date_julian 2451604) \<and>
   (year (date_incr (Date_julian 2451604)), month (date_incr (Date_julian 2451604)),
    day (date_incr (Date_julian 2451604))) = next_day (2000, 2, 29)"
proof -
  have d: "year (Date_julian 2451604) = 2000" "month (Date_julian 2451604) = 2"
      "day (Date_julian 2451604) = 29"
    by (simp_all add: year_def month_def day_def Date_julian_def julianToDate_def)
  show ?thesis
    using date_incr_refines_next_day [of "Date_julian 2451604"] unfolding d
    by (simp add: Date_julian_def)
qed

text \<open>
  Printing a date and parsing the text gives the date back, for every date with a four-digit year
  (\<^verbatim>\<open>Date::print\<close>, then \<^verbatim>\<open>Date(const std::string&)\<close>).
\<close>

theorem Date_print_parse_roundtrip:
  assumes "1000 \<le> year dt" and "year dt \<le> 9999" and "1757585 \<le> julian dt"
  shows "Date_string now (print_date dt) = Inr dt"
  using assms by (rule Date_string_print_date)

theorem Date_print_parse_roundtrip_witness:
  "year (Date_julian 2451604) = 2000 \<and>
   Date_string \<lparr>tm_year = 126, tm_mon = 0, tm_mday = 1\<rparr> (print_date (Date_julian 2451604)) =
     Inr (Date_julian 2451604)"
proof -
  have y: "year (Date_julian 2451604) = 2000"
    by (simp add: year_def Date_julian_def julianToDate_def)
  show ?thesis
    using y Date_print_parse_roundtrip [of "Date_julian 2451604"] by (simp add: Date_julian_def)
qed

text \<open>
  The order of dates is the order of their \<^verbatim>\<open>yyyymmdd\<close> values: \<^verbatim>\<open>operator<\<close>, which compares julian
  numbers, agrees with comparing the calendar values.
\<close>

theorem date_less_iff_yyyymmdd:
  assumes "1721426 \<le> julian a" and "1721426 \<le> julian b"
  shows "date_less a b \<longleftrightarrow> yyyymmdd a < yyyymmdd b"
  using assms by (rule dac.less_key)

theorem date_less_iff_yyyymmdd_witness:
  "date_less (Date_julian 2451604) (Date_julian 2451605) \<longleftrightarrow>
     yyyymmdd (Date_julian 2451604) < yyyymmdd (Date_julian 2451605)"
  using date_less_iff_yyyymmdd [of "Date_julian 2451604" "Date_julian 2451605"]
  by (simp add: Date_julian_def)

text \<open>
  \<^verbatim>\<open>operator+\<close>, which goes through the \<^verbatim>\<open>yyyymmdd\<close> value and the checking constructor, agrees with
  \<^verbatim>\<open>operator+=\<close>, which adds to the julian number, whenever the result is not before the year 100.
\<close>

theorem date_plus_eq_add_assign:
  assumes "1757585 \<le> julian dt + n"
  shows "date_plus now dt n = Inr (date_add_assign dt n)"
  using Date_long_yyyymmdd [of "date_add_assign dt n" now] assms
  by (simp add: date_plus_def date_add_assign_def yyyymmdd_def)

theorem date_plus_eq_add_assign_witness:
  "date_plus \<lparr>tm_year = 126, tm_mon = 0, tm_mday = 1\<rparr> (Date_julian 2451604) 366 =
     Inr (Date_julian 2451970)"
  using date_plus_eq_add_assign [of "Date_julian 2451604" 366]
  by (simp add: Date_julian_def date_add_assign_def)

text \<open>
  \<^verbatim>\<open>DayOfYear\<close> numbers the days of the year as in a leap year: a day of any year gets the number
  the same month and day have in 2004, so the number does not depend on the year.
\<close>

theorem day_of_year_independent_of_year:
  assumes "valid_ymd y m d" and "100 \<le> y"
  shows "date2Value now \<lparr>julian = julian_of y m d\<rparr> =
           date2Value now \<lparr>julian = julian_of 2004 m d\<rparr> \<and>
         date2Value now \<lparr>julian = julian_of y m d\<rparr> =
           Inr (julian_of 2004 m d - julian_of 2004 1 1)"
proof -
  have "valid_ymd 2004 m d"
    using assms(1) by (auto simp: valid_ymd_def days_in_month_def leap_def split: if_splits)
  then show ?thesis
    using date2Value_valid [OF assms, of now] date2Value_valid [of 2004 m d now] by simp
qed

theorem day_of_year_independent_of_year_witness:
  "valid_ymd 2001 3 1 \<and>
   date2Value \<lparr>tm_year = 126, tm_mon = 0, tm_mday = 1\<rparr> \<lparr>julian = julian_of 2001 3 1\<rparr> = Inr 60"
proof -
  have v: "valid_ymd 2001 3 1" by (simp add: valid_ymd_def days_in_month_def)
  show ?thesis
    using v day_of_year_independent_of_year [OF v, of "\<lparr>tm_year = 126, tm_mon = 0, tm_mday = 1\<rparr>"]
    by (auto simp: julian_of_def days_before_def month_offset_def)
qed

text \<open>
  C35. \<^verbatim>\<open>Month(const std::string&)\<close> accepts text it does not recognise: a text without a dash
  whose length is neither 6 nor 8 raises nothing and stands for October 1997.
\<close>

theorem Month_string_accepts_unrecognised_text:
  assumes "s \<noteq> []" and "CHR ''-'' \<notin> set s" and "length s \<noteq> 6" and "length s \<noteq> 8"
  shows "\<exists>mo. Month_string now s = Inr mo \<and> yyyymmdd (month_date mo) = 19971010"
proof -
  have "valid_ymd 1997 10 10" by (simp add: valid_ymd_def days_in_month_def)
  then have d: "Date_ymd now 1997 10 10 = Inr \<lparr>julian = julian_of 1997 10 10\<rparr>"
      and y: "yyyymmdd \<lparr>julian = julian_of 1997 10 10\<rparr> = 19971010"
    by (simp_all add: Date_ymd_valid yyyymmdd_def julianToDate_julian_of ymd_def)
  have "tokenize_vector (Tokenizer_string ''-'' False) s [] = [s]"
    using tokenize_dashes [of "[s]"] assms(1,2) by simp
  then show ?thesis using assms(3,4) y by (simp add: Month_string_def d)
qed

theorem Month_string_accepts_unrecognised_text_witness:
  "\<exists>mo. Month_string \<lparr>tm_year = 126, tm_mon = 0, tm_mday = 1\<rparr> ''later'' = Inr mo \<and>
        yyyymmdd (month_date mo) = 19971010"
  using Month_string_accepts_unrecognised_text [of "''later''"] by simp

end
