(* ===== verification/Eckit_Double.thy ===== *)
theory Eckit_Double
  imports Eckit_Strings Complex_Main "HOL-Library.Log_Nat"
begin

text \<open>
  The part of IEEE 754 double precision arithmetic that the sources use. A finite double is the
  rational number it stands for, and \<open>to_double\<close> rounds a rational to the nearest double, ties to the
  even significand: an operation of the language on doubles is the exact operation on rationals
  followed by \<open>to_double\<close>. The subnormal range is included; results whose magnitude reaches 2 to the power
  1024, which become infinite, are outside the model. \<open>lround\<close>, the conversion to \<^verbatim>\<open>long\<close> and \<^verbatim>\<open>std::stod\<close> on
  decimal text are those of the standard library.
\<close>

section \<open>Definitions\<close>

type_synonym double = rat

definition pow2 :: "int \<Rightarrow> rat" where
  "pow2 e = (if 0 \<le> e then 2 ^ nat e else 1 / 2 ^ nat (- e))"

text \<open>The exponent \<open>e\<close> of a rational: \<open>pow2 e \<le> \<bar>q\<bar> < pow2 (e + 1)\<close>, found from the lengths of the numerator and the denominator.\<close>

definition binary_exponent :: "rat \<Rightarrow> int" where
  "binary_exponent q =
     (let (n, d) = quotient_of q;
          e = int (floorlog 2 (nat \<bar>n\<bar>)) - int (floorlog 2 (nat d))
      in if \<bar>q\<bar> < pow2 e then e - 1 else e)"

definition round_half_even :: "rat \<Rightarrow> int" where
  "round_half_even x =
     (let f = \<lfloor>x\<rfloor>; r = x - of_int f
      in if r < 1 / 2 then f else if r > 1 / 2 then f + 1 else if even f then f else f + 1)"

definition to_double :: "rat \<Rightarrow> double" where
  "to_double q =
     (if q = 0 then 0
      else let u = max (binary_exponent q - 52) (- 1074)
           in of_int (round_half_even (q / pow2 u)) * pow2 u)"

text \<open>\<^verbatim>\<open>std::lround\<close> rounds half away from zero; the conversion \<^verbatim>\<open>long(x)\<close> truncates.\<close>

definition lround :: "double \<Rightarrow> int" where
  "lround x = (if x < 0 then - \<lfloor>- x + 1 / 2\<rfloor> else \<lfloor>x + 1 / 2\<rfloor>)"

definition trunc :: "double \<Rightarrow> int" where
  "trunc x = (if x < 0 then - \<lfloor>- x\<rfloor> else \<lfloor>x\<rfloor>)"

text \<open>
  \<^verbatim>\<open>std::stod\<close> on a text of decimal digits with at most one decimal point: the value is rounded to the
  nearest double. It throws when there is no digit, and on overflow.
\<close>

definition decimal_value :: "string \<Rightarrow> rat" where
  "decimal_value s =
     (let ip = takeWhile isdigit s;
          fp = takeWhile isdigit (tl (dropWhile isdigit s))
      in of_int (atol_digits 0 ip) + of_int (atol_digits 0 fp) / 10 ^ length fp)"

definition stod_decimal :: "string \<Rightarrow> double result" where
  "stod_decimal s =
     (if filter isdigit s = [] then throw InvalidArgument
      else if to_double (decimal_value s) \<ge> 2 ^ 1024 then throw StdOutOfRange
      else ok (to_double (decimal_value s)))"

section \<open>Integers are exact\<close>

lemma pow2_pos [simp]: "0 < pow2 e"
  by (simp add: pow2_def)

lemma pow2_neg_mult: "e \<le> 0 \<Longrightarrow> x / pow2 e = x * 2 ^ nat (- e)"
  by (cases "e = 0") (simp_all add: pow2_def)

lemma round_half_even_of_int [simp]: "round_half_even (of_int n) = n"
  by (simp add: round_half_even_def)

lemma floorlog_2_less: "n < 2 ^ k \<Longrightarrow> floorlog 2 n \<le> k"
  by (simp add: floorlog_leI)

lemma binary_exponent_of_int:
  assumes "\<bar>n\<bar> < 2 ^ 53"
  shows "binary_exponent (of_int n) \<le> 52"
proof -
  have "nat \<bar>n\<bar> < 2 ^ 53" using assms by (simp add: nat_less_iff)
  then have "floorlog 2 (nat \<bar>n\<bar>) \<le> 53" by (rule floorlog_2_less)
  moreover have "floorlog 2 (1 :: nat) = 1" by (simp add: floorlog_def)
  ultimately show ?thesis by (simp add: binary_exponent_def Let_def)
qed

lemma to_double_of_int [simp]:
  assumes "\<bar>n\<bar> < 2 ^ 53"
  shows "to_double (of_int n) = of_int n"
proof (cases "n = 0")
  case False
  define u where "u = max (binary_exponent (of_int n) - 52) (- 1074)"
  have "u \<le> 0" using binary_exponent_of_int [OF assms] by (simp add: u_def)
  then have "of_int n / pow2 u = of_int (n * 2 ^ nat (- u))" by (simp add: pow2_neg_mult)
  then have "round_half_even (of_int n / pow2 u) = n * 2 ^ nat (- u)" by (simp only: round_half_even_of_int)
  then have "to_double (of_int n) = of_int (n * 2 ^ nat (- u)) * pow2 u"
    using False by (simp add: to_double_def u_def Let_def)
  also have "\<dots> = of_int n * (2 ^ nat (- u) * pow2 u)" by simp
  also have "2 ^ nat (- u) * pow2 u = (1 :: rat)" using \<open>u \<le> 0\<close> by (cases "u = 0") (simp_all add: pow2_def)
  finally show ?thesis by simp
qed (simp add: to_double_def)

lemma floor_half [simp]: "\<lfloor>of_int n + 1 / 2 :: rat\<rfloor> = n"
  by (rule floor_unique) simp_all

lemma lround_of_int [simp]: "lround (of_int n) = n"
  using floor_half [of "- n"] by (auto simp: lround_def)

lemma trunc_of_int [simp]: "trunc (of_int n) = n"
  by (simp add: trunc_def)

section \<open>Rounding\<close>

lemma pow2_powi: "pow2 e = 2 powi e"
  by (simp add: pow2_def power_int_def field_simps)

lemma pow2_add: "pow2 (a + b) = pow2 a * pow2 b"
  by (simp add: pow2_powi power_int_add)

lemma pow2_nat: "pow2 (int n) = 2 ^ n"
  by (simp add: pow2_def)

lemma pow2_less_iff [simp]: "pow2 a < pow2 b \<longleftrightarrow> a < b"
proof -
  have "pow2 x < pow2 y" if "x < y" for x y
    using that by (simp add: pow2_powi power_int_strict_increasing)
  then show ?thesis by (metis linorder_neqE order_less_asym)
qed

lemma pow2_sign [simp]: "pow2 e \<noteq> 0" "0 \<le> pow2 e" "\<bar>pow2 e\<bar> = pow2 e"
  by (simp_all add: less_imp_le less_imp_neq [symmetric])

lemma floorlog_2_bounds:
  assumes "0 < n"
  shows "pow2 (int (floorlog 2 n) - 1) \<le> of_nat n" "of_nat n < pow2 (int (floorlog 2 n))"
proof -
  have b: "2 ^ (floorlog 2 n - 1) \<le> n" "n < 2 ^ floorlog 2 n" "0 < floorlog 2 n"
    using floorlog_bounds [of n 2] assms by (auto simp: floorlog_def)
  have "(of_nat (2 ^ (floorlog 2 n - 1)) :: rat) \<le> of_nat n" using b(1) by (simp only: of_nat_le_iff)
  then show "pow2 (int (floorlog 2 n) - 1) \<le> of_nat n"
    using b(3) pow2_nat [of "floorlog 2 n - 1"] by (simp add: of_nat_diff Suc_leI)
  have "(of_nat n :: rat) < of_nat (2 ^ floorlog 2 n)" using b(2) by (simp only: of_nat_less_iff)
  then show "of_nat n < pow2 (int (floorlog 2 n))" by (simp add: pow2_nat)
qed

lemma binary_exponent_bounds:
  assumes "q \<noteq> 0"
  shows "pow2 (binary_exponent q) \<le> \<bar>q\<bar> \<and> \<bar>q\<bar> < pow2 (binary_exponent q + 1)"
proof -
  obtain n d where nd: "quotient_of q = (n, d)" by (cases "quotient_of q")
  then have d: "0 < d" and q: "q = of_int n / of_int d" by (auto simp: quotient_of_denom_pos quotient_of_div)
  then have n: "n \<noteq> 0" using assms by auto
  define N D where ND: "N = nat \<bar>n\<bar>" "D = nat d"
  have p: "0 < N" "0 < D" using n d by (simp_all add: ND)
  have a: "\<bar>q\<bar> = of_nat N / of_nat D" using d by (simp add: q ND abs_divide)
  define e where "e = int (floorlog 2 N) - int (floorlog 2 D)"
  note b = floorlog_2_bounds [OF p(1)] floorlog_2_bounds [OF p(2)]
  have "\<bar>q\<bar> < pow2 (e + 1)"
  proof -
    have "of_nat N < pow2 (e + 1) * pow2 (int (floorlog 2 D) - 1)" using b(2) by (simp add: e_def flip: pow2_add)
    also have "\<dots> \<le> pow2 (e + 1) * of_nat D" using b(3) by (simp add: less_imp_le)
    finally show ?thesis using p by (simp add: a field_simps)
  qed
  moreover have "pow2 (e - 1) \<le> \<bar>q\<bar>"
  proof -
    have "pow2 (e - 1) * of_nat D \<le> pow2 (e - 1) * pow2 (int (floorlog 2 D))" using b(4) by (simp add: less_imp_le)
    also have "\<dots> \<le> of_nat N" using b(1) by (simp add: e_def flip: pow2_add)
    finally show ?thesis using p by (simp add: a field_simps)
  qed
  moreover have "binary_exponent q = (if \<bar>q\<bar> < pow2 e then e - 1 else e)"
    by (simp add: binary_exponent_def nd e_def ND)
  ultimately show ?thesis by auto
qed

lemma round_half_even_error: "\<bar>of_int (round_half_even x) - x\<bar> \<le> 1 / 2"
  unfolding round_half_even_def Let_def using floor_correct [of x] by (auto simp: abs_if; linarith)

lemma round_half_even_nonneg: "0 \<le> x \<Longrightarrow> 0 \<le> round_half_even x"
  by (auto simp: round_half_even_def Let_def)

lemma round_half_even_bound: "\<bar>x\<bar> < of_int m \<Longrightarrow> \<bar>round_half_even x\<bar> \<le> m"
  using round_half_even_error [of x] by linarith

text \<open>The numbers with a significand of 53 bits are doubles: rounding leaves them as they are.\<close>

lemma to_double_representable:
  assumes "\<bar>k\<bar> \<le> 2 ^ 53" "- 1074 \<le> u"
  shows "to_double (of_int k * pow2 u) = of_int k * pow2 u"
proof -
  have main: "to_double (of_int k * pow2 u) = of_int k * pow2 u" if k: "\<bar>k\<bar> < 2 ^ 53" "k \<noteq> 0" "- 1074 \<le> u" for k u
  proof -
    define r where "r = of_int k * pow2 u"
    have r: "r \<noteq> 0" using k(2) pow2_pos [of u] by (simp add: r_def)
    have "(of_int \<bar>k\<bar> :: rat) < of_int (2 ^ 53)" using k(1) by (simp only: of_int_less_iff)
    then have "\<bar>r\<bar> < pow2 53 * pow2 u" using pow2_nat [of 53] by (simp add: r_def abs_mult)
    then have "pow2 (binary_exponent r) < pow2 (53 + u)" using binary_exponent_bounds [OF r] by (simp add: pow2_add)
    then have e: "binary_exponent r - 52 \<le> u" by simp
    define v where "v = max (binary_exponent r - 52) (- 1074)"
    have v: "v \<le> u" using e k(3) by (simp add: v_def)
    then have "pow2 u = 2 ^ nat (u - v) * pow2 v" by (simp flip: pow2_nat pow2_add)
    then have "r / pow2 v = of_int (k * 2 ^ nat (u - v))" by (simp add: r_def)
    then have "round_half_even (r / pow2 v) = k * 2 ^ nat (u - v)" by (simp only: round_half_even_of_int)
    then have "to_double r = of_int (k * 2 ^ nat (u - v)) * pow2 v" using r by (simp add: to_double_def v_def Let_def)
    also have "\<dots> = r" using \<open>r / pow2 v = _\<close> pow2_pos [of v] by (simp add: field_simps)
    finally show ?thesis by (simp add: r_def)
  qed
  consider "k = 0" | "k \<noteq> 0" "\<bar>k\<bar> < 2 ^ 53" | "\<bar>k\<bar> = 2 ^ 53" using assms(1) by linarith
  then show ?thesis
  proof cases
    case 3
    then have "k = 2 ^ 53 \<or> k = - (2 ^ 53)" by linarith
    then have "(of_int k :: rat) = of_int (k div 2) * 2" by auto
    moreover have "pow2 1 = 2" by (simp add: pow2_def)
    ultimately have "of_int k * pow2 u = of_int (k div 2) * pow2 (u + 1)" by (simp add: pow2_add)
    moreover have "\<bar>k div 2\<bar> < 2 ^ 53" "k div 2 \<noteq> 0" using 3 by auto
    ultimately show ?thesis using main [of "k div 2" "u + 1"] assms(2) by simp
  qed (use main assms(2) in \<open>auto simp: to_double_def\<close>)
qed

lemma to_doubleE:
  obtains k u where "to_double q = of_int k * pow2 u" "\<bar>k\<bar> \<le> 2 ^ 53" "- 1074 \<le> u"
proof (cases "q = 0")
  case False
  define u where "u = max (binary_exponent q - 52) (- 1074)"
  have "pow2 (binary_exponent q + 1) \<le> pow2 (53 + u)" by (simp add: u_def flip: not_less)
  then have "\<bar>q\<bar> < pow2 53 * pow2 u" using binary_exponent_bounds [OF False] by (simp add: pow2_add)
  then have "\<bar>q / pow2 u\<bar> < of_int (2 ^ 53)" using pow2_nat [of 53] by (simp add: abs_divide field_simps)
  then have "\<bar>round_half_even (q / pow2 u)\<bar> \<le> 2 ^ 53" by (rule round_half_even_bound)
  moreover have "to_double q = of_int (round_half_even (q / pow2 u)) * pow2 u"
    using False by (simp add: to_double_def u_def Let_def)
  ultimately show thesis by (intro that [of "round_half_even (q / pow2 u)" u]) (simp_all add: u_def)
qed (use that [of 0 0] in \<open>simp add: to_double_def\<close>)

lemma to_double_idem [simp]: "to_double (to_double q) = to_double q"
  by (rule to_doubleE [of q]) (simp add: to_double_representable)

lemma to_double_abs: "to_double x = x \<Longrightarrow> to_double \<bar>x\<bar> = \<bar>x\<bar>"
proof -
  assume x: "to_double x = x"
  obtain k u where "x = of_int k * pow2 u" "\<bar>k\<bar> \<le> 2 ^ 53" "- 1074 \<le> u" using to_doubleE [of x] x by metis
  then show ?thesis using to_double_representable [of "\<bar>k\<bar>" u] by (simp add: abs_mult)
qed

lemma to_double_nonneg: "0 \<le> q \<Longrightarrow> 0 \<le> to_double q"
  using round_half_even_nonneg [OF divide_nonneg_pos, OF _ pow2_pos] by (simp add: to_double_def Let_def zero_le_mult_iff)

text \<open>Rounding moves a number by at most half of the unit of its last place.\<close>

lemma to_double_error:
  "q \<noteq> 0 \<Longrightarrow> \<bar>to_double q - q\<bar> \<le> pow2 (max (binary_exponent q - 52) (- 1074)) / 2"
proof -
  assume "q \<noteq> 0"
  define u where "u = max (binary_exponent q - 52) (- 1074)"
  have "to_double q - q = (of_int (round_half_even (q / pow2 u)) - q / pow2 u) * pow2 u"
    using \<open>q \<noteq> 0\<close> pow2_pos [of u] by (simp add: to_double_def u_def Let_def field_simps)
  then have "\<bar>to_double q - q\<bar> = \<bar>of_int (round_half_even (q / pow2 u)) - q / pow2 u\<bar> * pow2 u"
    by (simp add: abs_mult)
  also have "\<dots> \<le> 1 / 2 * pow2 u" using round_half_even_error pow2_pos [of u] by (intro mult_right_mono) simp_all
  finally show ?thesis by (simp add: u_def)
qed

text \<open>The integer part of a double that is not negative is a double.\<close>

lemma to_double_trunc:
  assumes "to_double x = x" "0 \<le> x"
  shows "to_double (of_int (trunc x)) = of_int (trunc x)"
proof (cases "x < 2 ^ 53")
  case True
  have "\<lfloor>x\<rfloor> < 2 ^ 53" using True by (simp add: floor_less_iff)
  then show ?thesis using assms(2) by (intro to_double_of_int) (simp add: trunc_def)
next
  case False
  then have nz: "x \<noteq> 0" by auto
  have "pow2 53 < pow2 (binary_exponent x + 1)"
    using binary_exponent_bounds [OF nz] False assms(2) pow2_nat [of 53] by simp
  then have "0 \<le> binary_exponent x - 52" by simp
  then obtain k where "x = of_int (k * 2 ^ nat (binary_exponent x - 52))"
    using assms(1) nz by (simp add: to_double_def Let_def pow2_def max_def) (metis of_int_mult of_int_power of_int_numeral)
  then have "of_int (trunc x) = x" by (metis trunc_of_int)
  then show ?thesis using assms(1) by simp
qed

end
