(* ===== verification/Eckit_Translator.thy ===== *)
theory Eckit_Translator
  imports Eckit_Strings "HOL-Library.List_Lexorder" "HOL-Library.Char_ord"
begin

text \<open>
  Conversions between values and text: \<^verbatim>\<open>utils/Translator.cc\<close>. The integers are kept at their width: the
  product with the unit suffix is computed in 64 unsigned bits and narrowed to the result type, as in the
  source, with \<open>take_bit\<close> and \<open>signed_take_bit\<close>. \<^verbatim>\<open>strtol\<close> and \<^verbatim>\<open>strtoul\<close> are those of the C library: they
  saturate, and return the text they did not read. The conversions from and to floating point are not
  modelled.
\<close>

section \<open>The C library\<close>

definition c_str :: "string \<Rightarrow> string" where
  "c_str s = takeWhile (\<lambda>c. c \<noteq> CHR 0x00) s"

text \<open>The sign, the digits and the rest of a number; no digits leave the whole text unread.\<close>

definition scan_number :: "string \<Rightarrow> bool \<times> string \<times> string" where
  "scan_number s =
     (let body = dropWhile isspace s;
          negative = (body \<noteq> [] \<and> hd body = CHR ''-'');
          body = (if body \<noteq> [] \<and> (hd body = CHR ''-'' \<or> hd body = CHR ''+'') then tl body else body);
          digits = takeWhile isdigit body
      in (negative, digits, if digits = [] then s else dropWhile isdigit body))"

definition strtol :: "string \<Rightarrow> int \<times> string" where
  "strtol s =
     (let (negative, digits, more) = scan_number s;
          v = (if negative then - atol_digits 0 digits else atol_digits 0 digits)
      in (max (- (2 ^ 63)) (min (2 ^ 63 - 1) v), more))"

definition strtoul :: "string \<Rightarrow> int \<times> string" where
  "strtoul s =
     (let (negative, digits, more) = scan_number s;
          v = atol_digits 0 digits
      in (if v \<ge> 2 ^ 64 then 2 ^ 64 - 1 else if negative then take_bit 64 (- v) else v, more))"

section \<open>Definitions\<close>

definition multiplier :: "string \<Rightarrow> int" where
  "multiplier p =
     (case dropWhile isspace p of
        c # c1 # r \<Rightarrow>
          (if tolower c1 = CHR ''b'' \<or> (tolower c1 = CHR ''i'' \<and> r \<noteq> [] \<and> tolower (hd r) = CHR ''b'') then
             (if tolower c = CHR ''k'' then push_bit 10 1
              else if tolower c = CHR ''m'' then push_bit 20 1
              else if tolower c = CHR ''g'' then push_bit 30 1
              else if tolower c = CHR ''t'' then push_bit 40 1
              else if tolower c = CHR ''p'' then push_bit 50 1
              else if tolower c = CHR ''e'' then push_bit 60 1
              else 1)
           else 1)
      | _ \<Rightarrow> 1)"

definition bool_to_string :: "bool \<Rightarrow> string" where
  "bool_to_string b = (if b then ''1'' else ''0'')"

definition string_to_bool :: "string \<Rightarrow> bool" where
  "string_to_bool str =
     (let s = lower str in
      if s = ''no'' \<or> s = ''off'' \<or> s = ''false'' \<or> s = ''0'' then False
      else if s = ''yes'' \<or> s = ''on'' \<or> s = ''true'' \<or> s = ''1'' then True
      else signed_take_bit 31 (fst (strtol (c_str s))) \<noteq> 0)"

definition string_to_int :: "string \<Rightarrow> int" where
  "string_to_int s =
     (if s = ''no'' \<or> s = ''off'' \<or> s = ''false'' then 0
      else if s = ''yes'' \<or> s = ''on'' \<or> s = ''true'' then 1
      else let (v, more) = strtol (c_str s);
               result = signed_take_bit 31 v
           in signed_take_bit 31 (take_bit 64 (result * multiplier more)))"

definition string_to_unsigned_int :: "string \<Rightarrow> int" where
  "string_to_unsigned_int s =
     (if s = ''no'' \<or> s = ''off'' \<or> s = ''false'' then 0
      else if s = ''yes'' \<or> s = ''on'' \<or> s = ''true'' then 1
      else let (v, more) = strtoul (c_str s);
               result = take_bit 32 v
           in take_bit 32 (take_bit 64 (result * multiplier more)))"

definition string_to_long :: "string \<Rightarrow> int" where
  "string_to_long s =
     (let (result, more) = strtol (c_str s)
      in signed_take_bit 63 (take_bit 64 (result * multiplier more)))"

definition string_to_short :: "string \<Rightarrow> int result" where
  "string_to_short s =
     (let (result, more) = strtol (c_str s);
          result = signed_take_bit 63 (take_bit 64 (result * multiplier more))
      in ASSERT (signed_take_bit 15 result = result) (ok result))"

definition string_to_unsigned_char :: "string \<Rightarrow> int result" where
  "string_to_unsigned_char s =
     (let (result, more) = strtol (c_str s);
          result = signed_take_bit 63 (take_bit 64 (result * multiplier more))
      in ASSERT (take_bit 8 result = result) (ok result))"

definition string_to_unsigned_long :: "string \<Rightarrow> int" where
  "string_to_unsigned_long s =
     (let (result, more) = strtoul (c_str s)
      in take_bit 64 (result * multiplier more))"

text \<open>Every integer type is printed in decimal; \<^verbatim>\<open>unsigned char\<close> and \<^verbatim>\<open>char\<close> print the character itself.\<close>

definition integer_to_string :: "int \<Rightarrow> string" where
  "integer_to_string value = int_to_string value"

definition unsigned_char_to_string :: "char \<Rightarrow> string" where
  "unsigned_char_to_string value = [value]"

definition string_to_strings :: "string \<Rightarrow> string list" where
  "string_to_strings s = tokenize_vector (Tokenizer_string ('', '' @ [CHR 0x09]) False) s []"

definition string_to_longs :: "string \<Rightarrow> int list" where
  "string_to_longs s =
     (let r = tokenize_vector (Tokenizer_string ('', '' @ [CHR 0x09]) False) s []
      in map string_to_long r)"

text \<open>The loops of the conversions from vectors, with the separator written before every element but the first.\<close>

fun join_from :: "nat \<Rightarrow> string \<Rightarrow> ('a \<Rightarrow> string) \<Rightarrow> 'a list \<Rightarrow> string \<Rightarrow> string" where
  "join_from i sep f [] result = result"
| "join_from i sep f (x # v) result = join_from (i + 1) sep f v (result @ (if i \<noteq> 0 then sep else []) @ f x)"

definition longs_to_string :: "int list \<Rightarrow> string" where
  "longs_to_string v = join_from 0 '' '' integer_to_string v []"

definition strings_to_string :: "string list \<Rightarrow> string" where
  "strings_to_string v = join_from 0 '','' id v []"

definition string_to_string_set :: "string \<Rightarrow> string set" where
  "string_to_string_set s = set (tokenize_vector (Tokenizer_string ('', '' @ [CHR 0x09]) False) s [])"

text \<open>A set is iterated in the order of its elements; the separator is written when the result is not empty.\<close>

fun join_set :: "string list \<Rightarrow> string \<Rightarrow> string" where
  "join_set [] result = result"
| "join_set (x # v) result = join_set v ((if result \<noteq> [] then result @ '','' else result) @ x)"

definition string_set_to_string :: "string set \<Rightarrow> string" where
  "string_set_to_string v = join_set (sorted_list_of_set v) []"

definition string_to_char :: "string \<Rightarrow> char result" where
  "string_to_char s = ASSERT (length s = 1) (ok (s ! 0))"

definition char_to_string :: "char \<Rightarrow> string" where
  "char_to_string c = [c]"

definition signed_char_to_string :: "int \<Rightarrow> string" where
  "signed_char_to_string v = integer_to_string v"

text \<open>The suffixes and the powers of two they stand for.\<close>

definition unit_suffixes :: "(string \<times> nat) list" where
  "unit_suffixes =
     [(''KB'', 10), (''MB'', 20), (''GB'', 30), (''TB'', 40), (''PB'', 50), (''EB'', 60),
      (''KiB'', 10), (''MiB'', 20), (''GiB'', 30), (''TiB'', 40), (''PiB'', 50), (''EiB'', 60)]"

section \<open>Reading what was written\<close>

lemma isdigit_takeWhile [simp]:
  "\<forall>c \<in> set ds. isdigit c \<Longrightarrow> takeWhile isdigit (ds @ r) = ds @ takeWhile isdigit r"
  "\<forall>c \<in> set ds. isdigit c \<Longrightarrow> dropWhile isdigit (ds @ r) = dropWhile isdigit r"
  by (simp_all)

lemma scan_number_digits:
  assumes "ds \<noteq> []" "\<forall>c \<in> set ds. isdigit c" "r = [] \<or> \<not> isdigit (hd r)"
  shows "scan_number (ds @ r) = (False, ds, r)" "scan_number (CHR ''-'' # ds @ r) = (True, ds, r)"
proof -
  have r: "takeWhile isdigit r = []" "dropWhile isdigit r = r" using assms(3) by (cases r; simp)+
  obtain d ds' where d: "ds = d # ds'" "isdigit d" using assms by (cases ds) auto
  show "scan_number (ds @ r) = (False, ds, r)" "scan_number (CHR ''-'' # ds @ r) = (True, ds, r)"
    using d assms r isdigit_not_special [OF d(2)] by (simp_all add: scan_number_def Let_def isspace_def)
qed

lemma strtol_int_to_string:
  assumes "- (2 ^ 63) \<le> i" "i < 2 ^ 63" "r = [] \<or> \<not> isdigit (hd r)"
  shows "strtol (int_to_string i @ r) = (i, r)"
  using assms scan_number_digits [OF nat_to_string_not_Nil _ assms(3), of "nat i"]
    scan_number_digits [OF nat_to_string_not_Nil _ assms(3), of "nat (- i)"]
  by (auto simp: strtol_def int_to_string_def nat_to_string_digits atol_digits_nat_to_string)

lemma strtoul_int_to_string:
  assumes "0 \<le> i" "i < 2 ^ 64" "r = [] \<or> \<not> isdigit (hd r)"
  shows "strtoul (int_to_string i @ r) = (i, r)"
  using assms scan_number_digits [OF nat_to_string_not_Nil _ assms(3), of "nat i"]
  by (auto simp: strtoul_def int_to_string_def nat_to_string_digits atol_digits_nat_to_string)

lemma int_to_string_chars: "c \<in> set (int_to_string i) \<Longrightarrow> isdigit c \<or> c = CHR ''-''"
  by (auto simp: int_to_string_def nat_to_string_digits split: if_splits)

lemma int_to_string_not_Nil [simp]: "int_to_string i \<noteq> []"
  by (simp add: int_to_string_def)

lemma c_str_id: "CHR 0x00 \<notin> set s \<Longrightarrow> c_str s = s"
  by (auto simp: c_str_def takeWhile_eq_all_conv)

lemma c_str_int_to_string: "CHR 0x00 \<notin> set r \<Longrightarrow> c_str (int_to_string i @ r) = int_to_string i @ r"
  by (rule c_str_id) (auto dest!: int_to_string_chars simp: isdigit_def)

lemma multiplier_Nil [simp]: "multiplier [] = 1"
  by (simp add: multiplier_def)

lemma signed_take_bit_64: "- (2 ^ 63) \<le> i \<Longrightarrow> i < 2 ^ 63 \<Longrightarrow> signed_take_bit 63 (take_bit 64 i) = i" for i :: int
  by (simp add: signed_take_bit_take_bit signed_take_bit_int_eq_self)

lemma string_to_long_int_to_string:
  "- (2 ^ 63) \<le> i \<Longrightarrow> i < 2 ^ 63 \<Longrightarrow> string_to_long (int_to_string i) = i"
  using strtol_int_to_string [of i "[]"] c_str_int_to_string [of "[]" i]
  by (simp add: string_to_long_def signed_take_bit_64)

lemma join_from_Suc: "join_from (Suc i) sep f v result = result @ concat (map (\<lambda>x. sep @ f x) v)"
  by (induction v arbitrary: i result) auto

lemma concat_join: "w @ concat (map (\<lambda>x. c # x) ws) = join c (w # ws)"
proof (induction ws arbitrary: w)
  case (Cons a ws)
  have "w @ concat (map (\<lambda>x. c # x) (a # ws)) = w @ c # (a @ concat (map (\<lambda>x. c # x) ws))" by simp
  also have "\<dots> = join c (w # a # ws)" unfolding Cons.IH by simp
  finally show ?case .
qed simp

lemma join_from_join: "join_from 0 [c] f v [] = join c (map f v)"
  using concat_join [of _ c "map f (tl v)"] by (cases v) (auto simp: join_from_Suc comp_def)

lemma split_on_join_separators:
  assumes "P c" "\<forall>w \<in> set ws. \<forall>x \<in> set w. \<not> P x" "ws \<noteq> []"
  shows "split_on P (join c ws) = ws"
  using assms
proof (induction c ws rule: join.induct)
  case (2 c w)
  then have "split_on P (w @ []) = [w]" by (subst split_on_append) auto
  then show ?case by simp
next
  case (3 c w w' ws)
  then have "split_on P (w @ c # join c (w' # ws)) = w # w' # ws" by (subst split_on_append) auto
  then show ?case by simp
qed simp

abbreviation list_separators :: "char set" where
  "list_separators \<equiv> {CHR '','', CHR '' '', CHR 0x09}"

lemma tokenize_list:
  assumes "c \<in> list_separators" "\<forall>w \<in> set ws. w \<noteq> [] \<and> set w \<inter> list_separators = {}"
  shows "tokenize_vector (Tokenizer_string ('', '' @ [CHR 0x09]) False) (join c ws) [] = ws"
proof (cases "ws = []")
  case False
  have "split_on (\<lambda>x. x \<in> list_separators) (join c ws) = ws"
    using assms False by (intro split_on_join_separators) auto
  moreover have "[x \<leftarrow> ws. x \<noteq> []] = ws" using assms by (auto simp: filter_id_conv)
  ultimately show ?thesis by (simp add: tokenize_vector_eq Tokenizer_string_def)
qed (simp add: tokenize_vector_eq Tokenizer_string_def)

lemma join_set_from:
  "\<forall>w \<in> set v. w \<noteq> [] \<Longrightarrow> result \<noteq> [] \<Longrightarrow> join_set v result = result @ concat (map (\<lambda>x. CHR '','' # x) v)"
  by (induction v arbitrary: result) auto

lemma join_set_join: "\<forall>w \<in> set v. w \<noteq> [] \<Longrightarrow> join_set v [] = join (CHR '','') v"
  using concat_join [of "hd v" "CHR '',''" "tl v"] by (cases v) (auto simp: join_set_from)

lemma int_to_string_no_separator: "set (int_to_string i) \<inter> list_separators = {}"
  by (auto dest!: int_to_string_chars simp: isdigit_def)

section \<open>Properties\<close>

lemma unit_suffixes_multiplier:
  "list_all (\<lambda>(u, k). multiplier u = 2 ^ k \<and> u \<noteq> [] \<and> \<not> isdigit (hd u) \<and> CHR 0x00 \<notin> set u) unit_suffixes"
  by code_simp

text \<open>
  What \<^verbatim>\<open>Translator\<close> writes, it reads back: a vector of \<^verbatim>\<open>long\<close>s of any sign, a vector of words, and a set of
  words, each written as one text and parsed again.
\<close>

theorem Translator_lists_roundtrip:
  assumes "\<forall>i \<in> set v. - (2 ^ 63) \<le> i \<and> i < 2 ^ 63"
    and "\<forall>w \<in> set ws. w \<noteq> [] \<and> set w \<inter> {CHR '','', CHR '' '', CHR 0x09} = {}"
  shows "string_to_longs (longs_to_string v) = v \<and>
         string_to_strings (strings_to_string ws) = ws \<and>
         string_to_string_set (string_set_to_string (set ws)) = set ws"
proof (intro conjI)
  show "string_to_longs (longs_to_string v) = v"
    using tokenize_list [of "CHR '' ''" "map int_to_string v"] int_to_string_no_separator assms(1)
    by (simp add: string_to_longs_def longs_to_string_def join_from_join integer_to_string_def [abs_def]
        map_idI string_to_long_int_to_string)
  show "string_to_strings (strings_to_string ws) = ws"
    using tokenize_list [of "CHR '',''" ws] assms(2)
    by (simp add: string_to_strings_def strings_to_string_def join_from_join)
  show "string_to_string_set (string_set_to_string (set ws)) = set ws"
    using tokenize_list [of "CHR '',''" "sorted_list_of_set (set ws)"] assms(2)
    by (simp add: string_to_string_set_def string_set_to_string_def join_set_join)
qed

theorem Translator_lists_roundtrip_witness:
  "string_to_longs (longs_to_string [-5, 2 ^ 63 - 1, 0]) = [-5, 2 ^ 63 - 1, 0] \<and>
   string_to_strings (strings_to_string [''ab'', ''c'']) = [''ab'', ''c''] \<and>
   string_to_string_set (string_set_to_string {''ab'', ''c''}) = {''ab'', ''c''}"
  using Translator_lists_roundtrip [of "[-5, 2 ^ 63 - 1, 0]" "[''ab'', ''c'']"] by simp

text \<open>
  C40. A size with a unit suffix denotes the number times the power of two of the unit, in 64 unsigned
  bits, and the narrower conversion to \<^verbatim>\<open>int\<close> keeps the low 32 bits of that product without an error, so that for
  example a size of 4GB becomes 0; the conversion to \<^verbatim>\<open>short\<close> throws \<^verbatim>\<open>AssertionFailed\<close> unless the value fits.
\<close>

theorem Translator_unit_suffix:
  assumes "(u, k) \<in> set unit_suffixes" and "0 \<le> n" and "n < 2 ^ 31"
  shows "string_to_unsigned_long (int_to_string n @ u) = n * 2 ^ k mod 2 ^ 64 \<and>
         string_to_int (int_to_string n @ u) = signed_take_bit 31 (n * 2 ^ k) \<and>
         string_to_short (int_to_string n) = (if n < 2 ^ 15 then ok n else throw AssertionFailed)"
proof (intro conjI)
  have u: "multiplier u = 2 ^ k" "u = [] \<or> \<not> isdigit (hd u)" "CHR 0x00 \<notin> set u"
    using unit_suffixes_multiplier assms(1) by (auto simp: list_all_iff)
  note r = strtol_int_to_string [OF _ _ u(2), of n] strtoul_int_to_string [OF _ _ u(2), of n] c_str_int_to_string [OF u(3), of n]
  show "string_to_unsigned_long (int_to_string n @ u) = n * 2 ^ k mod 2 ^ 64"
    using assms r u(1) by (simp add: string_to_unsigned_long_def take_bit_eq_mod)
  have "int_to_string n @ u \<notin> {''no'', ''off'', ''false'', ''yes'', ''on'', ''true''}"
    using int_to_string_chars [of "hd (int_to_string n)" n]
    by (cases "int_to_string n") (auto simp: isdigit_def)
  moreover have "signed_take_bit 31 n = n" using assms by (simp add: signed_take_bit_int_eq_self)
  ultimately show "string_to_int (int_to_string n @ u) = signed_take_bit 31 (n * 2 ^ k)"
    using assms r u(1) by (simp add: string_to_int_def signed_take_bit_take_bit)
  show "string_to_short (int_to_string n) = (if n < 2 ^ 15 then ok n else throw AssertionFailed)"
    using assms strtol_int_to_string [of n "[]"] c_str_int_to_string [of "[]" n] signed_take_bit_64 [of n]
    by (auto simp: string_to_short_def signed_take_bit_int_eq_self_iff)
qed

theorem Translator_unit_suffix_witness:
  "string_to_unsigned_long (int_to_string 4 @ ''GB'') = 4294967296 \<and>
   string_to_int (int_to_string 4 @ ''GB'') = 0 \<and>
   string_to_short (int_to_string 4) = ok 4"
  using Translator_unit_suffix [of "''GB''" 30 4] by (simp add: unit_suffixes_def signed_take_bit_int_eq_self_iff)

end
