(* ===== verification/Eckit_Time.thy ===== *)
theory Eckit_Time
  imports Eckit_Date Eckit_Double Eckit_Translator
begin

text \<open>
  Times of day, instants and hours: \<^verbatim>\<open>types/Time.cc\<close>, \<^verbatim>\<open>types/DateTime.cc\<close>, \<^verbatim>\<open>types/Hour.cc\<close> and their
  headers. The member \<^verbatim>\<open>secs\<close> of \<^verbatim>\<open>Time\<close> is a double, modelled by \<open>double\<close> with the rounding of every
  operation written out. A computation in \<^verbatim>\<open>long\<close> that leaves the 64 bit range is undefined in C++ and is
  the error \<open>OutOfBounds\<close>.

  The abstract side is the number of seconds: \<open>total_seconds\<close> of an instant, which the comparisons,
  the difference and the sum are proved to follow.
\<close>

section \<open>Time: the formats\<close>

datatype TimeFormat = INVALID | UNITS | COLON | DIGITS | DECIMAL

record tokenized_time =
  tt_type :: TimeFormat
  tt_minus :: bool
  integers :: "string list"

text \<open>The local variables of \<^verbatim>\<open>checkTimeFormat\<close>; \<open>scan_tt\<close> is the structure under construction.\<close>

record time_scan =
  hasDecimal :: bool
  hasColon :: bool
  hasUnits :: bool
  tokenId :: nat
  tokenStart :: nat
  scan_tt :: tokenized_time

text \<open>
  The cases of the switch. \<open>None\<close> is the early return with type \<^verbatim>\<open>INVALID\<close>. The cases of the four units
  differ in the index of the token only.
\<close>

definition scan_unit :: "nat \<Rightarrow> string \<Rightarrow> nat \<Rightarrow> time_scan \<Rightarrow> time_scan option" where
  "scan_unit k time i st =
     (if hasColon st \<or> hasDecimal st \<or> tokenId st > k then None
      else Some (st\<lparr>hasUnits := True,
                    scan_tt := (scan_tt st)\<lparr>tt_type := UNITS,
                      integers := (integers (scan_tt st))[k := substr time (tokenStart st) (i - tokenStart st)]\<rparr>,
                    tokenId := k + 1,
                    tokenStart := i + 1\<rparr>))"

definition scan_point :: "string \<Rightarrow> nat \<Rightarrow> time_scan \<Rightarrow> time_scan option" where
  "scan_point time i st =
     (if hasDecimal st \<or> hasColon st \<or> hasUnits st \<or> i = length time - 1 then None
      else Some (st\<lparr>hasDecimal := True\<rparr>))"

definition scan_colon :: "string \<Rightarrow> nat \<Rightarrow> time_scan \<Rightarrow> time_scan option" where
  "scan_colon time i st =
     (let st = (if \<not> hasColon st
                then st\<lparr>scan_tt := (scan_tt st)\<lparr>tt_type := COLON\<rparr>, hasColon := True, tokenId := 1\<rparr>
                else st)
      in if tokenId st > 2 \<or> i \<le> tokenStart st then None
         else Some (st\<lparr>scan_tt := (scan_tt st)\<lparr>
                         integers := (integers (scan_tt st))[tokenId st := substr time (tokenStart st) (i - tokenStart st)]\<rparr>,
                       tokenId := tokenId st + 1,
                       tokenStart := i + 1\<rparr>))"

definition scan_char :: "string \<Rightarrow> nat \<Rightarrow> char \<Rightarrow> time_scan \<Rightarrow> time_scan option" where
  "scan_char time i ch st =
     (let c = tolower ch in
      if c = CHR ''d'' then scan_unit 0 time i st
      else if c = CHR ''h'' then scan_unit 1 time i st
      else if c = CHR ''m'' then scan_unit 2 time i st
      else if c = CHR ''s'' then scan_unit 3 time i st
      else if c = CHR ''.'' then scan_point time i st
      else if c = CHR '':'' then scan_colon time i st
      else if \<not> isdigit ch then None
      else Some st)"

text \<open>The loop: \<open>rest\<close> is the text from position \<open>i\<close> on.\<close>

fun scan_time :: "string \<Rightarrow> nat \<Rightarrow> string \<Rightarrow> time_scan \<Rightarrow> time_scan option" where
  "scan_time time i [] st = Some st"
| "scan_time time i (c # rest) st =
     (case scan_char time i c st of None \<Rightarrow> None | Some st' \<Rightarrow> scan_time time (i + 1) rest st')"

definition scan_end :: "string \<Rightarrow> time_scan \<Rightarrow> tokenized_time" where
  "scan_end time st =
     (let tt = scan_tt st in
      if hasColon st then
        (if tokenStart st < length time
         then tt\<lparr>integers := (integers tt)[tokenId st := substr time (tokenStart st) (length time - tokenStart st)]\<rparr>
         else tt)
      else if \<not> hasUnits st then
        tt\<lparr>integers := (integers tt)[1 := drop (tokenStart st) time],
           tt_type := (if hasDecimal st then DECIMAL else DIGITS)\<rparr>
      else tt)"

text \<open>The text is indexed at 0 before anything else, which is undefined on an empty \<^verbatim>\<open>string_view\<close>.\<close>

definition checkTimeFormat :: "string \<Rightarrow> tokenized_time result" where
  "checkTimeFormat time =
     (if time = [] then throw OutOfBounds
      else
        let minus = (time ! 0 = CHR ''-'');
            start = (if minus then 1 else 0);
            tt = \<lparr>tt_type = INVALID, tt_minus = minus, integers = [[], [], [], []]\<rparr>;
            st = \<lparr>hasDecimal = False, hasColon = False, hasUnits = False, tokenId = 0, tokenStart = start, scan_tt = tt\<rparr>
        in (case scan_time time start (drop start time) st of
              None \<Rightarrow> ok tt
            | Some st' \<Rightarrow> ok (scan_end time st')))"

definition s2l :: "string \<Rightarrow> int result" where
  "s2l str = (if str = [] then ok 0 else stol str)"

definition s2d :: "string \<Rightarrow> double result" where
  "s2d str = (if str = [] then ok 0 else stod_decimal str)"

section \<open>Time: constructors\<close>

record time_of_day =
  secs :: double

definition Time_Second :: "double \<Rightarrow> bool \<Rightarrow> time_of_day result" where
  "Time_Second s extended = (if (s \<ge> 86400 \<and> \<not> extended) \<or> s < 0 then throw BadTime else ok \<lparr>secs = s\<rparr>)"


definition Time_hms :: "int \<Rightarrow> int \<Rightarrow> int \<Rightarrow> bool \<Rightarrow> time_of_day result" where
  "Time_hms hh mm ss extended =
     rbind (long_range (hh * 3600 + mm * 60 + ss)) (\<lambda>t.
       if mm \<ge> 60 \<or> ss \<ge> 60 \<or> (\<not> extended \<and> (hh \<ge> 24 \<or> hh < 0 \<or> mm < 0 \<or> ss < 0)) then throw BadTime
       else ok \<lparr>secs = to_double (of_int t)\<rparr>)"

text \<open>The four branches of the switch of \<^verbatim>\<open>Time(const std::string&, bool)\<close>, each giving days, hours, minutes and seconds.\<close>

definition time_digits :: "string \<Rightarrow> bool \<Rightarrow> tokenized_time \<Rightarrow> (int \<times> int \<times> int \<times> int) result" where
  "time_digits s extended tt =
     rbind (s2l (integers tt ! 1)) (\<lambda>v.
       let t = (if tt_minus tt then -1 else 1) * v;
           sgn = (if tt_minus tt then 1 else 0)
       in if extended \<or> length s \<le> 2 + sgn then ok (0, t, 0, 0)
          else if length s \<le> 4 + sgn then ok (0, t sdiv 100, t smod 100, 0)
          else ok (0, t sdiv 10000, (t sdiv 100) smod 100, t smod 100))"

definition time_decimal :: "tokenized_time \<Rightarrow> (int \<times> int \<times> int \<times> int) result" where
  "time_decimal tt =
     rbind (s2d (integers tt ! 1)) (\<lambda>v.
       rbind (long_range (lround (to_double ((if tt_minus tt then -1 else 1) * v * 3600)))) (\<lambda>sec.
         let hh = sec sdiv 3600;
             sec = sec - hh * 3600;
             mm = sec sdiv 60;
             sec = sec - mm * 60
         in ok (0, hh, mm, sec)))"

definition time_colon :: "tokenized_time \<Rightarrow> (int \<times> int \<times> int \<times> int) result" where
  "time_colon tt =
     rbind (s2l (integers tt ! 1)) (\<lambda>hh.
     rbind (s2l (integers tt ! 2)) (\<lambda>mm.
     rbind (s2l (integers tt ! 3)) (\<lambda>ss. ok (0, hh, mm, ss))))"

definition time_units :: "tokenized_time \<Rightarrow> (int \<times> int \<times> int \<times> int) result" where
  "time_units tt =
     rbind (s2l (integers tt ! 0)) (\<lambda>dd.
     rbind (s2l (integers tt ! 1)) (\<lambda>hh.
     rbind (s2l (integers tt ! 2)) (\<lambda>mm.
     rbind (s2l (integers tt ! 3)) (\<lambda>ss.
     rbind (long_range (ss + 60 * (mm + 60 * (hh + 24 * dd)))) (\<lambda>ss.
       let ss = (if tt_minus tt then - ss else ss)
       in ok (ss sdiv 86400, (ss sdiv 3600) smod 24, (ss sdiv 60) smod 60, ss smod 60))))))"

definition Time_string :: "string \<Rightarrow> bool \<Rightarrow> time_of_day result" where
  "Time_string s extended =
     rbind (checkTimeFormat s) (\<lambda>tt.
     rbind (case tt_type tt of
              DIGITS \<Rightarrow> time_digits s extended tt
            | DECIMAL \<Rightarrow> time_decimal tt
            | COLON \<Rightarrow> time_colon tt
            | UNITS \<Rightarrow> time_units tt
            | INVALID \<Rightarrow> throw BadTime) (\<lambda>(dd, hh, mm, ss).
       if mm \<ge> 60 \<or> ss \<ge> 60 \<or> (\<not> extended \<and> (hh \<ge> 24 \<or> dd > 0 \<or> hh < 0 \<or> mm < 0 \<or> ss < 0)) then throw BadTime
       else rbind (long_range (dd * 86400 + hh * 3600 + mm * 60 + ss)) (\<lambda>t. ok \<lparr>secs = to_double (of_int t)\<rparr>)))"

section \<open>Time: accessors, operators and text\<close>

definition hours :: "time_of_day \<Rightarrow> int" where
  "hours t = (let l = lround (secs t) in l sdiv 3600)"

definition minutes :: "time_of_day \<Rightarrow> int" where
  "minutes t = (let l = lround (secs t) in (l smod 3600) sdiv 60)"

definition seconds :: "time_of_day \<Rightarrow> int" where
  "seconds t = (let l = lround (secs t) in l smod 60)"

definition hhmmss :: "time_of_day \<Rightarrow> int" where
  "hhmmss t = hours t * 10000 + minutes t * 100 + seconds t"

definition time_eq :: "time_of_day \<Rightarrow> time_of_day \<Rightarrow> bool" where
  "time_eq a b \<longleftrightarrow> secs a = secs b"

definition time_neq :: "time_of_day \<Rightarrow> time_of_day \<Rightarrow> bool" where
  "time_neq a b \<longleftrightarrow> secs a \<noteq> secs b"

definition time_less :: "time_of_day \<Rightarrow> time_of_day \<Rightarrow> bool" where
  "time_less a b \<longleftrightarrow> secs a < secs b"

definition time_greater :: "time_of_day \<Rightarrow> time_of_day \<Rightarrow> bool" where
  "time_greater a b \<longleftrightarrow> secs a > secs b"

definition time_minus :: "time_of_day \<Rightarrow> time_of_day \<Rightarrow> double" where
  "time_minus a b = to_double (secs a - secs b)"

definition time_add_assign :: "time_of_day \<Rightarrow> double \<Rightarrow> time_of_day" where
  "time_add_assign t sec = t\<lparr>secs := to_double (secs t + sec)\<rparr>"

definition time_sub_assign :: "time_of_day \<Rightarrow> double \<Rightarrow> time_of_day" where
  "time_sub_assign t sec = t\<lparr>secs := to_double (secs t - sec)\<rparr>"

definition printTime :: "int \<Rightarrow> string" where
  "printTime n = (if n < 10 then ''0'' else []) @ int_to_string n"

definition print_time :: "time_of_day \<Rightarrow> string" where
  "print_time t = printTime (hours t) @ '':'' @ printTime (minutes t) @ '':'' @ printTime (seconds t)"

section \<open>DateTime\<close>

record date_time =
  dt_date :: date
  dt_time :: time_of_day

definition DateTime_date_time :: "date \<Rightarrow> time_of_day \<Rightarrow> date_time" where
  "DateTime_date_time d t = \<lparr>dt_date = d, dt_time = t\<rparr>"

definition DateTime_double :: "double \<Rightarrow> date_time result" where
  "DateTime_double jul =
     rbind (Time_Second
              (to_double (to_double (to_double (to_double (jul - of_int (trunc jul)) * 24) * 60) * 60)) False)
       (\<lambda>t. ok \<lparr>dt_date = Date_julian (trunc jul), dt_time = t\<rparr>)"

definition DateTime_string :: "tm \<Rightarrow> string \<Rightarrow> date_time result" where
  "DateTime_string now s =
     (let result = tokenize_vector (Tokenizer_string '' '' False) s [] in
      ASSERT (length result = 2)
        (rbind (Date_string now (result ! 0)) (\<lambda>d.
         rbind (Time_string (result ! 1) False) (\<lambda>t. ok \<lparr>dt_date = d, dt_time = t\<rparr>))))"

text \<open>\<^verbatim>\<open>DateTime(time_t)\<close> and \<^verbatim>\<open>Time::now\<close> on the fields that \<^verbatim>\<open>gmtime_r\<close> fills.\<close>

record tm_clock = tm +
  tm_hour :: int
  tm_min :: int
  tm_sec :: int

definition DateTime_time_t :: "tm \<Rightarrow> tm_clock \<Rightarrow> date_time result" where
  "DateTime_time_t now t =
     (let td = (1900 + tm_year t) * 10000 + (tm_mon t + 1) * 100 + tm_mday t in
      rbind (Date_long now td) (\<lambda>d.
      rbind (Time_hms (tm_hour t) (tm_min t) (tm_sec t) False) (\<lambda>tim. ok \<lparr>dt_date = d, dt_time = tim\<rparr>)))"

definition Time_now :: "tm_clock \<Rightarrow> time_of_day result" where
  "Time_now pt = Time_hms (tm_hour pt) (tm_min pt) (tm_sec pt) False"

definition datetime_less :: "date_time \<Rightarrow> date_time \<Rightarrow> bool" where
  "datetime_less a b \<longleftrightarrow>
     (if dt_date a = dt_date b then time_less (dt_time a) (dt_time b) else date_less (dt_date a) (dt_date b))"

definition datetime_greater :: "date_time \<Rightarrow> date_time \<Rightarrow> bool" where
  "datetime_greater a b \<longleftrightarrow>
     (if dt_date a = dt_date b then time_greater (dt_time a) (dt_time b) else date_less (dt_date b) (dt_date a))"

definition datetime_eq :: "date_time \<Rightarrow> date_time \<Rightarrow> bool" where
  "datetime_eq a b \<longleftrightarrow> dt_date a = dt_date b \<and> time_eq (dt_time a) (dt_time b)"

definition datetime_neq :: "date_time \<Rightarrow> date_time \<Rightarrow> bool" where
  "datetime_neq a b \<longleftrightarrow> dt_date a \<noteq> dt_date b \<or> time_neq (dt_time a) (dt_time b)"

definition datetime_ge :: "date_time \<Rightarrow> date_time \<Rightarrow> bool" where
  "datetime_ge a b \<longleftrightarrow> \<not> datetime_less a b"

definition datetime_le :: "date_time \<Rightarrow> date_time \<Rightarrow> bool" where
  "datetime_le a b \<longleftrightarrow> \<not> datetime_greater a b"

definition datetime_minus :: "date_time \<Rightarrow> date_time \<Rightarrow> double" where
  "datetime_minus a b =
     (let d = to_double (of_int (date_minus (dt_date a) (dt_date b) * 86400));
          t = time_minus (dt_time a) (dt_time b)
      in to_double (d + t))"

text \<open>The final \<^verbatim>\<open>DateTime(d, Second(t))\<close> converts \<open>t\<close> with the checking constructor \<^verbatim>\<open>Time(Second)\<close>.\<close>

definition datetime_plus :: "date_time \<Rightarrow> double \<Rightarrow> date_time result" where
  "datetime_plus this s =
     (let d = dt_date this;
          t = secs (dt_time this);
          days = lround s sdiv 86400;
          d = date_add_assign d days;
          t = to_double (t + to_double (s - to_double (of_int (days * 86400))));
          (d, t) = (if t \<ge> 86400 then (date_add_assign d 1, to_double (t - 86400)) else (d, t))
      in rbind (Time_Second t False) (\<lambda>tim. ok \<lparr>dt_date = d, dt_time = tim\<rparr>))"

text \<open>A division by \<^verbatim>\<open>long(rnd)\<close> equal to 0 is undefined.\<close>

definition datetime_round :: "date_time \<Rightarrow> double \<Rightarrow> date_time result" where
  "datetime_round this rnd =
     (let s = trunc (to_double (to_double (to_double (to_double (of_int (julian (dt_date this))) * 24) * 3600)
                                + secs (dt_time this)))
      in if trunc rnd = 0 then throw OutOfBounds
         else
           let s = trunc (to_double (to_double (of_int (s sdiv trunc rnd)) * rnd));
               d = s sdiv 86400;
               t = to_double (of_int (s smod 86400))
           in rbind (Time_Second t False) (\<lambda>tim. ok \<lparr>dt_date = Date_julian d, dt_time = tim\<rparr>))"

definition print_datetime :: "date_time \<Rightarrow> string" where
  "print_datetime dt = print_date (dt_date dt) @ '' '' @ print_time (dt_time dt)"

definition iso :: "date_time \<Rightarrow> bool \<Rightarrow> string" where
  "iso dt UTC = print_date (dt_date dt) @ ''T'' @ print_time (dt_time dt) @ (if UTC then ''Z'' else [])"

text \<open>The part of \<^verbatim>\<open>DateTime::format\<close> before the locale's \<^verbatim>\<open>time_put\<close> takes over: the \<^verbatim>\<open>struct tm\<close> it fills.\<close>

record tm_week = tm_clock +
  tm_wday :: int

definition format_tm :: "date_time \<Rightarrow> tm_week" where
  "format_tm this =
     (let mm = month (dt_date this);
          yy = year (dt_date this);
          (mm, yy) = (if mm < 3 then (mm + 12, yy - 1) else (mm, yy))
      in \<lparr>tm_year = year (dt_date this) - 1900, tm_mon = month (dt_date this) - 1, tm_mday = day (dt_date this),
          tm_hour = hours (dt_time this), tm_min = minutes (dt_time this), tm_sec = seconds (dt_time this),
          tm_wday = (day (dt_date this) + (13 * mm - 27) sdiv 5 + yy + yy sdiv 4 - yy sdiv 100 + yy sdiv 400) smod 7\<rparr>)"

section \<open>Hour\<close>

record hour =
  hour_secs :: int

definition Hour_double :: "double \<Rightarrow> hour result" where
  "Hour_double h =
     (if h < 0 then throw BadValue
      else rbind (long_range (trunc (to_double (to_double (h * 3600) + 1 / 2)))) (\<lambda>s. ok \<lparr>hour_secs = s\<rparr>))"

text \<open>
  \<^verbatim>\<open>Hour(const std::string&)\<close>: the fields are read with \<^verbatim>\<open>Translator<std::string, long>\<close> and added through doubles.
  The first field is read also when there is none.
\<close>

definition add_seconds :: "int \<Rightarrow> double \<Rightarrow> int" where
  "add_seconds n x = trunc (to_double (to_double (of_int n) + x))"

definition Hour_string :: "string \<Rightarrow> hour result" where
  "Hour_string s =
     (let result = tokenize_vector (Tokenizer_string '':'' False) s [];
          error = (length result > 3);
          n = 0;
          (error, n) =
            (if length result > 2 then
               let x = to_double (of_int (string_to_long (result ! 2)))
               in (error \<or> x < 0 \<or> x \<ge> 60, add_seconds n x)
             else (error, n));
          (error, n) =
            (if length result > 1 then
               let x = to_double (of_int (string_to_long (result ! 1)))
               in (error \<or> x < 0 \<or> x \<ge> 60, add_seconds n (to_double (x * 60)))
             else (error, n))
      in if result = [] then throw OutOfBounds
         else
           let x = to_double (of_int (string_to_long (result ! 0)));
               error = (error \<or> x < 0);
               n = add_seconds n (to_double (x * 3600))
           in if error then throw BadValue else ok \<lparr>hour_secs = n\<rparr>)"

definition print_hour :: "hour \<Rightarrow> string" where
  "print_hour h =
     (let seconds = hour_secs h smod 60;
          minutes = (hour_secs h sdiv 60) smod 60;
          hours = hour_secs h sdiv 3600
      in if seconds \<noteq> 0 then
           int_to_string hours @ '':'' @ setw0 2 (int_to_string minutes) @ '':'' @ setw0 2 (int_to_string seconds)
         else if minutes \<noteq> 0 then int_to_string hours @ '':'' @ setw0 2 (int_to_string minutes)
         else int_to_string hours)"

section \<open>Abstract side\<close>

text \<open>Seconds since the julian epoch, and times of day that are a whole number of seconds within the day.\<close>

definition total_seconds :: "date_time \<Rightarrow> int" where
  "total_seconds dt = julian (dt_date dt) * 86400 + lround (secs (dt_time dt))"

definition whole_time :: "time_of_day \<Rightarrow> bool" where
  "whole_time t \<longleftrightarrow> 0 \<le> secs t \<and> secs t < 86400 \<and> secs t = of_int (lround (secs t))"


section \<open>Scanning\<close>

lemma scan_char_digit: "isdigit c \<Longrightarrow> scan_char time i c st = Some st"
proof -
  assume d: "isdigit c"
  then have "tolower c = c" by (simp add: tolower_def isdigit_def Let_def)
  moreover have "c \<notin> {CHR ''d'', CHR ''h'', CHR ''m'', CHR ''s'', CHR ''.'', CHR '':''}"
    using d by (auto simp: isdigit_def)
  ultimately show ?thesis using d by (simp add: scan_char_def)
qed

lemma scan_time_digits:
  "\<forall>c \<in> set ds. isdigit c \<Longrightarrow> scan_time time i (ds @ rest) st = scan_time time (i + length ds) rest st"
  by (induction ds arbitrary: i) (simp_all add: scan_char_digit)

lemma scan_time_colon:
  "scan_time time i (CHR '':'' # rest) st =
     (case scan_colon time i st of None \<Rightarrow> None | Some st' \<Rightarrow> scan_time time (i + 1) rest st')"
  by (simp add: scan_char_def tolower_def)

lemma substr_middle: "length a = i \<Longrightarrow> length b = n \<Longrightarrow> substr (a @ b @ c) i n = b"
  by (auto simp: substr_def)

lemma checkTimeFormat_colons:
  assumes "H \<noteq> []" "M \<noteq> []" "S \<noteq> []" "\<forall>c \<in> set (H @ M @ S). isdigit c"
  shows "checkTimeFormat (H @ CHR '':'' # M @ CHR '':'' # S) =
           ok \<lparr>tt_type = COLON, tt_minus = False, integers = [[], H, M, S]\<rparr>"
proof -
  define time where "time = H @ CHR '':'' # M @ CHR '':'' # S"
  have d: "\<forall>c \<in> set H. isdigit c" "\<forall>c \<in> set M. isdigit c" "\<forall>c \<in> set S. isdigit c" using assms(4) by auto
  have sub: "substr time 0 (length H) = H" "substr time (Suc (length H)) (length M) = M"
    "substr time (Suc (Suc (length H + length M))) (length S) = S"
    using substr_middle [of "[]" 0 H "length H"] substr_middle [of "H @ '':''" "Suc (length H)" M "length M"]
      substr_middle [of "H @ '':'' @ M @ '':''" "Suc (Suc (length H + length M))" S "length S" "[]"]
    by (simp_all add: time_def)
  have "time \<noteq> []" "time ! 0 \<noteq> CHR ''-''"
    using assms by (cases H; auto simp: time_def isdigit_def)+
  moreover have "length time = length H + length M + length S + 2" by (simp add: time_def)
  moreover have "scan_time x i S st = Some st" for x i st using scan_time_digits [OF d(3), of x i "[]"] by simp
  moreover have "scan_time time 0 time st = scan_time time (length H) (CHR '':'' # M @ CHR '':'' # S) st" for st
    using scan_time_digits [OF d(1), of time 0] by (simp add: time_def)
  ultimately show ?thesis
    unfolding time_def [symmetric]
    using assms sub d scan_time_digits [OF d(2)]
    by (simp add: checkTimeFormat_def scan_time_colon scan_colon_def scan_end_def Let_def del: scan_time.simps(2))
qed


lemma atol_digits_nonneg: "0 \<le> acc \<Longrightarrow> 0 \<le> atol_digits acc ds"
  by (induction ds arbitrary: acc) (auto simp: isdigit_def digit_value_def)

lemma stol_digits:
  assumes "ds \<noteq> []" "\<forall>c \<in> set ds. isdigit c" "atol_digits 0 ds < 2 ^ 63"
  shows "s2l ds = ok (atol_digits 0 ds)"
proof -
  obtain d ds' where d: "ds = d # ds'" "isdigit d" using assms by (cases ds) auto
  then have "atol ds = atol_digits 0 ds" using isdigit_not_special [OF d(2)] by (simp add: atol_def)
  then show ?thesis
    using d isdigit_not_special [OF d(2)] assms(3) atol_digits_nonneg [of 0 ds] by (simp add: s2l_def stol_def)
qed

lemma printTime_digits:
  assumes "0 \<le> n"
  shows "printTime n \<noteq> []" "\<forall>c \<in> set (printTime n). isdigit c" "atol_digits 0 (printTime n) = n"
proof -
  have "isdigit (CHR ''0'')" "digit_value (CHR ''0'') = 0" by code_simp+
  then show "printTime n \<noteq> []" "\<forall>c \<in> set (printTime n). isdigit c" "atol_digits 0 (printTime n) = n"
    using assms by (auto simp: printTime_def int_to_string_def nat_to_string_digits atol_digits_nat_to_string)
qed

lemma s2l_printTime: "0 \<le> n \<Longrightarrow> n < 2 ^ 63 \<Longrightarrow> s2l (printTime n) = ok n"
  using stol_digits [OF printTime_digits(1,2), of n] printTime_digits(3) [of n] by simp

section \<open>Whole seconds\<close>

lemma hms_parts:
  assumes "secs t = of_int n" "0 \<le> n"
  shows "hours t = n div 3600" "minutes t = n mod 3600 div 60" "seconds t = n mod 60"
  using assms by (simp_all add: hours_def minutes_def seconds_def)

lemma hms_sum: "n div 3600 * 3600 + n mod 3600 div 60 * 60 + n mod 60 = n" for n :: int
proof -
  have "n mod 3600 mod 60 = n mod 60" by (simp add: mod_mod_cancel)
  then show ?thesis using div_mult_mod_eq [of n 3600] div_mult_mod_eq [of "n mod 3600" 60] by linarith
qed

lemma Time_string_colons:
  assumes "0 \<le> h" "h < 2 ^ 51" "0 \<le> m" "m < 60" "0 \<le> s" "s < 60" "extended \<or> h < 24"
  shows "Time_string (printTime h @ CHR '':'' # printTime m @ CHR '':'' # printTime s) extended =
           ok \<lparr>secs = to_double (of_int (h * 3600 + m * 60 + s))\<rparr>"
proof -
  have "checkTimeFormat (printTime h @ CHR '':'' # printTime m @ CHR '':'' # printTime s) =
      ok \<lparr>tt_type = COLON, tt_minus = False, integers = [[], printTime h, printTime m, printTime s]\<rparr>"
    using printTime_digits(1,2) [OF assms(1)] printTime_digits(1,2) [OF assms(3)] printTime_digits(1,2) [OF assms(5)]
    by (intro checkTimeFormat_colons) auto
  moreover have "long_range (h * 3600 + m * 60 + s) = ok (h * 3600 + m * 60 + s)"
    using assms by (simp add: long_range_def)
  ultimately show ?thesis
    using assms by (auto simp: Time_string_def time_colon_def s2l_printTime)
qed

lemma Time_string_print_time:
  assumes "secs t = of_int n" "0 \<le> n" "n < 2 ^ 53" "extended \<or> n < 86400"
  shows "Time_string (print_time t) extended = ok t"
proof -
  have "n div 3600 < 2 ^ 51" using assms(2,3) by (simp add: div_less_iff_less_mult)
  moreover have "extended \<or> n div 3600 < 24" using assms(4) by auto
  ultimately have "Time_string (print_time t) extended = ok \<lparr>secs = to_double (of_int n)\<rparr>"
    using assms(2) Time_string_colons [of "n div 3600" "n mod 3600 div 60" "n mod 60" extended] unfolding hms_sum
    by (simp add: print_time_def hms_parts [OF assms(1,2)] pos_imp_zdiv_nonneg_iff)
  then show ?thesis using assms by simp
qed

lemma whole_timeE:
  assumes "whole_time t"
  obtains n where "secs t = of_int n" "lround (secs t) = n" "0 \<le> n" "n < 86400" "\<bar>n\<bar> < 2 ^ 53"
proof
  show "secs t = of_int (lround (secs t))" using assms by (simp add: whole_time_def)
  then have "0 \<le> (of_int (lround (secs t)) :: rat)" "(of_int (lround (secs t)) :: rat) < of_int 86400"
    using assms by (simp_all add: whole_time_def)
  then show "0 \<le> lround (secs t)" "lround (secs t) < 86400" "\<bar>lround (secs t)\<bar> < 2 ^ 53"
    by (simp_all only: of_int_0_le_iff of_int_less_iff) simp
qed (rule refl)

lemma whole_timeI: "0 \<le> n \<Longrightarrow> n < 86400 \<Longrightarrow> whole_time \<lparr>secs = of_int n\<rparr>"
  using of_int_less_iff [of n 86400, where 'a = rat] by (simp add: whole_time_def)

lemma Time_Second_of_int:
  "Time_Second (of_int n) extended =
     (if (n \<ge> 86400 \<and> \<not> extended) \<or> n < 0 then throw BadTime else ok \<lparr>secs = of_int n\<rparr>)"
  using of_int_le_iff [of 86400 n, where 'a = rat] by (simp add: Time_Second_def)


lemma sdiv_nonpos:
  fixes a b :: int
  assumes "0 < b" "a \<le> 0"
  shows "a sdiv b = - ((- a) div b)" "a smod b = - ((- a) mod b)"
proof -
  show d: "a sdiv b = - ((- a) div b)" using assms by (cases "a = 0") (simp_all add: signed_divide_int_def)
  show "a smod b = - ((- a) mod b)"
    using assms by (cases "a = 0") (simp_all add: signed_modulo_int_def)
qed

lemma sdiv_smod_decomp:
  fixes a b :: int
  assumes "0 < b"
  shows "a sdiv b * b + a smod b = a" "\<bar>a smod b\<bar> < b"
proof -
  show "a sdiv b * b + a smod b = a"
  proof (cases "0 \<le> a")
    case False
    then have "a sdiv b * b = - ((- a) div b * b)" "a smod b = - ((- a) mod b)" using assms by (simp_all add: sdiv_nonpos)
    then show ?thesis using div_mult_mod_eq [of "- a" b] by linarith
  qed (use assms in simp)
  show "\<bar>a smod b\<bar> < b" using assms by (cases "0 \<le> a") (simp_all add: sdiv_nonpos)
qed





section \<open>Instants\<close>

lemma datetime_plus_whole:
  assumes "whole_time (dt_time dt)" "\<bar>n\<bar> < 2 ^ 52"
  defines "r \<equiv> lround (secs (dt_time dt)) + n smod 86400"
  shows "datetime_plus dt (of_int n) =
    (if r < 0 then throw BadTime
     else if r < 86400 then
       ok \<lparr>dt_date = date_add_assign (dt_date dt) (n sdiv 86400), dt_time = \<lparr>secs = of_int r\<rparr>\<rparr>
     else
       ok \<lparr>dt_date = date_add_assign (date_add_assign (dt_date dt) (n sdiv 86400)) 1,
           dt_time = \<lparr>secs = of_int (r - 86400)\<rparr>\<rparr>)"
proof -
  obtain k where k: "secs (dt_time dt) = of_int k" "lround (secs (dt_time dt)) = k" "0 \<le> k" "k < 86400"
    using whole_timeE [OF assms(1)] by metis
  define q m where qm: "q = n sdiv 86400" "m = n smod 86400"
  have n: "n = q * 86400 + m" "\<bar>m\<bar> < 86400" using sdiv_smod_decomp [of 86400 n] by (simp_all add: qm)
  have r: "r = k + m" by (simp add: r_def k qm)
  have b: "\<bar>q * 86400\<bar> < 2 ^ 53" "\<bar>m\<bar> < 2 ^ 53" "\<bar>k + m\<bar> < 2 ^ 53" "\<bar>k + m - 86400\<bar> < 2 ^ 53"
    using n k(3,4) assms(2) by simp_all
  note d = b [THEN to_double_of_int]
  have s: "of_int n - of_int (q * 86400) = (of_int m :: rat)" "of_int k + of_int m = (of_int (k + m) :: rat)"
    "of_int (k + m) - 86400 = (of_int (k + m - 86400) :: rat)" using n(1) by simp_all
  have c: "(of_int (k + m) :: rat) \<ge> 86400 \<longleftrightarrow> k + m \<ge> 86400"
    using of_int_le_iff [of 86400 "k + m", where 'a = rat] by simp
  show ?thesis
    unfolding datetime_plus_def Let_def lround_of_int k(1) qm(1) [symmetric] d(1) s(1) d(2) s(2) d(3) c s(3) d(4) r
    using n(2) k(4) by (auto simp: Time_Second_of_int simp del: of_int_add of_int_diff)
qed

lemma datetime_plus_total:
  assumes "whole_time (dt_time dt)" "\<bar>n\<bar> < 2 ^ 52"
  shows "if lround (secs (dt_time dt)) + n smod 86400 < 0 then datetime_plus dt (of_int n) = throw BadTime
         else \<exists>dt'. datetime_plus dt (of_int n) = ok dt' \<and> whole_time (dt_time dt') \<and>
                total_seconds dt' = total_seconds dt + n"
proof -
  define k q m where kqm: "k = lround (secs (dt_time dt))" "q = n sdiv 86400" "m = n smod 86400"
  note eq = datetime_plus_whole [OF assms, folded kqm]
  have n: "n = q * 86400 + m" "\<bar>m\<bar> < 86400" using sdiv_smod_decomp [of 86400 n] by (simp_all add: kqm)
  have k: "0 \<le> k" "k < 86400" using whole_timeE [OF assms(1)] unfolding kqm by metis+
  consider "k + m < 0" | "0 \<le> k + m" "k + m < 86400" | "86400 \<le> k + m" "k + m - 86400 < 86400" using n k by linarith
  then have "if k + m < 0 then datetime_plus dt (of_int n) = throw BadTime
             else \<exists>dt'. datetime_plus dt (of_int n) = ok dt' \<and> whole_time (dt_time dt') \<and>
                total_seconds dt' = julian (dt_date dt) * 86400 + k + n"
  proof cases
    case 2
    then show ?thesis
      using eq whole_timeI [OF 2] n(1) by (simp add: total_seconds_def date_add_assign_def algebra_simps del: of_int_add)
  next
    case 3
    then show ?thesis
      using eq whole_timeI [of "k + m - 86400"] n(1)
      by (simp add: total_seconds_def date_add_assign_def algebra_simps del: of_int_add of_int_diff)
  qed (use eq in simp)
  then show ?thesis by (simp only: total_seconds_def kqm)
qed

lemma total_less_iff:
  fixes j j' k k' :: int
  assumes "0 \<le> k" "k < 86400" "0 \<le> k'" "k' < 86400"
  shows "j * 86400 + k < j' * 86400 + k' \<longleftrightarrow> (if j = j' then k < k' else j < j')"
    "j * 86400 + k = j' * 86400 + k' \<longleftrightarrow> j = j' \<and> k = k'"
proof -
  consider "j = j'" | "j + 1 \<le> j'" | "j' + 1 \<le> j" by linarith
  then show "j * 86400 + k < j' * 86400 + k' \<longleftrightarrow> (if j = j' then k < k' else j < j')"
    "j * 86400 + k = j' * 86400 + k' \<longleftrightarrow> j = j' \<and> k = k'"
    using assms by (cases; simp; linarith)+
qed

lemma datetime_compare:
  assumes "whole_time (dt_time a)" "whole_time (dt_time b)"
  shows "datetime_less a b \<longleftrightarrow> total_seconds a < total_seconds b"
    "datetime_eq a b \<longleftrightarrow> total_seconds a = total_seconds b"
    "datetime_greater a b \<longleftrightarrow> total_seconds b < total_seconds a"
    "datetime_neq a b \<longleftrightarrow> total_seconds a \<noteq> total_seconds b"
proof -
  obtain m where m: "secs (dt_time a) = of_int m" "lround (secs (dt_time a)) = m" "0 \<le> m" "m < 86400"
    using whole_timeE [OF assms(1)] by metis
  obtain n where n: "secs (dt_time b) = of_int n" "lround (secs (dt_time b)) = n" "0 \<le> n" "n < 86400"
    using whole_timeE [OF assms(2)] by metis
  have j: "dt_date a = dt_date b \<longleftrightarrow> julian (dt_date a) = julian (dt_date b)"
    by (cases "dt_date a"; cases "dt_date b") simp
  show "datetime_less a b \<longleftrightarrow> total_seconds a < total_seconds b"
    "datetime_greater a b \<longleftrightarrow> total_seconds b < total_seconds a"
    "datetime_eq a b \<longleftrightarrow> total_seconds a = total_seconds b"
    "datetime_neq a b \<longleftrightarrow> total_seconds a \<noteq> total_seconds b"
    unfolding total_seconds_def m(2) n(2) total_less_iff [OF m(3,4) n(3,4)] total_less_iff [OF n(3,4) m(3,4)]
    by (auto simp: datetime_less_def datetime_greater_def datetime_eq_def datetime_neq_def time_less_def
        time_greater_def time_eq_def time_neq_def date_less_def m(1) n(1) j)
qed

interpretation dto: keyed_order "\<lambda>dt. whole_time (dt_time dt)" total_seconds datetime_less datetime_eq
  by unfold_locales (simp_all add: datetime_compare)

interpretation tmo: keyed_order "\<lambda>_. True" secs time_less time_eq
  by unfold_locales (simp_all add: time_less_def time_eq_def)

lemma datetime_minus_total:
  assumes "whole_time (dt_time a)" "whole_time (dt_time b)"
    "\<bar>julian (dt_date a)\<bar> < 10 ^ 10" "\<bar>julian (dt_date b)\<bar> < 10 ^ 10"
  shows "datetime_minus a b = of_int (total_seconds a - total_seconds b)"
proof -
  obtain m where m: "secs (dt_time a) = of_int m" "lround (secs (dt_time a)) = m" "0 \<le> m" "m < 86400"
    using whole_timeE [OF assms(1)] by metis
  obtain n where n: "secs (dt_time b) = of_int n" "lround (secs (dt_time b)) = n" "0 \<le> n" "n < 86400"
    using whole_timeE [OF assms(2)] by metis
  define j where "j = julian (dt_date a) - julian (dt_date b)"
  have b: "\<bar>j * 86400\<bar> < 2 ^ 53" "\<bar>m - n\<bar> < 2 ^ 53" "\<bar>j * 86400 + (m - n)\<bar> < 2 ^ 53"
    using assms(3,4) m(3,4) n(3,4) by (simp_all add: j_def)
  have "datetime_minus a b = to_double (to_double (of_int (j * 86400)) + to_double (of_int (m - n)))"
    by (simp add: datetime_minus_def time_minus_def date_minus_def j_def m(1) n(1) Let_def)
  also have "\<dots> = to_double (of_int (j * 86400 + (m - n)))"
    by (simp only: b [THEN to_double_of_int] of_int_add)
  also have "\<dots> = of_int (j * 86400 + (m - n))" by (rule b(3) [THEN to_double_of_int])
  also have "j * 86400 + (m - n) = total_seconds a - total_seconds b"
    by (simp add: total_seconds_def m(2) n(2) j_def)
  finally show ?thesis .
qed

lemma datetime_round_total:
  assumes "whole_time (dt_time dt)" "0 \<le> julian (dt_date dt)" "julian (dt_date dt) < 10 ^ 10" "0 < n" "n < 2 ^ 53"
  shows "\<exists>dt'. datetime_round dt (of_int n) = ok dt' \<and> whole_time (dt_time dt') \<and>
           total_seconds dt' = total_seconds dt div n * n"
proof -
  obtain m where m: "secs (dt_time dt) = of_int m" "lround (secs (dt_time dt)) = m" "0 \<le> m" "m < 86400"
    using whole_timeE [OF assms(1)] by metis
  define j where "j = julian (dt_date dt)"
  define T where "T = j * 86400 + m"
  have j: "0 \<le> j" "j < 10 ^ 10" using assms by (simp_all add: j_def)
  have T: "0 \<le> T" "T < 2 ^ 53 - 1" "total_seconds dt = T" using j m by (simp_all add: T_def total_seconds_def j_def)
  have b: "\<bar>j\<bar> < 2 ^ 53" "\<bar>j * 24\<bar> < 2 ^ 53" "\<bar>j * 24 * 3600\<bar> < 2 ^ 53" "\<bar>j * 24 * 3600 + m\<bar> < 2 ^ 53"
    using j m(3,4) by simp_all
  have q: "0 \<le> T div n" "0 \<le> T div n * n" "T div n * n \<le> T" "T div n \<le> T div n * n"
  proof -
    show "0 \<le> T div n" using T(1) assms(4) by (simp add: pos_imp_zdiv_nonneg_iff)
    then show "0 \<le> T div n * n" "T div n \<le> T div n * n"
      using assms(4) mult_left_mono [of 1 n "T div n"] by simp_all
    show "T div n * n \<le> T" using div_mult_mod_eq [of T n] pos_mod_sign [OF assms(4), of T] by linarith
  qed
  have c: "\<bar>T div n\<bar> < 2 ^ 53" "\<bar>T div n * n\<bar> < 2 ^ 53" using q T(2) by linarith+
  define R where "R = T div n * n"
  have s: "to_double (to_double (to_double (to_double (of_int j) * 24) * 3600) + secs (dt_time dt)) = of_int T"
    using b [THEN to_double_of_int] by (simp add: m(1) T_def mult.assoc)
  have t: "to_double (to_double (of_int (T div n)) * of_int n) = of_int R"
    using c [THEN to_double_of_int] by (simp add: R_def)
  have w: "whole_time \<lparr>secs = of_int (R mod 86400)\<rparr>" by (rule whole_timeI) simp_all
  have u: "to_double (of_int (R mod 86400)) = of_int (R mod 86400)"
    by (rule to_double_of_int, rule order_less_trans [of _ 86400]) simp_all
  have v: "T sdiv n = T div n" "R sdiv 86400 = R div 86400" "R smod 86400 = R mod 86400" "n \<noteq> 0"
    using T(1) assms(4) q(2) by (simp_all add: R_def)
  have "datetime_round dt (of_int n) =
      ok \<lparr>dt_date = Date_julian (R div 86400), dt_time = \<lparr>secs = of_int (R mod 86400)\<rparr>\<rparr>"
    unfolding datetime_round_def Let_def j_def [symmetric] s trunc_of_int v(1-3) t u
    using v(4) pos_mod_sign [of 86400 R] by (simp add: Time_Second_of_int not_less)
  then show ?thesis using w T(3) R_def by (simp add: total_seconds_def Date_julian_def)
qed

section \<open>Text of instants and hours\<close>

lemma print_time_chars: "whole_time t \<Longrightarrow> c \<in> set (print_time t) \<Longrightarrow> isdigit c \<or> c = CHR '':''"
  by (erule whole_timeE)
    (auto simp: print_time_def hms_parts dest!: printTime_digits(2) [THEN bspec, rotated])

lemma print_date_chars: "c \<in> set (print_date d) \<Longrightarrow> isdigit c \<or> c = CHR ''-''"
  by (auto simp: print_date_def Let_def setw0_def isdigit_def dest!: int_to_string_chars split: if_splits)

lemma print_nonempty: "print_date d \<noteq> []" "print_time t \<noteq> []"
  by (simp_all add: print_date_def print_time_def Let_def)

lemma DateTime_string_print:
  assumes "whole_time (dt_time dt)" "1000 \<le> year (dt_date dt)" "year (dt_date dt) \<le> 9999" "1757585 \<le> julian (dt_date dt)"
  shows "DateTime_string now (print_datetime dt) = ok dt"
proof -
  have "CHR '' '' \<notin> set (print_date (dt_date dt))" "CHR '' '' \<notin> set (print_time (dt_time dt))"
    using print_date_chars [of "CHR '' ''"] print_time_chars [OF assms(1), of "CHR '' ''"] by (auto simp: isdigit_def)
  then have "tokenize_vector (Tokenizer_string '' '' False) (print_datetime dt) [] =
      [print_date (dt_date dt), print_time (dt_time dt)]"
    using split_on_join [of "[print_date (dt_date dt), print_time (dt_time dt)]" "CHR '' ''"] print_nonempty
    by (simp add: tokenize_vector_eq Tokenizer_string_def print_datetime_def)
  moreover have "Time_string (print_time (dt_time dt)) False = ok (dt_time dt)"
    using assms(1) by (rule whole_timeE) (rule Time_string_print_time; simp)
  ultimately show ?thesis
    using Date_string_print_date [OF assms(2-4), of now] by (simp add: DateTime_string_def)
qed

lemma add_seconds_of_int:
  assumes "0 \<le> n" "0 \<le> m" "n + m < 2 ^ 53"
  shows "add_seconds n (of_int m) = n + m"
proof -
  have b: "\<bar>n\<bar> < 2 ^ 53" "\<bar>n + m\<bar> < 2 ^ 53" using assms by simp_all
  show ?thesis using b [THEN to_double_of_int] by (simp add: add_seconds_def flip: of_int_add)
qed

lemma string_to_long_digits:
  assumes "ds \<noteq> []" "\<forall>c \<in> set ds. isdigit c" "atol_digits 0 ds < 2 ^ 63"
  shows "string_to_long ds = atol_digits 0 ds"
proof -
  have "c_str ds = ds" using assms(2) by (intro c_str_id) (auto simp: isdigit_def)
  then show ?thesis
    using scan_number_digits(1) [OF assms(1,2), of "[]"] assms(3) atol_digits_nonneg [of 0 ds] signed_take_bit_64 [of "atol_digits 0 ds"]
    by (simp add: string_to_long_def strtol_def)
qed

lemma two_digits:
  assumes "0 \<le> n" "n < 60"
  shows "string_to_long (setw0 2 (int_to_string n)) = n" "setw0 2 (int_to_string n) \<noteq> []"
    "CHR '':'' \<notin> set (setw0 2 (int_to_string n))"
proof -
  define k where "k = nat n"
  have k: "k < 100" "n = int k" using assms by (simp_all add: k_def)
  have w: "setw0 2 (int_to_string n) = [digit_char (k div 10), digit_char (k mod 10)]"
    using setw0_two [OF k(1)] k(2) by (simp add: int_to_string_def)
  have d: "\<forall>c \<in> set (setw0 2 (int_to_string n)). isdigit c" using k(1) by (auto simp: w)
  have "int k = 10 * int (k div 10) + int (k mod 10)" by presburger
  then have "atol_digits 0 [digit_char (k div 10), digit_char (k mod 10)] = int k" using k(1) by simp
  then have "atol_digits 0 (setw0 2 (int_to_string n)) = n" unfolding w by (simp only: k(2))
  then show "string_to_long (setw0 2 (int_to_string n)) = n"
    using string_to_long_digits [OF _ d] assms w by simp
  show "setw0 2 (int_to_string n) \<noteq> []" by (simp add: w)
  show "CHR '':'' \<notin> set (setw0 2 (int_to_string n))" using d by (auto simp: isdigit_def)
qed

lemma tokenize_colons:
  assumes "ws \<noteq> []" "\<forall>w \<in> set ws. w \<noteq> [] \<and> CHR '':'' \<notin> set w"
  shows "tokenize_vector (Tokenizer_string '':'' False) (join (CHR '':'') ws) [] = ws"
  using assms split_on_join [of ws "CHR '':''"] by (simp add: tokenize_vector_eq Tokenizer_string_def)

lemma Hour_string_fields:
  assumes "0 \<le> h" "0 \<le> m" "m < 60" "0 \<le> s" "s < 60" "h * 3600 + m * 60 + s < 2 ^ 53"
    and result: "tokenize_vector (Tokenizer_string '':'' False) str [] = ws"
    and ws: "ws = [int_to_string h] \<and> m = 0 \<and> s = 0 \<or> ws = [int_to_string h, setw0 2 (int_to_string m)] \<and> s = 0 \<or>
             ws = [int_to_string h, setw0 2 (int_to_string m), setw0 2 (int_to_string s)]"
  shows "Hour_string str = ok \<lparr>hour_secs = h * 3600 + m * 60 + s\<rparr>"
proof -
  have b: "\<bar>h\<bar> < 2 ^ 53" "\<bar>m\<bar> < 2 ^ 53" "\<bar>s\<bar> < 2 ^ 53" "\<bar>h * 3600\<bar> < 2 ^ 53" "\<bar>m * 60\<bar> < 2 ^ 53"
    using assms(1-6) by simp_all
  note d = b [THEN to_double_of_int, simplified]
  have l: "string_to_long (int_to_string h) = h" using assms(1) b(1) by (intro string_to_long_int_to_string) simp_all
  note a = add_seconds_of_int [of 0 s] add_seconds_of_int [of s "m * 60"] add_seconds_of_int [of 0 "m * 60"]
    add_seconds_of_int [of "s + m * 60" "h * 3600"] add_seconds_of_int [of "m * 60" "h * 3600"] add_seconds_of_int [of 0 "h * 3600"]
  have c: "\<not> (of_int s :: rat) \<ge> 60" "\<not> (of_int m :: rat) \<ge> 60"
    using of_int_le_iff [of 60 s, where 'a = rat] of_int_le_iff [of 60 m, where 'a = rat] assms(3,5) by simp_all
  show ?thesis
    using ws
  proof (elim disjE conjE)
    assume "ws = [int_to_string h]" "m = 0" "s = 0"
    then show ?thesis using assms(1,6) a(6) d result by (simp add: Hour_string_def l)
  next
    assume "ws = [int_to_string h, setw0 2 (int_to_string m)]" "s = 0"
    then show ?thesis using assms(1-6) a(3,5) d c result by (simp add: Hour_string_def l two_digits)
  next
    assume "ws = [int_to_string h, setw0 2 (int_to_string m), setw0 2 (int_to_string s)]"
    then show ?thesis using assms(1-6) a(1,2,4) d c result by (simp add: Hour_string_def l two_digits)
  qed
qed

lemma Hour_string_print_hour:
  assumes "0 \<le> hour_secs x" "hour_secs x < 2 ^ 53"
  shows "Hour_string (print_hour x) = ok x"
proof -
  define n h m s where nhms: "n = hour_secs x" "h = n div 3600" "m = n div 60 mod 60" "s = n mod 60"
  have n: "0 \<le> n" "n < 2 ^ 53" using assms by (simp_all add: nhms(1))
  have b: "0 \<le> h" "0 \<le> m" "m < 60" "0 \<le> s" "s < 60" using n by (simp_all add: nhms(2-4) pos_imp_zdiv_nonneg_iff)
  have "n div 60 div 60 = h" by (simp add: nhms(2) flip: div_mult2_eq)
  then have sum: "h * 3600 + m * 60 + s = n"
    using div_mult_mod_eq [of n 60] div_mult_mod_eq [of "n div 60" 60] unfolding nhms(3,4) by linarith
  define ws where "ws = (if s \<noteq> 0 then [int_to_string h, setw0 2 (int_to_string m), setw0 2 (int_to_string s)]
     else if m \<noteq> 0 then [int_to_string h, setw0 2 (int_to_string m)] else [int_to_string h])"
  have "print_hour x = join (CHR '':'') ws"
    using n b(1) by (simp add: print_hour_def nhms(1) [symmetric] nhms(2-4) ws_def pos_imp_zdiv_nonneg_iff)
  moreover have "CHR '':'' \<notin> set (int_to_string h)" using int_to_string_chars [of "CHR '':''" h] by (auto simp: isdigit_def)
  then have "\<forall>w \<in> set ws. w \<noteq> [] \<and> CHR '':'' \<notin> set w" "ws \<noteq> []"
    using two_digits [of m] two_digits [of s] b by (auto simp: ws_def)
  then have "tokenize_vector (Tokenizer_string '':'' False) (join (CHR '':'') ws) [] = ws" by (intro tokenize_colons)
  ultimately have "Hour_string (print_hour x) = ok \<lparr>hour_secs = h * 3600 + m * 60 + s\<rparr>"
    using Hour_string_fields [OF b, of "print_hour x" ws] sum n(2) by (auto simp: ws_def split: if_splits)
  then show ?thesis using sum by (simp add: nhms(1))
qed

section \<open>The day of the week\<close>

lemma days_before_weeks:
  "days_before y = y + y div 4 - y div 100 + y div 400 + 7 * (5200 * (y div 100) + 52 * (y mod 100))"
proof -
  define c r where cr: "c = y div 100" "r = y mod 100"
  have y: "y = r + 100 * c" by (simp add: cr)
  have p: "y div 4 = r div 4 + 25 * c" unfolding y using div_mult_self2 [of 4 r "25 * c"] by simp
  have q: "y div 400 = c div 4" by (simp add: cr flip: div_mult2_eq)
  have e: "days_before y = 36524 * c + c div 4 + 365 * r + r div 4" by (simp add: days_before_def cr)
  show ?thesis unfolding cr [symmetric] p q e using y by simp
qed

lemma month_offset_weeks: "month_offset (mm - 3) + 2 = (13 * mm - 27) div 5 + 28 * (mm - 3)"
proof -
  have "153 * (mm - 3) + 2 = (13 * mm - 37) + (28 * (mm - 3)) * 5" by simp
  then have "month_offset (mm - 3) = (13 * mm - 37) div 5 + 28 * (mm - 3)"
    unfolding month_offset_def by simp
  moreover have "(13 * mm - 27) div 5 = (13 * mm - 37 + 2 * 5) div 5" by simp
  then have "(13 * mm - 27) div 5 = (13 * mm - 37) div 5 + 2" by simp
  ultimately show ?thesis by linarith
qed

lemma format_tm_weekday:
  assumes "1721426 \<le> julian (dt_date dt)"
  shows "tm_wday (format_tm dt) = (julian (dt_date dt) + 1) mod 7"
proof -
  obtain y m d where v: "valid_ymd y m d" "1 \<le> y" "julian (dt_date dt) = julian_of y m d"
      "year (dt_date dt) = y" "month (dt_date dt) = m" "day (dt_date dt) = d"
    using julianE [OF assms] by metis
  note b = valid_ymd_bounds [OF v(1)]
  define mm yy where mmyy: "mm = (if m < 3 then m + 12 else m)" "yy = (if m < 3 then y - 1 else y)"
  have pair: "(if m < 3 then (m + 12, y - 1) else (m, y)) = (mm, yy)" by (simp add: mmyy)
  have n: "3 \<le> mm" "0 \<le> yy" using b v(2) by (auto simp: mmyy)
  have j: "julian (dt_date dt) = days_before yy + month_offset (mm - 3) + d + 1721119"
    using v(3) by (auto simp: julian_of_def mmyy add.commute)
  define w where "w = d + (13 * mm - 27) div 5 + yy + yy div 4 - yy div 100 + yy div 400"
  have "julian (dt_date dt) + 1 = w + 7 * (5200 * (yy div 100) + 52 * (yy mod 100) + 4 * (mm - 3) + 245874)"
    using month_offset_weeks [of mm] unfolding j days_before_weeks [of yy] w_def by (simp add: algebra_simps)
  then have "(julian (dt_date dt) + 1) mod 7 = w mod 7" by (simp only: mod_mult_self2)
  moreover have "yy div 100 \<le> yy div 4" using n(2) by (intro zdiv_mono2) simp_all
  then have "0 \<le> w" using n b pos_imp_zdiv_nonneg_iff [of 5 "13 * mm - 27"] pos_imp_zdiv_nonneg_iff [of 400 yy]
    unfolding w_def by linarith
  moreover have "tm_wday (format_tm dt) = w smod 7"
    unfolding format_tm_def Let_def v(4-6) pair using n by (simp add: w_def)
  ultimately show ?thesis by simp
qed


section \<open>Properties\<close>

text \<open>
  C30. Printing a time and parsing the text gives the time back, for every whole number of seconds within
  the day, and beyond it for an extended time (\<^verbatim>\<open>Time::print\<close>, then \<^verbatim>\<open>Time(const std::string&, bool)\<close>).
\<close>

theorem Time_print_parse_roundtrip:
  assumes "0 \<le> n" and "n < 2 ^ 53" and "extended \<or> n < 86400"
  shows "Time_string (print_time \<lparr>secs = of_int n\<rparr>) extended = ok \<lparr>secs = of_int n\<rparr>"
  using assms Time_string_print_time [of "\<lparr>secs = of_int n\<rparr>" n extended] by simp

theorem Time_print_parse_roundtrip_witness:
  "Time_string (print_time \<lparr>secs = of_int 45296\<rparr>) False = ok \<lparr>secs = of_int 45296\<rparr> \<and>
   Time_string (print_time \<lparr>secs = of_int 360000\<rparr>) True = ok \<lparr>secs = of_int 360000\<rparr>"
  using Time_print_parse_roundtrip [of 45296 False] Time_print_parse_roundtrip [of 360000 True] by simp



text \<open>
  C12. \<^verbatim>\<open>DateTime::operator+\<close> on a whole number of seconds: the result is the instant that many seconds later, and
  its time is again within the day. Adding a negative amount does not borrow a day: when the time of day
  would become negative, the sum throws \<^verbatim>\<open>BadTime\<close>. It never does so for a positive amount.
\<close>

theorem DateTime_plus_seconds:
  assumes "whole_time (dt_time dt)" and "\<bar>n\<bar> < 2 ^ 52"
  shows "if lround (secs (dt_time dt)) + n smod 86400 < 0
         then n < 0 \<and> datetime_plus dt (of_int n) = throw BadTime
         else \<exists>dt'. datetime_plus dt (of_int n) = ok dt' \<and> whole_time (dt_time dt') \<and>
                total_seconds dt' = total_seconds dt + n"
proof -
  have "n < 0" if "lround (secs (dt_time dt)) + n smod 86400 < 0"
  proof (rule ccontr)
    assume "\<not> n < 0"
    moreover have "0 \<le> lround (secs (dt_time dt))" using assms(1) by (auto elim: whole_timeE)
    moreover have "0 \<le> n mod 86400" by simp
    ultimately show False using that by simp
  qed
  then show ?thesis using datetime_plus_total [OF assms] by (simp split: if_splits)
qed

theorem DateTime_plus_seconds_witness:
  "(\<exists>dt'. datetime_plus \<lparr>dt_date = Date_julian 2451545, dt_time = \<lparr>secs = of_int 86399\<rparr>\<rparr> (of_int 2) = ok dt' \<and>
      whole_time (dt_time dt') \<and> total_seconds dt' = 2451546 * 86400 + 1) \<and>
   datetime_plus \<lparr>dt_date = Date_julian 2451545, dt_time = \<lparr>secs = of_int 0\<rparr>\<rparr> (of_int (- 1)) = throw BadTime"
proof -
  have w: "whole_time \<lparr>secs = of_int 86399\<rparr>" "whole_time \<lparr>secs = of_int 0\<rparr>" by (rule whole_timeI; simp)+
  have "lround (of_int 0) + (- 1) smod 86400 = (- 1 :: int)" by (simp only: lround_of_int) code_simp
  then have "datetime_plus \<lparr>dt_date = Date_julian 2451545, dt_time = \<lparr>secs = of_int 0\<rparr>\<rparr> (of_int (- 1)) = throw BadTime"
    using DateTime_plus_seconds [of "\<lparr>dt_date = Date_julian 2451545, dt_time = \<lparr>secs = of_int 0\<rparr>\<rparr>" "- 1"] w(2)
    by (simp del: of_int_0 of_int_minus)
  moreover have "lround (of_int 86399) + 2 smod 86400 = (86401 :: int)" by (simp only: lround_of_int) code_simp
  then have "\<exists>dt'. datetime_plus \<lparr>dt_date = Date_julian 2451545, dt_time = \<lparr>secs = of_int 86399\<rparr>\<rparr> (of_int 2) = ok dt' \<and>
      whole_time (dt_time dt') \<and> total_seconds dt' = 2451546 * 86400 + 1"
    using DateTime_plus_seconds [of "\<lparr>dt_date = Date_julian 2451545, dt_time = \<lparr>secs = of_int 86399\<rparr>\<rparr>" 2] w(1)
    by (simp add: total_seconds_def Date_julian_def del: of_int_numeral)
  ultimately show ?thesis by simp
qed

text \<open>
  C31. The comparisons of instants are those of their numbers of seconds: \<^verbatim>\<open><\<close>, \<^verbatim>\<open>==\<close>, \<^verbatim>\<open>>\<close>, \<^verbatim>\<open><=\<close>, \<^verbatim>\<open>>=\<close> and \<^verbatim>\<open>!=\<close>, which compare
  dates first and times second; and the difference of two instants is the number of seconds between them.
\<close>

theorem DateTime_order_and_difference:
  assumes "whole_time (dt_time a)" and "whole_time (dt_time b)"
    and "\<bar>julian (dt_date a)\<bar> < 10 ^ 10" and "\<bar>julian (dt_date b)\<bar> < 10 ^ 10"
  shows "(datetime_less a b \<longleftrightarrow> total_seconds a < total_seconds b) \<and>
         (datetime_eq a b \<longleftrightarrow> total_seconds a = total_seconds b) \<and>
         (datetime_greater a b \<longleftrightarrow> total_seconds a > total_seconds b) \<and>
         (datetime_le a b \<longleftrightarrow> total_seconds a \<le> total_seconds b) \<and>
         (datetime_ge a b \<longleftrightarrow> total_seconds a \<ge> total_seconds b) \<and>
         (datetime_neq a b \<longleftrightarrow> total_seconds a \<noteq> total_seconds b) \<and>
         datetime_minus a b = of_int (total_seconds a - total_seconds b)"
  using dto.less_key [OF assms(1,2)] dto.eq_key [OF assms(1,2)] dto.not_less_key [OF assms(1,2)]
    datetime_compare(3,4) [OF assms(1,2)] datetime_minus_total [OF assms]
  by (auto simp: datetime_le_def datetime_ge_def)

theorem DateTime_order_and_difference_witness:
  "datetime_less \<lparr>dt_date = Date_julian 5, dt_time = \<lparr>secs = of_int 86399\<rparr>\<rparr> \<lparr>dt_date = Date_julian 6, dt_time = \<lparr>secs = of_int 1\<rparr>\<rparr> \<and>
   datetime_minus \<lparr>dt_date = Date_julian 5, dt_time = \<lparr>secs = of_int 86399\<rparr>\<rparr> \<lparr>dt_date = Date_julian 6, dt_time = \<lparr>secs = of_int 1\<rparr>\<rparr> =
     of_int (- 2)"
proof -
  have "whole_time \<lparr>secs = of_int 86399\<rparr>" "whole_time \<lparr>secs = of_int 1\<rparr>" by (rule whole_timeI; simp)+
  then show ?thesis
    using DateTime_order_and_difference [of "\<lparr>dt_date = Date_julian 5, dt_time = \<lparr>secs = of_int 86399\<rparr>\<rparr>"
        "\<lparr>dt_date = Date_julian 6, dt_time = \<lparr>secs = of_int 1\<rparr>\<rparr>"]
    by (simp add: total_seconds_def Date_julian_def lround_of_int del: of_int_numeral of_int_1)
qed

text \<open>
  C39. Printing an instant and parsing the text gives the instant back, for four-digit years (\<^verbatim>\<open>DateTime::print\<close>,
  then \<^verbatim>\<open>DateTime(const std::string&)\<close>); the same holds for an hour of any number of whole seconds (\<^verbatim>\<open>Hour::print\<close>,
  then \<^verbatim>\<open>Hour(const std::string&)\<close>).
\<close>

theorem DateTime_Hour_roundtrip:
  assumes "whole_time (dt_time dt)" and "1000 \<le> year (dt_date dt)" and "year (dt_date dt) \<le> 9999"
    and "1757585 \<le> julian (dt_date dt)" and "0 \<le> hour_secs h" and "hour_secs h < 2 ^ 53"
  shows "DateTime_string now (print_datetime dt) = ok dt \<and> Hour_string (print_hour h) = ok h"
  using DateTime_string_print [OF assms(1-4)] Hour_string_print_hour [OF assms(5,6)] by simp

theorem DateTime_Hour_roundtrip_witness:
  "year (Date_julian 2451604) = 2000 \<and>
   DateTime_string \<lparr>tm_year = 126, tm_mon = 0, tm_mday = 1\<rparr>
     (print_datetime \<lparr>dt_date = Date_julian 2451604, dt_time = \<lparr>secs = of_int 86399\<rparr>\<rparr>) =
     ok \<lparr>dt_date = Date_julian 2451604, dt_time = \<lparr>secs = of_int 86399\<rparr>\<rparr> \<and>
   Hour_string (print_hour \<lparr>hour_secs = 5430\<rparr>) = ok \<lparr>hour_secs = 5430\<rparr>"
proof -
  have y: "year (Date_julian 2451604) = 2000"
    by (simp add: year_def Date_julian_def julianToDate_def)
  have "whole_time \<lparr>secs = of_int 86399\<rparr>" by (rule whole_timeI; simp)
  then show ?thesis
    using y DateTime_Hour_roundtrip [of "\<lparr>dt_date = Date_julian 2451604, dt_time = \<lparr>secs = of_int 86399\<rparr>\<rparr>" "\<lparr>hour_secs = 5430\<rparr>"]
    by (simp add: Date_julian_def del: of_int_numeral)
qed

text \<open>
  \<^verbatim>\<open>DateTime::round\<close> rounds an instant down to a multiple of the given number of seconds, and the weekday that
  \<^verbatim>\<open>DateTime::format\<close> computes from year, month and day is that of the julian day number.
\<close>

theorem DateTime_round_and_weekday:
  assumes "whole_time (dt_time dt)" and "1721426 \<le> julian (dt_date dt)" and "julian (dt_date dt) < 10 ^ 10"
    and "0 < n" and "n < 2 ^ 53"
  shows "(\<exists>dt'. datetime_round dt (of_int n) = ok dt' \<and> whole_time (dt_time dt') \<and>
            total_seconds dt' = total_seconds dt div n * n) \<and>
         tm_wday (format_tm dt) = (julian (dt_date dt) + 1) mod 7"
  using datetime_round_total [OF assms(1) _ assms(3-5)] format_tm_weekday [OF assms(2)] assms(2) by simp

theorem DateTime_round_and_weekday_witness:
  "(\<exists>dt'. datetime_round \<lparr>dt_date = Date_julian 2451545, dt_time = \<lparr>secs = of_int 5000\<rparr>\<rparr> (of_int 3600) = ok dt' \<and>
      total_seconds dt' = 2451545 * 86400 + 3600) \<and>
   tm_wday (format_tm \<lparr>dt_date = Date_julian 2451545, dt_time = \<lparr>secs = of_int 5000\<rparr>\<rparr>) = 6"
proof -
  have "whole_time \<lparr>secs = of_int 5000\<rparr>" by (rule whole_timeI; simp)
  then show ?thesis
    using DateTime_round_and_weekday [of "\<lparr>dt_date = Date_julian 2451545, dt_time = \<lparr>secs = of_int 5000\<rparr>\<rparr>" 3600]
    by (auto simp: total_seconds_def Date_julian_def lround_of_int simp del: of_int_numeral)
qed

end
