(* ===== verification/Eckit_Fraction.thy ===== *)
theory Eckit_Fraction
  imports Eckit_Double
begin

text \<open>
  Rational numbers: \<^verbatim>\<open>types/Fraction.cc\<close>, \<^verbatim>\<open>types/Fraction.h\<close> and \<^verbatim>\<open>into_signed\<close> of \<^verbatim>\<open>utils/SafeCasts.h\<close>. The members are
  64 bit integers, kept as \<open>int\<close> with every computation that would leave the range made the error
  \<open>OutOfBounds\<close>, as it is undefined in C++. The overflow checks of \<^verbatim>\<open>mul\<close> and \<^verbatim>\<open>add\<close> and the fall-back to double
  precision are modelled as they are, with the doubles of \<open>Eckit_Double\<close>; only finite doubles are considered.
  The constructors from text that go through \<^verbatim>\<open>strtod\<close> are not modelled.

  The abstract side is the field of rational numbers: \<open>frac_val\<close>.
\<close>

section \<open>State and constructors\<close>

record fraction =
  top_val :: int
  bottom_val :: int

definition VALUE_TYPE_MAX :: int where
  "VALUE_TYPE_MAX = 2 ^ 63 - 1"

definition VALUE_TYPE_MIN :: int where
  "VALUE_TYPE_MIN = - (2 ^ 63)"

text \<open>\<^verbatim>\<open>std::abs\<close> of the smallest \<^verbatim>\<open>long long\<close> is undefined.\<close>

definition llabs :: "int \<Rightarrow> int result" where
  "llabs x = long_range \<bar>x\<bar>"


definition Fraction_ratio :: "int \<Rightarrow> int \<Rightarrow> fraction result" where
  "Fraction_ratio tp bt =
     ASSERT (bt \<noteq> 0)
       (rbind (llabs tp) (\<lambda>abs_top.
        rbind (llabs bt) (\<lambda>abs_bottom.
          let sgn = (if (tp < 0) = (bt < 0) then 1 else - 1);
              g = gcd abs_top abs_bottom
          in ok \<lparr>top_val = abs_top sdiv g * sgn, bottom_val = abs_bottom sdiv g\<rparr>)))"

text \<open>\<^verbatim>\<open>Fraction(int)\<close>, \<^verbatim>\<open>Fraction(short)\<close>, \<^verbatim>\<open>Fraction(long)\<close>, \<^verbatim>\<open>Fraction(long long)\<close> and those from the small unsigned types.\<close>

definition Fraction_int :: "int \<Rightarrow> fraction" where
  "Fraction_int n = \<lparr>top_val = n, bottom_val = 1\<rparr>"

definition into_signed :: "int \<Rightarrow> int result" where
  "into_signed value = (if value > VALUE_TYPE_MAX then throw BadCast else ok value)"

definition Fraction_unsigned :: "int \<Rightarrow> fraction result" where
  "Fraction_unsigned n = rbind (into_signed n) (\<lambda>v. ok \<lparr>top_val = v, bottom_val = 1\<rparr>)"

section \<open>The continued fraction of a double\<close>

text \<open>The integer part of the square root of the largest \<^verbatim>\<open>long long\<close>.\<close>

definition MAX_DENOM :: int where
  "MAX_DENOM = 3037000499"

text \<open>A conversion of a double to \<^verbatim>\<open>long long\<close> is undefined outside its range.\<close>

definition to_value_type :: "double \<Rightarrow> int result" where
  "to_value_type x = long_range (trunc x)"

text \<open>
  The inner loop, on its local variables. It throws when the counter passes 10000, which bounds the
  number of iterations.
\<close>

function cf_loop ::
  "double \<Rightarrow> nat \<Rightarrow> double \<Rightarrow> int \<Rightarrow> int \<Rightarrow> int \<Rightarrow> int \<Rightarrow> int \<Rightarrow> int \<Rightarrow> (int \<times> int) result" where
  "cf_loop eps cnt x a t2 m00 m01 m10 m11 =
     (if t2 \<le> MAX_DENOM then
        rbind (long_range (m00 * a + m01)) (\<lambda>t1.
          let m01 = m00; m00 = t1; m11 = m10; m10 = t2;
              dx = to_double (x - to_double (of_int a))
          in if \<bar>dx\<bar> < eps then ok (m00, m10)
             else
               let x = to_double (1 / dx)
               in if x > to_double (of_int VALUE_TYPE_MAX) then ok (m00, m10)
                  else
                    rbind (to_value_type x) (\<lambda>a.
                    rbind (long_range (m10 * a + m11)) (\<lambda>t2.
                      if cnt > 10000 then throw BadValue
                      else cf_loop eps (cnt + 1) x a t2 m00 m01 m10 m11)))
      else ok (m00, m10))"
  by pat_completeness auto
termination
  by (relation "measure (\<lambda>(eps, cnt, x, a, t2, m00, m01, m10, m11). 10001 - cnt)") simp_all

declare cf_loop.simps [simp del]

function halve :: "int \<Rightarrow> int \<Rightarrow> int \<times> int" where
  "halve m00 m10 =
     (if m10 \<ge> MAX_DENOM \<or> m00 \<ge> MAX_DENOM then halve (drop_bit 1 m00) (drop_bit 1 m10) else (m00, m10))"
  by pat_completeness auto
termination
proof (relation "measure (\<lambda>(m00, m10). nat m00 + nat m10)")
  fix m00 m10 :: int
  assume "m10 \<ge> MAX_DENOM \<or> m00 \<ge> MAX_DENOM"
  then show "((drop_bit 1 m00, drop_bit 1 m10), m00, m10) \<in> measure (\<lambda>(m00, m10). nat m00 + nat m10)"
    by (auto simp: MAX_DENOM_def drop_bit_eq_div)
qed simp

declare halve.simps [simp del]

fun Fraction_double_eps :: "double \<Rightarrow> double list \<Rightarrow> fraction result" where
  "Fraction_double_eps value [] = throw BadValue"
| "Fraction_double_eps value (eps # rest) =
     rbind (to_value_type \<bar>value\<bar>) (\<lambda>a.
     rbind (cf_loop eps 0 \<bar>value\<bar> a (0 * a + 1) 1 0 0 1) (\<lambda>(m00, m10).
       let (m00, m10) = halve m00 m10
       in if m10 \<noteq> 0 then
            let sgn = (if value < 0 then - 1 else 1);
                g = gcd m00 m10
            in ok \<lparr>top_val = m00 sdiv g * sgn, bottom_val = m10 sdiv g\<rparr>
          else Fraction_double_eps value rest))"

definition Fraction_double :: "double \<Rightarrow> fraction result" where
  "Fraction_double value =
     Fraction_double_eps value
       (map to_double [1 / 2 ^ 52, 1 / 10 ^ 9, 1 / 10 ^ 8, 1 / 10 ^ 7, 1 / 10 ^ 6])"

section \<open>Accessors and conversions\<close>

definition frac_integer :: "fraction \<Rightarrow> bool" where
  "frac_integer f \<longleftrightarrow> bottom_val f = 1"

definition frac_abs :: "fraction \<Rightarrow> fraction result" where
  "frac_abs f =
     rbind (if top_val f < 0 then long_range (- top_val f) else ok (top_val f)) (\<lambda>t. Fraction_ratio t (bottom_val f))"

definition frac_double :: "fraction \<Rightarrow> double" where
  "frac_double f = to_double (to_double (of_int (top_val f)) / to_double (of_int (bottom_val f)))"

definition frac_value :: "fraction \<Rightarrow> int result" where
  "frac_value f = (if bottom_val f = 1 then ok (top_val f) else throw SeriousBug)"

definition frac_neg :: "fraction \<Rightarrow> fraction result" where
  "frac_neg f = rbind (long_range (- top_val f)) (\<lambda>t. Fraction_ratio t (bottom_val f))"

definition integralPart :: "fraction \<Rightarrow> int" where
  "integralPart f = top_val f sdiv bottom_val f"

definition frac_inverse :: "fraction \<Rightarrow> fraction result" where
  "frac_inverse f = (if top_val f \<noteq> 0 then Fraction_ratio (bottom_val f) (top_val f) else throw BadValue)"

definition frac_to_string :: "fraction \<Rightarrow> string" where
  "frac_to_string f =
     (if bottom_val f = 1 then int_to_string (top_val f)
      else int_to_string (top_val f) @ ''/'' @ int_to_string (bottom_val f))"

section \<open>Arithmetic with overflow checks\<close>

text \<open>
  \<^verbatim>\<open>mul\<close>, \<^verbatim>\<open>add\<close> and \<^verbatim>\<open>sub\<close> take the overflow flag by reference: they return it with the value. Once it is set the
  values are 0 and the operands are not looked at.
\<close>

definition mul :: "bool \<Rightarrow> int \<Rightarrow> int \<Rightarrow> (bool \<times> int) result" where
  "mul overflow a b =
     (if overflow then ok (True, 0)
      else if b = 0 then ok (False, a * b)
      else rbind (llabs a) (\<lambda>abs_a. rbind (llabs b) (\<lambda>abs_b.
             if abs_a > VALUE_TYPE_MAX sdiv abs_b then ok (True, 0) else ok (False, a * b))))"

definition add :: "bool \<Rightarrow> int \<Rightarrow> int \<Rightarrow> bool \<times> int" where
  "add overflow a b =
     (let overflow = (overflow \<or> (if b > 0 then a > VALUE_TYPE_MAX - b else a < VALUE_TYPE_MIN - b))
      in (overflow, if overflow then 0 else a + b))"

definition sub :: "bool \<Rightarrow> int \<Rightarrow> int \<Rightarrow> bool \<times> int" where
  "sub overflow a b = add overflow a (- b)"

definition frac_add :: "fraction \<Rightarrow> fraction \<Rightarrow> fraction result" where
  "frac_add this other =
     rbind (mul False (top_val this) (bottom_val other)) (\<lambda>(ov, x).
     rbind (mul ov (bottom_val this) (top_val other)) (\<lambda>(ov, y).
       let (ov, top) = add ov x y in
       rbind (mul ov (bottom_val this) (bottom_val other)) (\<lambda>(ov, bottom).
         if \<not> ov then Fraction_ratio top bottom
         else Fraction_double (to_double (frac_double this + frac_double other)))))"

definition frac_sub :: "fraction \<Rightarrow> fraction \<Rightarrow> fraction result" where
  "frac_sub this other =
     rbind (mul False (top_val this) (bottom_val other)) (\<lambda>(ov, x).
     rbind (mul ov (bottom_val this) (top_val other)) (\<lambda>(ov, y).
       let (ov, top) = sub ov x y in
       rbind (mul ov (bottom_val this) (bottom_val other)) (\<lambda>(ov, bottom).
         if \<not> ov then Fraction_ratio top bottom
         else Fraction_double (to_double (frac_double this - frac_double other)))))"

text \<open>The quotient of doubles is not finite when the divisor is 0: not a number fails the assertion of the constructor, an infinity is undefined there.\<close>

definition frac_div :: "fraction \<Rightarrow> fraction \<Rightarrow> fraction result" where
  "frac_div this other =
     rbind (mul False (top_val this) (bottom_val other)) (\<lambda>(ov, top).
     rbind (mul ov (bottom_val this) (top_val other)) (\<lambda>(ov, bottom).
       if \<not> ov then Fraction_ratio top bottom
       else if frac_double other = 0 then throw (if frac_double this = 0 then AssertionFailed else OutOfBounds)
       else Fraction_double (to_double (frac_double this / frac_double other))))"

definition frac_mul :: "fraction \<Rightarrow> fraction \<Rightarrow> fraction result" where
  "frac_mul this other =
     rbind (mul False (top_val this) (top_val other)) (\<lambda>(ov, top).
     rbind (mul ov (bottom_val this) (bottom_val other)) (\<lambda>(ov, bottom).
       if \<not> ov then Fraction_ratio top bottom
       else Fraction_double (to_double (frac_double this * frac_double other))))"

definition decimalPart :: "fraction \<Rightarrow> fraction result" where
  "decimalPart f = frac_sub f (Fraction_int (integralPart f))"

section \<open>Comparisons\<close>

definition frac_eq :: "fraction \<Rightarrow> fraction \<Rightarrow> bool" where
  "frac_eq this other \<longleftrightarrow> top_val this = top_val other \<and> bottom_val this = bottom_val other"


text \<open>The body the four orderings share, with the comparison of integers and of doubles they apply.\<close>

definition frac_compare :: "(int \<Rightarrow> int \<Rightarrow> bool) \<Rightarrow> (double \<Rightarrow> double \<Rightarrow> bool) \<Rightarrow> fraction \<Rightarrow> fraction \<Rightarrow> bool result" where
  "frac_compare cmp cmpd this other =
     rbind (mul False (top_val this) (bottom_val other)) (\<lambda>(ov, x).
     rbind (mul ov (top_val other) (bottom_val this)) (\<lambda>(ov, y).
       if \<not> ov then ok (cmp x y) else ok (cmpd (frac_double this) (frac_double other))))"

definition frac_less :: "fraction \<Rightarrow> fraction \<Rightarrow> bool result" where
  "frac_less = frac_compare (<) (<)"

definition frac_le :: "fraction \<Rightarrow> fraction \<Rightarrow> bool result" where
  "frac_le = frac_compare (\<le>) (\<le>)"

definition frac_greater :: "fraction \<Rightarrow> fraction \<Rightarrow> bool result" where
  "frac_greater = frac_compare (>) (>)"

definition frac_ge :: "fraction \<Rightarrow> fraction \<Rightarrow> bool result" where
  "frac_ge = frac_compare (\<ge>) (\<ge>)"

section \<open>Text and stable versions\<close>







section \<open>Abstract side\<close>

definition frac_val :: "fraction \<Rightarrow> rat" where
  "frac_val f = of_int (top_val f) / of_int (bottom_val f)"

text \<open>The canonical form every constructor establishes: lowest terms, positive denominator, both within 64 bits.\<close>

definition canonical :: "fraction \<Rightarrow> bool" where
  "canonical f \<longleftrightarrow> 0 < bottom_val f \<and> bottom_val f < 2 ^ 63 \<and> \<bar>top_val f\<bar> < 2 ^ 63 \<and> coprime (top_val f) (bottom_val f)"

text \<open>The products the sum, the difference and the comparisons form stay within 64 bits.\<close>

definition fits :: "fraction \<Rightarrow> fraction \<Rightarrow> bool" where
  "fits a b \<longleftrightarrow> \<bar>top_val a * bottom_val b\<bar> < 2 ^ 63 \<and> \<bar>bottom_val a * top_val b\<bar> < 2 ^ 63 \<and>
     \<bar>bottom_val a * bottom_val b\<bar> < 2 ^ 63"

section \<open>Exact arithmetic\<close>

lemma MAX_DENOM_isqrt: "MAX_DENOM\<^sup>2 \<le> VALUE_TYPE_MAX \<and> VALUE_TYPE_MAX < (MAX_DENOM + 1)\<^sup>2"
  by (simp add: MAX_DENOM_def VALUE_TYPE_MAX_def)

lemma long_range_ok: "\<bar>x\<bar> < 2 ^ 63 \<Longrightarrow> long_range x = ok x"
  by (auto simp: long_range_def)

lemma div_less_iff_mult: "0 < b \<Longrightarrow> k div b < a \<longleftrightarrow> k < a * b" for a b k :: int
proof
  assume "0 < b" "k div b < a"
  then have "k div b * b + b \<le> a * b" using mult_right_mono [of "k div b + 1" a b] by (simp add: distrib_right)
  then show "k < a * b" using pos_mod_bound [OF \<open>0 < b\<close>, of k] div_mult_mod_eq [of k b] by linarith
next
  assume "0 < b" "k < a * b"
  then have "k div b * b < a * b" using pos_mod_sign [OF \<open>0 < b\<close>, of k] div_mult_mod_eq [of k b] by linarith
  then show "k div b < a" using \<open>0 < b\<close> by simp
qed

lemma reduce_sign:
  fixes t b :: int
  assumes "0 \<le> t" "0 < b" "t < 2 ^ 63" "b < 2 ^ 63" "s = 1 \<or> s = - 1"
  shows "canonical \<lparr>top_val = t div gcd t b * s, bottom_val = b div gcd t b\<rparr>"
    "frac_val \<lparr>top_val = t div gcd t b * s, bottom_val = b div gcd t b\<rparr> = of_int (s * t) / of_int b"
proof -
  define g x y where gxy: "g = gcd t b" "x = t div gcd t b" "y = b div gcd t b"
  have g: "0 < g" using assms(2) by (simp add: gxy gcd_pos_int)
  have t: "t = g * x" and b: "b = g * y" by (simp_all add: gxy)
  have c: "coprime x y" using assms(2) unfolding gxy by (intro div_gcd_coprime) simp
  have y: "0 < y" using assms(2) g unfolding b by (simp add: zero_less_mult_iff)
  have x: "0 \<le> x" using assms(1) g unfolding t by (simp add: zero_le_mult_iff)
  have "x \<le> t" "y \<le> b" using g x y unfolding t b by (simp_all add: mult_le_cancel_right1 flip: mult_1_left)
  then show "canonical \<lparr>top_val = t div gcd t b * s, bottom_val = b div gcd t b\<rparr>"
    unfolding canonical_def gxy(2,3) [symmetric] using x y c assms(3-5) by (auto simp: abs_mult)
  have "(of_int (s * t) :: rat) / of_int b = of_int s * of_int x / of_int y"
    using g y by (simp add: t b)
  then show "frac_val \<lparr>top_val = t div gcd t b * s, bottom_val = b div gcd t b\<rparr> = of_int (s * t) / of_int b"
    unfolding gxy(2,3) [symmetric] by (simp add: frac_val_def)
qed

lemma Fraction_ratio_exact:
  assumes "b \<noteq> 0" "\<bar>t\<bar> < 2 ^ 63" "\<bar>b\<bar> < 2 ^ 63"
  shows "\<exists>f. Fraction_ratio t b = ok f \<and> canonical f \<and> frac_val f = of_int t / of_int b"
proof -
  define s :: int where "s = (if (t < 0) = (b < 0) then 1 else - 1)"
  have "Fraction_ratio t b =
      ok \<lparr>top_val = \<bar>t\<bar> div gcd \<bar>t\<bar> \<bar>b\<bar> * s, bottom_val = \<bar>b\<bar> div gcd \<bar>t\<bar> \<bar>b\<bar>\<rparr>"
    using assms by (simp add: Fraction_ratio_def llabs_def long_range_ok s_def Let_def)
  moreover have "(of_int (s * \<bar>t\<bar>) :: rat) / of_int \<bar>b\<bar> = of_int t / of_int b"
    using assms(1) by (auto simp: s_def abs_if)
  ultimately show ?thesis using reduce_sign [of "\<bar>t\<bar>" "\<bar>b\<bar>" s] assms by (auto simp: s_def)
qed

lemma Fraction_ratio_canonical: "Fraction_ratio t b = ok f \<Longrightarrow> canonical f"
proof -
  assume f: "Fraction_ratio t b = ok f"
  then have "b \<noteq> 0" "\<bar>t\<bar> < 2 ^ 63" "\<bar>b\<bar> < 2 ^ 63"
    by (auto simp: Fraction_ratio_def llabs_def long_range_def ASSERT_eq_Inr_iff rbind_eq_Inr_iff split: if_splits)
  then show ?thesis using Fraction_ratio_exact f by fastforce
qed

lemma mul_False:
  assumes "\<bar>a\<bar> < 2 ^ 63" "\<bar>b\<bar> < 2 ^ 63"
  shows "mul False a b = ok (if \<bar>a * b\<bar> < 2 ^ 63 then (False, a * b) else (True, 0))"
proof (cases "b = 0")
  case False
  then have "VALUE_TYPE_MAX div \<bar>b\<bar> < \<bar>a\<bar> \<longleftrightarrow> VALUE_TYPE_MAX < \<bar>a\<bar> * \<bar>b\<bar>" by (intro div_less_iff_mult) simp
  moreover have "VALUE_TYPE_MAX < \<bar>a\<bar> * \<bar>b\<bar> \<longleftrightarrow> \<not> \<bar>a * b\<bar> < 2 ^ 63" unfolding VALUE_TYPE_MAX_def abs_mult by linarith
  ultimately show ?thesis using False assms by (simp add: mul_def llabs_def long_range_ok VALUE_TYPE_MAX_def)
qed (simp add: mul_def)

lemma mul_cases:
  assumes "\<bar>a\<bar> < 2 ^ 63" "\<bar>b\<bar> < 2 ^ 63"
  obtains ov' x where "mul ov a b = ok (ov', x)" "\<not> ov' \<Longrightarrow> \<not> ov \<and> x = a * b \<and> \<bar>x\<bar> < 2 ^ 63"
  using mul_False [OF assms] that by (cases ov) (auto simp: mul_def split: if_splits)

lemma add_False:
  "\<bar>a\<bar> < 2 ^ 63 \<Longrightarrow> \<bar>b\<bar> < 2 ^ 63 \<Longrightarrow> \<bar>a + b\<bar> < 2 ^ 63 \<Longrightarrow> add False a b = (False, a + b)"
  by (auto simp: add_def VALUE_TYPE_MAX_def VALUE_TYPE_MIN_def Let_def)

lemma canonical_bounds:
  assumes "canonical f"
  shows "\<bar>top_val f\<bar> < 2 ^ 63" "\<bar>bottom_val f\<bar> < 2 ^ 63" "0 < bottom_val f"
  using assms by (auto simp: canonical_def)

lemma frac_add_exact:
  assumes "canonical a" "canonical b" "fits a b" "\<bar>top_val a * bottom_val b + bottom_val a * top_val b\<bar> < 2 ^ 63"
  shows "\<exists>c. frac_add a b = ok c \<and> canonical c \<and> frac_val c = frac_val a + frac_val b"
proof -
  note A = canonical_bounds [OF assms(1)] and B = canonical_bounds [OF assms(2)]
  define t where "t = top_val a * bottom_val b + bottom_val a * top_val b"
  have "frac_add a b = Fraction_ratio t (bottom_val a * bottom_val b)"
    using assms(3,4) A B unfolding frac_add_def fits_def t_def by (simp add: mul_False add_False)
  moreover have "(of_int t :: rat) / of_int (bottom_val a * bottom_val b) = frac_val a + frac_val b"
    using A(3) B(3) by (simp add: t_def frac_val_def add_frac_eq mult.commute)
  moreover have "bottom_val a * bottom_val b \<noteq> 0" using A(3) B(3) by simp
  ultimately show ?thesis
    using Fraction_ratio_exact [of "bottom_val a * bottom_val b" t] assms(3,4) by (simp add: fits_def t_def)
qed

lemma frac_sub_exact:
  assumes "canonical a" "canonical b" "fits a b" "\<bar>top_val a * bottom_val b - bottom_val a * top_val b\<bar> < 2 ^ 63"
  shows "\<exists>c. frac_sub a b = ok c \<and> canonical c \<and> frac_val c = frac_val a - frac_val b"
proof -
  note A = canonical_bounds [OF assms(1)] and B = canonical_bounds [OF assms(2)]
  define t where "t = top_val a * bottom_val b - bottom_val a * top_val b"
  have "sub False (top_val a * bottom_val b) (bottom_val a * top_val b) = (False, t)"
    using assms(3,4) add_False [of "top_val a * bottom_val b" "- (bottom_val a * top_val b)"]
    by (simp add: sub_def fits_def t_def)
  then have "frac_sub a b = Fraction_ratio t (bottom_val a * bottom_val b)"
    using assms(3) A B unfolding frac_sub_def fits_def by (simp add: mul_False)
  moreover have "(of_int t :: rat) / of_int (bottom_val a * bottom_val b) = frac_val a - frac_val b"
    using A(3) B(3) by (simp add: t_def frac_val_def diff_frac_eq mult.commute)
  moreover have "bottom_val a * bottom_val b \<noteq> 0" using A(3) B(3) by simp
  ultimately show ?thesis
    using Fraction_ratio_exact [of "bottom_val a * bottom_val b" t] assms(3,4) by (simp add: fits_def t_def)
qed

lemma frac_mul_exact:
  assumes "canonical a" "canonical b" "\<bar>top_val a * top_val b\<bar> < 2 ^ 63" "\<bar>bottom_val a * bottom_val b\<bar> < 2 ^ 63"
  shows "\<exists>c. frac_mul a b = ok c \<and> canonical c \<and> frac_val c = frac_val a * frac_val b"
proof -
  note A = canonical_bounds [OF assms(1)] and B = canonical_bounds [OF assms(2)]
  have "frac_mul a b = Fraction_ratio (top_val a * top_val b) (bottom_val a * bottom_val b)"
    using assms(3,4) A B unfolding frac_mul_def by (simp add: mul_False)
  then show ?thesis
    using Fraction_ratio_exact [of "bottom_val a * bottom_val b" "top_val a * top_val b"] assms(3,4) A(3) B(3)
    by (auto simp: frac_val_def)
qed

lemma frac_div_exact:
  assumes "canonical a" "canonical b" "fits a b"
  shows "if top_val b = 0 then frac_div a b = throw AssertionFailed
         else \<exists>c. frac_div a b = ok c \<and> canonical c \<and> frac_val c = frac_val a / frac_val b"
proof -
  note A = canonical_bounds [OF assms(1)] and B = canonical_bounds [OF assms(2)]
  have "frac_div a b = Fraction_ratio (top_val a * bottom_val b) (bottom_val a * top_val b)"
    using assms(3) A B unfolding frac_div_def fits_def by (simp add: mul_False)
  then show ?thesis
    using Fraction_ratio_exact [of "bottom_val a * top_val b" "top_val a * bottom_val b"] assms(3) A(3) B(3)
    by (auto simp: frac_val_def fits_def Fraction_ratio_def)
qed

lemma frac_compare_exact:
  assumes "canonical a" "canonical b" "fits a b"
  shows "frac_less a b = ok (frac_val a < frac_val b)" "frac_le a b = ok (frac_val a \<le> frac_val b)"
    "frac_greater a b = ok (frac_val a > frac_val b)" "frac_ge a b = ok (frac_val a \<ge> frac_val b)"
proof -
  note A = canonical_bounds [OF assms(1)] and B = canonical_bounds [OF assms(2)]
  have c: "frac_compare cmp cmpd a b = ok (cmp (top_val a * bottom_val b) (top_val b * bottom_val a))" for cmp cmpd
    using assms(3) A B unfolding frac_compare_def fits_def by (simp add: mul_False mult.commute)
  have less: "frac_val x < frac_val y \<longleftrightarrow> top_val x * bottom_val y < top_val y * bottom_val x"
    if "0 < bottom_val x" "0 < bottom_val y" for x y
  proof -
    have "frac_val x < frac_val y \<longleftrightarrow> (of_int (top_val x * bottom_val y) :: rat) < of_int (top_val y * bottom_val x)"
      using that by (simp add: frac_val_def divide_less_eq less_divide_eq field_simps)
    then show ?thesis by (simp only: of_int_less_iff)
  qed
  show "frac_less a b = ok (frac_val a < frac_val b)" "frac_le a b = ok (frac_val a \<le> frac_val b)"
    "frac_greater a b = ok (frac_val a > frac_val b)" "frac_ge a b = ok (frac_val a \<ge> frac_val b)"
    using less [OF A(3) B(3)] less [OF B(3) A(3)]
    by (auto simp: frac_less_def frac_le_def frac_greater_def frac_ge_def c not_less [symmetric])
qed

lemma canonical_eq:
  assumes "canonical a" "canonical b"
  shows "frac_eq a b \<longleftrightarrow> frac_val a = frac_val b"
proof
  assume "frac_val a = frac_val b"
  then have "Rat.normalize (top_val a, bottom_val a) = Rat.normalize (top_val b, bottom_val b)"
    by (metis frac_val_def Fract_of_int_quotient quotient_of_Fract)
  then show "frac_eq a b" using assms by (simp add: canonical_def normalize_stable frac_eq_def)
qed (simp add: frac_eq_def frac_val_def)

section \<open>Canonical form\<close>

lemma halve_bounds:
  "0 \<le> m00 \<Longrightarrow> 0 \<le> m10 \<Longrightarrow> halve m00 m10 = (p, q) \<Longrightarrow> 0 \<le> p \<and> p < MAX_DENOM \<and> 0 \<le> q \<and> q < MAX_DENOM"
proof (induction m00 m10 rule: halve.induct)
  case (1 m00 m10)
  show ?case
  proof (cases "m10 \<ge> MAX_DENOM \<or> m00 \<ge> MAX_DENOM")
    case True
    then show ?thesis using 1 halve.simps [of m00 m10] by (simp add: drop_bit_eq_div)
  next
    case False
    then show ?thesis using 1(2-4) halve.simps [of m00 m10] by simp
  qed
qed

lemma to_double_of_trunc:
  assumes "to_double x = x" "0 \<le> x"
  shows "0 \<le> trunc x" "0 \<le> to_double (x - to_double (of_int (trunc x)))"
proof -
  show "0 \<le> trunc x" using assms(2) by (simp add: trunc_def)
  have "of_int (trunc x) \<le> x" using assms(2) by (simp add: trunc_def)
  then show "0 \<le> to_double (x - to_double (of_int (trunc x)))"
    by (intro to_double_nonneg) (simp add: to_double_trunc [OF assms])
qed

lemma to_value_type_ok: "to_value_type x = ok a \<Longrightarrow> a = trunc x"
  by (auto simp: to_value_type_def long_range_def split: if_splits)

lemma cf_loop_nonneg:
  assumes "cf_loop eps cnt x a t2 m00 m01 m10 m11 = ok (p, q)" "to_double x = x" "0 \<le> x" "a = trunc x"
    "0 \<le> t2" "0 \<le> m00" "0 \<le> m01" "0 \<le> m10" "0 \<le> m11"
  shows "0 \<le> p \<and> 0 \<le> q"
  using assms
proof (induction "10001 - cnt" arbitrary: cnt x a t2 m00 m01 m10 m11 rule: less_induct)
  case less
  note a = to_double_of_trunc [OF less.prems(2,3), folded less.prems(4)]
  have t1: "0 \<le> m00 * a + m01" using less.prems a(1) by simp
  define dx where "dx = to_double (x - to_double (of_int a))"
  define x' where "x' = to_double (1 / dx)"
  have x': "to_double x' = x'" "0 \<le> x'" using a(2) by (simp_all add: x'_def dx_def to_double_nonneg)
  have a': "0 \<le> trunc x'" using to_double_of_trunc(1) [OF x'] .
  show ?case
    using less.prems(1) less.hyps [of "cnt + 1" x' "trunc x'" _ _ m00 t2 m10] t1 less.prems(5-9) x' a'
    by (subst (asm) cf_loop.simps)
      (auto simp: Let_def rbind_eq_Inr_iff long_range_def dx_def [symmetric] x'_def [symmetric]
        dest!: to_value_type_ok split: if_splits)
qed

lemma Fraction_double_eps_canonical:
  assumes "to_double v = v" "Fraction_double_eps v epss = ok f"
  shows "canonical f \<and> \<bar>top_val f\<bar> < MAX_DENOM \<and> bottom_val f < MAX_DENOM"
  using assms(2)
proof (induction epss)
  case (Cons eps epss)
  note v = to_double_abs [OF assms(1)]
  obtain a m00 m10 where c: "a = trunc \<bar>v\<bar>" "cf_loop eps 0 \<bar>v\<bar> a 1 1 0 0 1 = ok (m00, m10)"
    "(let (m00, m10) = halve m00 m10 in
      if m10 \<noteq> 0 then
        let sgn = (if v < 0 then - 1 else 1); g = gcd m00 m10
        in ok \<lparr>top_val = m00 sdiv g * sgn, bottom_val = m10 sdiv g\<rparr>
      else Fraction_double_eps v epss) = ok f"
    using Cons.prems by (auto simp: rbind_eq_Inr_iff dest!: to_value_type_ok)
  have "0 \<le> m00 \<and> 0 \<le> m10" using cf_loop_nonneg [OF c(2) v _ c(1)] by simp
  moreover obtain p q where pq: "halve m00 m10 = (p, q)" by (cases "halve m00 m10")
  ultimately have b: "0 \<le> p" "p < MAX_DENOM" "0 \<le> q" "q < MAX_DENOM" using halve_bounds by blast+
  show ?case
  proof (cases "q = 0")
    case True
    then show ?thesis using Cons.IH c(3) pq by simp
  next
    case False
    have g: "1 \<le> gcd p q" using False gcd_pos_int [of p q] by linarith
    then have "0 \<le> p div gcd p q" "p div gcd p q \<le> p" "q div gcd p q \<le> q"
      using b zdiv_mono2 [of p 1 "gcd p q"] zdiv_mono2 [of q 1 "gcd p q"] by (simp_all add: div_int_pos_iff)
    then show ?thesis
      using c(3) pq False b reduce_sign(1) [of p q "if v < 0 then - 1 else 1"]
      by (auto simp: Let_def MAX_DENOM_def abs_mult split: if_splits)
  qed
qed simp


lemma Fraction_double_canonical: "to_double v = v \<Longrightarrow> Fraction_double v = ok f \<Longrightarrow> canonical f"
  unfolding Fraction_double_def using Fraction_double_eps_canonical by blast

lemma frac_double_double [simp]: "to_double (frac_double f) = frac_double f"
  by (simp add: frac_double_def)

lemma operations_canonical:
  "frac_add a b = ok f \<Longrightarrow> canonical f" "frac_sub a b = ok f \<Longrightarrow> canonical f"
  "frac_mul a b = ok f \<Longrightarrow> canonical f" "frac_div a b = ok f \<Longrightarrow> canonical f"
  "frac_neg a = ok f \<Longrightarrow> canonical f" "frac_abs a = ok f \<Longrightarrow> canonical f" "frac_inverse a = ok f \<Longrightarrow> canonical f"
  by (auto simp: frac_add_def frac_sub_def frac_mul_def frac_div_def frac_neg_def frac_abs_def frac_inverse_def
      rbind_eq_Inr_iff Let_def split_beta
      dest: Fraction_ratio_canonical Fraction_double_canonical [OF to_double_idem] split: if_splits)


section \<open>Stable versions and decimal text\<close>







section \<open>Properties\<close>

text \<open>
  C8. Exact arithmetic: while the cross products of the members fit 64 bits, the sum, the difference, the
  product and the quotient of two fractions in canonical form are those of the rational numbers, in
  canonical form, and the four orderings are the order of the rational numbers; equality of the members
  is equality of the numbers. A division by the fraction 0 throws \<^verbatim>\<open>AssertionFailed\<close>.
\<close>

theorem Fraction_exact:
  assumes "canonical a" and "canonical b" and "fits a b"
    and "\<bar>top_val a * top_val b\<bar> < 2 ^ 63"
    and "\<bar>top_val a * bottom_val b\<bar> + \<bar>bottom_val a * top_val b\<bar> < 2 ^ 63"
  shows "(\<exists>c. frac_add a b = ok c \<and> canonical c \<and> frac_val c = frac_val a + frac_val b) \<and>
         (\<exists>c. frac_sub a b = ok c \<and> canonical c \<and> frac_val c = frac_val a - frac_val b) \<and>
         (\<exists>c. frac_mul a b = ok c \<and> canonical c \<and> frac_val c = frac_val a * frac_val b) \<and>
         (if top_val b = 0 then frac_div a b = throw AssertionFailed
          else \<exists>c. frac_div a b = ok c \<and> canonical c \<and> frac_val c = frac_val a / frac_val b) \<and>
         frac_less a b = ok (frac_val a < frac_val b) \<and> frac_le a b = ok (frac_val a \<le> frac_val b) \<and>
         frac_greater a b = ok (frac_val a > frac_val b) \<and> frac_ge a b = ok (frac_val a \<ge> frac_val b) \<and>
         (frac_eq a b \<longleftrightarrow> frac_val a = frac_val b)"
proof -
  have s: "\<bar>top_val a * bottom_val b + bottom_val a * top_val b\<bar> < 2 ^ 63"
    "\<bar>top_val a * bottom_val b - bottom_val a * top_val b\<bar> < 2 ^ 63"
    using assms(5) by linarith+
  have p: "\<bar>bottom_val a * bottom_val b\<bar> < 2 ^ 63" using assms(3) by (simp only: fits_def)
  show ?thesis
    by (intro conjI frac_add_exact [OF assms(1-3) s(1)] frac_sub_exact [OF assms(1-3) s(2)]
        frac_mul_exact [OF assms(1,2,4) p] frac_div_exact [OF assms(1-3)] frac_compare_exact [OF assms(1-3)]
        canonical_eq [OF assms(1,2)])
qed

theorem Fraction_exact_witness:
  "(\<exists>c. frac_add \<lparr>top_val = 1, bottom_val = 6\<rparr> \<lparr>top_val = - 3, bottom_val = 4\<rparr> = ok c \<and> frac_val c = - 7 / 12) \<and>
   frac_less \<lparr>top_val = 1, bottom_val = 6\<rparr> \<lparr>top_val = - 3, bottom_val = 4\<rparr> = ok False"
proof -
  have "canonical \<lparr>top_val = 1, bottom_val = 6\<rparr>" "canonical \<lparr>top_val = - 3, bottom_val = 4\<rparr>"
    "fits \<lparr>top_val = 1, bottom_val = 6\<rparr> \<lparr>top_val = - 3, bottom_val = 4\<rparr>" by code_simp+
  then show ?thesis
    using Fraction_exact [of "\<lparr>top_val = 1, bottom_val = 6\<rparr>" "\<lparr>top_val = - 3, bottom_val = 4\<rparr>"]
    by (auto simp: frac_val_def)
qed

text \<open>
  C21. Every fraction is in canonical form, lowest terms over a positive denominator: whatever the
  overflows on the way, the constructor from a numerator and a denominator, the continued fraction of any
  finite double and every operation return a canonical fraction or throw.
\<close>

theorem Fraction_canonical:
  "(Fraction_ratio t b = ok f \<longrightarrow> canonical f) \<and>
   (Fraction_double (to_double v) = ok f \<longrightarrow> canonical f) \<and>
   (frac_add x y = ok f \<longrightarrow> canonical f) \<and> (frac_sub x y = ok f \<longrightarrow> canonical f) \<and>
   (frac_mul x y = ok f \<longrightarrow> canonical f) \<and> (frac_div x y = ok f \<longrightarrow> canonical f) \<and>
   (frac_neg x = ok f \<longrightarrow> canonical f) \<and> (frac_abs x = ok f \<longrightarrow> canonical f) \<and>
   (frac_inverse x = ok f \<longrightarrow> canonical f)"
  by (intro conjI impI; erule Fraction_ratio_canonical Fraction_double_canonical [OF to_double_idem] operations_canonical)

theorem Fraction_canonical_witness:
  "Fraction_ratio 6 (- 4) = ok \<lparr>top_val = - 3, bottom_val = 2\<rparr> \<and> canonical \<lparr>top_val = - 3, bottom_val = 2\<rparr>"
proof -
  have "Fraction_ratio 6 (- 4) = ok \<lparr>top_val = - 3, bottom_val = 2\<rparr>" by code_simp
  then show ?thesis using Fraction_canonical [of 6 "- 4" "\<lparr>top_val = - 3, bottom_val = 2\<rparr>"] by simp
qed



end
