(* ===== verification/Spec2Isabelle.thy ===== *)
theory Spec2Isabelle
  imports Eckit_RLE Eckit_Base64 Eckit_Compress Eckit_Queues Eckit_Dense Eckit_CacheLRU Eckit_BTree_Map Eckit_Serialisation Eckit_Time Eckit_Fraction
begin

text \<open>
  \<^bold>\<open>eckit\<close> is the C++ toolkit of ECMWF. This development models the self-contained part of it: text utilities, calendar and
  time, exact fractions, coders, containers, memory and serialisation. Paths below are relative to
  \<^verbatim>\<open>src/src/eckit\<close>; definitions keep the names of the source, with a prefix where a name is taken.

  \<^bold>\<open>Conventions.\<close> An operation takes the object as a record and returns the changed record. Exceptions are values of
  \<open>eckit_error\<close>, and a fallible operation has a type \<open>'a result\<close>, the sum of an exception and a value; an access the
  language leaves undefined (outside an array, signed overflow) is the error \<open>OutOfBounds\<close>. Loops are recursive functions
  with a termination proof. A loop that may run for ever is a partial function into \<open>'a comp\<close>, where not returning is
  \<open>None\<close>, and that it returns is a theorem; no fuel is used. What is outside the sources is an argument: the clock
  (\<open>Eckit_Date\<close>, \<open>Eckit_RLE\<close>), the contents of fresh or adjacent memory (\<open>Eckit_Queues\<close>, \<open>Eckit_Memory\<close>, \<open>Eckit_RLE\<close>), the
  system call behind a file lock (\<open>Eckit_BTree\<close>), the device behind a stream (\<open>Eckit_Stream\<close>).

  \<^bold>\<open>Theories.\<close>
  \<^item> \<open>Eckit_Prelude\<close>: results and their composition, C++ division, the C library functions the sources call, shared
    lemmas, and the locale \<open>keyed_order\<close> of comparisons that follow a numeric key.
  \<^item> \<open>Eckit_Strings\<close>: \<^verbatim>\<open>utils/Tokenizer.{h,cc}\<close> and \<^verbatim>\<open>utils/StringTools.cc\<close>. Tokenising is splitting at the separators;
    substitution renders a template.
  \<^item> \<open>Eckit_Date\<close>: \<^verbatim>\<open>types/Date.{h,cc}\<close>, \<^verbatim>\<open>Month\<close>, \<^verbatim>\<open>DayOfYear\<close>. The julian day conversions agree with the Gregorian calendar,
    the constructor accepts exactly its days, and the increment is the next day.
  \<^item> \<open>Eckit_Double\<close>, \<open>Eckit_Time\<close>: finite doubles with rounding; \<^verbatim>\<open>types/Time\<close>, \<^verbatim>\<open>DateTime\<close>, \<^verbatim>\<open>Hour\<close>. Texts are read back,
    instants are ordered and added as numbers of seconds, and the two places where the code departs from this
    are pinned down.
  \<^item> \<open>Eckit_Fraction\<close>: \<^verbatim>\<open>types/Fraction.{h,cc}\<close>. Every operation returns a canonical fraction or throws; it is exact while
    the cross products fit 64 bits.
  \<^item> \<open>Eckit_Translator\<close>: \<^verbatim>\<open>utils/Translator.cc\<close>, integers at their width with unit suffixes.
  \<^item> \<open>Eckit_RLE\<close>: \<^verbatim>\<open>utils/RLE.cc\<close>. Decoding undoes encoding, except when the time limit passes inside a block.
  \<^item> \<open>Eckit_BitIO\<close>: \<^verbatim>\<open>io/BitIO.{h,cc}\<close>. Bit fields of any width are read back. Its interfaces \<open>bit_writer\<close> and \<open>bit_reader\<close>
    carry the two coders built on it.
  \<^item> \<open>Eckit_Base64\<close>: \<^verbatim>\<open>io/Base64.cc\<close> and \<^verbatim>\<open>codec/detail/Base64.cc\<close>. The two encoders agree and their decoders undo them;
    unchecked input makes the decoders read outside their tables.
  \<^item> \<open>Eckit_Compress\<close>: \<^verbatim>\<open>io/Compress.cc\<close>. The LZW encoder refines an encoder without streams, the decoder follows it in
    lockstep and ends on every input, and the round trip holds exactly when the end marker is not misread; 253 distinct
    bytes are a case where it is.
  \<^item> \<open>Eckit_Queues\<close>: \<^verbatim>\<open>io/CircularBuffer.cc\<close> refines a list of bytes (locale \<open>byte_queue\<close>); \<^verbatim>\<open>container/Queue.h\<close> is a step relation
    whose runs, for any interleaving of threads, deliver in order, lose nothing and never block everyone.
  \<^item> \<open>Eckit_Dense\<close>, \<open>Eckit_CacheLRU\<close>: \<^verbatim>\<open>container/DenseMap.h\<close>, \<^verbatim>\<open>DenseSet.h\<close>, \<^verbatim>\<open>CacheLRU.{h,cc}\<close> against maps, sets and lists by
    recency (locales \<open>indexed_map\<close>, \<open>recency_store\<close>).
  \<^item> \<open>Eckit_BTree\<close>, \<open>Eckit_BTree_Wf\<close>, \<open>Eckit_BTree_Map\<close>: \<^verbatim>\<open>container/BTree.{h,cc}\<close>. The first holds the model and the locale
    \<open>page_store\<close>, interpreted for the file with its cache; the second the invariant of the tree, the locale \<open>descent\<close>
    for every walk from the root to a leaf, and the splits; the third the refinement of a map, for any sequence of
    insertions, across ranges, counting, the destructor and opening the file again.
  \<^item> \<open>Eckit_Memory\<close>, \<open>Eckit_Stream\<close>, \<open>Eckit_Serialisation\<close>: \<^verbatim>\<open>io/Buffer\<close>, \<^verbatim>\<open>io/MemoryHandle\<close>, \<^verbatim>\<open>serialisation/Stream\<close> with its
    concrete streams, and the container operators of \<^verbatim>\<open>types/Types.cc\<close>. The laws of bytes (locales \<open>byte_sink\<close>, \<open>byte_source\<close>)
    are extended to laws of typed values (\<open>out_stream\<close>, \<open>in_stream\<close>) and interpreted for every concrete stream; objects written
    to a stream over a memory handle are read back, mismatched types are refused, exceptions are delivered.

  \<^bold>\<open>Interaction.\<close> Serialisation composes \<open>Eckit_Stream\<close> with the devices of \<open>Eckit_Memory\<close>; the Base64 and LZW coders are
  clients of \<open>Eckit_BitIO\<close>; instants are built from dates and times, and fractions and times share the doubles. The
  properties of these theories are stated over the composed definitions.

  \<^bold>\<open>Bounds.\<close> Widths of LZW codes are limited to 30 bits, as \<^verbatim>\<open>MAX_CODE\<close> shifts an \<^verbatim>\<open>int\<close>. Pages of the B+ tree hold more than
  three entries, as the source asserts statically. Sizes and file positions are natural numbers.
  Doubles are finite.

  \<^bold>\<open>Not modelled.\<close>
  \<^item> Dump and load hooks, and the printing of containers and pages: output with no state of its own.
  \<^item> Floating point conversions of \<^verbatim>\<open>Translator\<close> and the constructors that go through \<^verbatim>\<open>strtod\<close>: they depend on the library's
    decimal conversion beyond the decimal text modelled here.
  \<^item> Files, pipes, sockets, processes, threads, MPI and remote stores (\<^verbatim>\<open>io\<close> apart from the above, \<^verbatim>\<open>filesystem\<close>, \<^verbatim>\<open>net\<close>, \<^verbatim>\<open>os\<close>,
    \<^verbatim>\<open>thread\<close>, \<^verbatim>\<open>mpi\<close>): their behaviour is that of the operating system or an external library.
  \<^item> Hashes, compressors and regular expressions of \<^verbatim>\<open>utils\<close>: wrappers around external libraries.
  \<^item> Dynamic values and their parsers, configuration, the SQL engine, geometry and linear algebra, the remaining
    containers and the rest of the codec library: not covered.
\<close>

end
